(* ===== verification/Prelude.thy ===== *)
theory Prelude
  imports Main "HOL-Library.Word"
begin

text \<open>
  What the components of the Redis model share: the machine integers of the C code with
  their wrap-around written out, C characters, NUL-terminated buffers read with a bounds
  check, decimal notation, and the generic list lemmas of the proofs.

  Byte strings (\<open>char *\<close>, \<open>sds\<close>) are lists of characters (type \<open>string\<close>); a character is
  one byte.
\<close>

section \<open>Machine integers\<close>

named_theorems wrap_simps \<open>unfolding rules of the wrap-around functions\<close>

definition u32 :: "int \<Rightarrow> int" where
  "u32 x = x mod 2 ^ 32"

definition s32 :: "int \<Rightarrow> int" where
  "s32 x = (x + 2 ^ 31) mod 2 ^ 32 - 2 ^ 31"

definition u64 :: "int \<Rightarrow> int" where
  "u64 x = x mod 2 ^ 64"

definition s64 :: "int \<Rightarrow> int" where
  "s64 x = (x + 2 ^ 63) mod 2 ^ 64 - 2 ^ 63"

abbreviation ULLONG_MAX :: int where
  "ULLONG_MAX \<equiv> 18446744073709551615"

abbreviation LLONG_MAX :: int where
  "LLONG_MAX \<equiv> 9223372036854775807"

abbreviation LLONG_MIN :: int where
  "LLONG_MIN \<equiv> -9223372036854775808"

abbreviation in_ll :: "int \<Rightarrow> bool" where
  "in_ll v \<equiv> LLONG_MIN \<le> v \<and> v \<le> LLONG_MAX"

lemma u64_id [wrap_simps]: "0 \<le> x \<Longrightarrow> x \<le> ULLONG_MAX \<Longrightarrow> u64 x = x"
  by (simp add: u64_def)

lemma u64_range: "0 \<le> u64 x \<and> u64 x \<le> ULLONG_MAX"
proof -
  have "u64 x < 18446744073709551616" by (simp add: u64_def)
  then show ?thesis by (simp add: u64_def)
qed

lemma s64_id [wrap_simps]: "in_ll x \<Longrightarrow> s64 x = x"
  by (simp add: s64_def)

lemma s64_range: "in_ll (s64 x)"
proof -
  have "0 \<le> (x + 2 ^ 63) mod 2 ^ 64" and "(x + 2 ^ 63) mod 2 ^ 64 < (2 ^ 64 :: int)" by simp_all
  then show ?thesis by (simp add: s64_def)
qed

lemma s64_u64 [simp]: "s64 (u64 x) = s64 x"
  by (simp add: s64_def u64_def mod_simps)

lemma s32_id [wrap_simps]: "- 2147483648 \<le> x \<Longrightarrow> x \<le> 2147483647 \<Longrightarrow> s32 x = x"
  by (simp add: s32_def)

lemma u32_id [wrap_simps]: "0 \<le> x \<Longrightarrow> x < 4294967296 \<Longrightarrow> u32 x = x"
  by (simp add: u32_def)

section \<open>Characters and C strings\<close>

abbreviation NUL :: char where
  "NUL \<equiv> CHR 0x00"

definition char_int :: "char \<Rightarrow> int" where
  \<comment> \<open>a plain \<open>char\<close> read as \<open>int\<close>: signed on the targets of this code\<close>
  "char_int c = (let n = of_char c :: int in if n \<ge> 128 then n - 256 else n)"

definition c_tolower :: "int \<Rightarrow> int" where
  \<comment> \<open>\<open>tolower\<close> of the C locale\<close>
  "c_tolower x = (if 65 \<le> x \<and> x \<le> 90 then x + 32 else x)"

definition eq_nocase_str :: "string \<Rightarrow> string \<Rightarrow> bool" where
  \<comment> \<open>\<open>!strcasecmp(s, lit)\<close> with a literal that holds no NUL\<close>
  "eq_nocase_str s lit \<longleftrightarrow>
     map (\<lambda>c. c_tolower (of_char c)) (takeWhile (\<lambda>c. c \<noteq> NUL) s) = map (\<lambda>c. c_tolower (of_char c)) lit"

definition rd :: "string \<Rightarrow> nat \<Rightarrow> char option" where
  \<comment> \<open>reading byte \<open>i\<close> of a buffer that holds \<open>s\<close> and its terminating NUL;
     \<open>None\<close> is a read outside the buffer\<close>
  "rd s i = (if i < length s then Some (s ! i) else if i = length s then Some NUL else None)"

lemma rd_less [simp]: "i < length s \<Longrightarrow> rd s i = Some (s ! i)"
  by (simp add: rd_def)

lemma rd_end [simp]: "rd s (length s) = Some NUL"
  by (simp add: rd_def)

lemma rd_Some_le: "rd s i = Some c \<Longrightarrow> i \<le> length s"
  by (auto simp: rd_def split: if_splits)

lemma rd_append [simp]: "rd (a @ b) (length a + i) = rd b i"
  by (auto simp: rd_def nth_append)

lemma rd_append0 [simp]: "rd (a @ b) (length a) = rd b 0"
  using rd_append[of a b 0] by simp

lemma rd_Nil [simp]: "rd [] i = (if i = 0 then Some NUL else None)"
  by (simp add: rd_def)

lemma rd_Cons_0 [simp]: "rd (c # s) 0 = Some c"
  by (simp add: rd_def)

lemma rd_Cons_Suc [simp]: "rd (c # s) (Suc i) = rd s i"
  by (simp add: rd_def)

lemma char_int_inj: "char_int a = char_int b \<longleftrightarrow> a = b"
proof
  assume *: "char_int a = char_int b"
  have b: "(of_char x :: int) < 256" "(0::int) \<le> of_char x" for x :: char
    using of_char_mod_256[of x, where 'a=int] by (metis pos_mod_bound pos_mod_sign zero_less_numeral)+
  have "(of_char a :: int) = of_char b"
    using * b[of a] b[of b] by (auto simp: char_int_def Let_def split: if_splits)
  then show "a = b" by simp
qed simp

section \<open>Decimal notation\<close>

definition is_digit :: "char \<Rightarrow> bool" where
  "is_digit c \<longleftrightarrow> 48 \<le> (of_char c :: nat) \<and> (of_char c :: nat) \<le> 57"

definition digit_val :: "char \<Rightarrow> int" where
  "digit_val c = of_char c - 48"

definition digit_char :: "nat \<Rightarrow> char" where
  "digit_char d = char_of (48 + d)"

fun dec :: "nat \<Rightarrow> string" where
  \<comment> \<open>the decimal notation of a natural number, without leading zeros\<close>
  "dec n = (if n < 10 then [digit_char n] else dec (n div 10) @ [digit_char (n mod 10)])"

declare dec.simps [simp del]

definition dec_int :: "int \<Rightarrow> string" where
  "dec_int v = (if v < 0 then CHR ''-'' # dec (nat (- v)) else dec (nat v))"

lemma of_char_digit_char [simp]: "d < 10 \<Longrightarrow> (of_char (digit_char d) :: nat) = 48 + d"
  by (simp add: digit_char_def of_char_of)

lemma of_char_int_nat: "(of_char c :: int) = int (of_char c)"
  by (rule sym) (rule of_nat_of_char)

lemma digit_val_digit_char [simp]: "d < 10 \<Longrightarrow> digit_val (digit_char d) = int d"
  by (simp add: digit_val_def of_char_int_nat)

lemma is_digit_digit_char [simp]: "d < 10 \<Longrightarrow> is_digit (digit_char d)"
  by (simp add: is_digit_def)

lemma digit_char_digit_val: "is_digit c \<Longrightarrow> digit_char (nat (digit_val c)) = c"
  by (simp add: is_digit_def digit_char_def digit_val_def of_char_int_nat nat_diff_distrib
      flip: of_nat_diff)

lemma digit_val_range: "is_digit c \<Longrightarrow> 0 \<le> digit_val c \<and> digit_val c \<le> 9"
  by (simp add: is_digit_def digit_val_def of_char_int_nat)

lemma digit_char_inj: "a < 10 \<Longrightarrow> b < 10 \<Longrightarrow> digit_char a = digit_char b \<longleftrightarrow> a = b"
  by (metis digit_val_digit_char of_nat_eq_iff)

lemma digit_char_0 [simp]: "digit_char 0 = CHR ''0''"
  by code_simp

lemma digit_char_eq_0 [simp]: "d < 10 \<Longrightarrow> digit_char d = CHR ''0'' \<longleftrightarrow> d = 0"
  using digit_char_inj[of d 0] by simp

lemma dec_nonempty [simp]: "dec n \<noteq> []" "[] \<noteq> dec n"
  by (subst dec.simps, simp)+

lemma dec_digits: "c \<in> set (dec n) \<Longrightarrow> is_digit c"
proof (induction n rule: dec.induct)
  case (1 n)
  then show ?case
    by (cases "n < 10") (auto simp: dec.simps[of n] split: if_splits)
qed

lemma dec_0 [simp]: "dec 0 = ''0''"
  by (simp add: dec.simps[of 0])

lemma hd_dec: "0 < n \<Longrightarrow> \<exists>d. 0 < d \<and> d < 10 \<and> hd (dec n) = digit_char d"
proof (induction n rule: dec.induct)
  case (1 n)
  show ?case
  proof (cases "n < 10")
    case True
    with "1.prems" show ?thesis by (auto simp: dec.simps[of n])
  next
    case False
    then have "0 < n div 10" by (simp add: div_greater_zero_iff)
    with False "1.IH" show ?thesis by (simp add: dec.simps[of n])
  qed
qed

lemma dec_snoc: "0 < n \<Longrightarrow> d < 10 \<Longrightarrow> dec (10 * n + d) = dec n @ [digit_char d]"
  by (simp add: dec.simps[of "10 * n + d"])

section \<open>Lists updated by index\<close>

lemma drop_update_same: "i < length xs \<Longrightarrow> drop i (xs[i := x]) = x # drop (Suc i) xs"
  by (simp add: Cons_nth_drop_Suc [symmetric] drop_update_cancel)

lemma take_drop_Suc: "i < length xs \<Longrightarrow> take i xs @ xs ! i # drop (Suc i) xs = xs"
  by (rule id_take_nth_drop [symmetric])

end
