(* ===== verification/Dict.thy ===== *)
theory Dict
  imports Prelude "HOL-Library.Multiset" "HOL-Library.Monad_Syntax"
begin

text \<open>
  The hash table of \<open>src/redis-3.0/src/dict.c\<close> and \<open>dict.h\<close>: two tables of chains, incremental
  rehashing from \<open>ht[0]\<close> to \<open>ht[1]\<close>, and the operations built on it.

  A chain (\<open>dictEntry\<close> linked by \<open>next\<close>) is the list of its entries, in chain order; a table is
  the list of its chains, \<open>[]\<close> for the pointer NULL. Keys and values are HOL values, so the
  \<open>keyDup\<close> and \<open>valDup\<close> callbacks, which copy, and the destructors, which free, have no
  counterpart. Every read of a chain is checked: an operation is \<open>None\<close> where the code would
  index a table out of bounds or fail its assertion.
\<close>

unbundle bit_operations_syntax

section \<open>State\<close>

record ('k, 'v) dictType =
  hashFunction :: "'k \<Rightarrow> 32 word"
  keyCompare :: "('k \<Rightarrow> 'k \<Rightarrow> bool) option"

record ('k, 'v) dictht =
  table :: "('k \<times> 'v) list list"
  size :: nat
  sizemask :: nat
  used :: nat

record ('k, 'v) dict =
  dtype :: "('k, 'v) dictType"
  ht0 :: "('k, 'v) dictht"
  ht1 :: "('k, 'v) dictht"
  rehashidx :: int
  iterators :: int

text \<open>The globals the code reads: \<open>dict_can_resize\<close>, and \<open>g_IsForkedProcess\<close> of the Windows build.\<close>

record dict_globals =
  dict_can_resize :: bool
  g_IsForkedProcess :: bool

abbreviation (input) dict_force_resize_ratio :: nat where
  "dict_force_resize_ratio \<equiv> 5"

abbreviation (input) DICT_HT_INITIAL_SIZE :: nat where
  "DICT_HT_INITIAL_SIZE \<equiv> 4"

abbreviation (input) PORT_LONG_MAX :: nat where
  "PORT_LONG_MAX \<equiv> 9223372036854775807"

section \<open>Macros and table access\<close>

definition dictCompareKeys :: "('k, 'v) dict \<Rightarrow> 'k \<Rightarrow> 'k \<Rightarrow> bool" where
  "dictCompareKeys d key1 key2 =
     (case keyCompare (dtype d) of Some cmp \<Rightarrow> cmp key1 key2 | None \<Rightarrow> key1 = key2)"

definition dictHashKey :: "('k, 'v) dict \<Rightarrow> 'k \<Rightarrow> nat" where
  "dictHashKey d key = unat (hashFunction (dtype d) key)"

definition dictIsRehashing :: "('k, 'v) dict \<Rightarrow> bool" where
  "dictIsRehashing d \<longleftrightarrow> rehashidx d \<noteq> -1"

definition dictSize :: "('k, 'v) dict \<Rightarrow> nat" where
  "dictSize d = used (ht0 d) + used (ht1 d)"

definition dictSlots :: "('k, 'v) dict \<Rightarrow> nat" where
  "dictSlots d = size (ht0 d) + size (ht1 d)"

definition bucket :: "('k, 'v) dictht \<Rightarrow> nat \<Rightarrow> ('k \<times> 'v) list option" where
  \<comment> \<open>the chain \<open>table[i]\<close>, read in bounds\<close>
  "bucket ht i = (if i < length (table ht) then Some (table ht ! i) else None)"

definition find_entry :: "('k, 'v) dict \<Rightarrow> 'k \<Rightarrow> ('k \<times> 'v) list \<Rightarrow> ('k \<times> 'v) option" where
  \<comment> \<open>the walk along a chain to the first matching key\<close>
  "find_entry d key chain = List.find (\<lambda>e. dictCompareKeys d key (fst e)) chain"

section \<open>Creation, expansion\<close>

definition dictReset :: "('k, 'v) dictht" where
  "dictReset = \<lparr>table = [], size = 0, sizemask = 0, used = 0\<rparr>"

definition dictCreate :: "('k, 'v) dictType \<Rightarrow> ('k, 'v) dict" where
  "dictCreate type =
     \<lparr>dtype = type, ht0 = dictReset, ht1 = dictReset, rehashidx = -1, iterators = 0\<rparr>"

function dictNextPower_loop :: "nat \<Rightarrow> nat \<Rightarrow> nat" where
  \<comment> \<open>the loop starts at 4, so that \<open>i\<close> is never 0\<close>
  "dictNextPower_loop i sz = (if i \<ge> sz \<or> i = 0 then i else dictNextPower_loop (i * 2) sz)"
  by pat_completeness auto
termination
  by (relation "measure (\<lambda>(i, sz). sz - i)") auto

declare dictNextPower_loop.simps [simp del]

definition dictNextPower :: "nat \<Rightarrow> nat" where
  "dictNextPower sz =
     (if sz \<ge> PORT_LONG_MAX then PORT_LONG_MAX else dictNextPower_loop DICT_HT_INITIAL_SIZE sz)"

definition dictExpand :: "('k, 'v) dict \<Rightarrow> nat \<Rightarrow> ('k, 'v) dict \<times> bool" where
  \<comment> \<open>the flag is True for \<open>DICT_OK\<close>\<close>
  "dictExpand d sz =
     (let realsize = dictNextPower sz in
      if dictIsRehashing d \<or> used (ht0 d) > sz then (d, False)
      else if realsize = size (ht0 d) then (d, False)
      else
        let n = \<lparr>table = replicate realsize [], size = realsize, sizemask = realsize - 1, used = 0\<rparr>
        in if table (ht0 d) = [] then (d\<lparr>ht0 := n\<rparr>, True)
           else (d\<lparr>ht1 := n, rehashidx := 0\<rparr>, True))"

definition dictResize :: "dict_globals \<Rightarrow> ('k, 'v) dict \<Rightarrow> ('k, 'v) dict \<times> bool" where
  "dictResize g d =
     (if \<not> dict_can_resize g \<or> dictIsRehashing d then (d, False)
      else
        let minimal = used (ht0 d);
            minimal = (if minimal < DICT_HT_INITIAL_SIZE then DICT_HT_INITIAL_SIZE else minimal)
        in dictExpand d minimal)"

definition dictExpandIfNeeded :: "dict_globals \<Rightarrow> ('k, 'v) dict \<Rightarrow> ('k, 'v) dict \<times> bool" where
  "dictExpandIfNeeded g d =
     (if dictIsRehashing d then (d, True)
      else if size (ht0 d) = 0 then dictExpand d DICT_HT_INITIAL_SIZE
      else if used (ht0 d) \<ge> size (ht0 d) \<and>
        (dict_can_resize g \<or> used (ht0 d) div size (ht0 d) > dict_force_resize_ratio)
      then dictExpand d (used (ht0 d) * 2)
      else (d, True))"

section \<open>Incremental rehashing\<close>

definition move_entry :: "('k, 'v) dict \<Rightarrow> 'k \<times> 'v \<Rightarrow> ('k, 'v) dict" where
  \<comment> \<open>the body of \<open>while(de)\<close>: push the entry on its chain of \<open>ht[1]\<close>\<close>
  "move_entry d de =
     (let h = dictHashKey d (fst de) AND sizemask (ht1 d)
      in d\<lparr>ht1 := (ht1 d)\<lparr>table := (table (ht1 d))[h := de # table (ht1 d) ! h],
                            used := used (ht1 d) + 1\<rparr>,
           ht0 := (ht0 d)\<lparr>used := used (ht0 d) - 1\<rparr>\<rparr>)"

fun move_chain :: "('k, 'v) dict \<Rightarrow> ('k \<times> 'v) list \<Rightarrow> ('k, 'v) dict option" where
  "move_chain d [] = Some d"
| "move_chain d (de # chain) =
     do {
       _ \<leftarrow> bucket (ht1 d) (dictHashKey d (fst de) AND sizemask (ht1 d));
       move_chain (move_entry d de) chain
     }"

datatype 'd skip_result = SkipReturn 'd | SkipFound 'd nat

function rehash_skip :: "('k, 'v) dict \<Rightarrow> nat \<Rightarrow> ('k, 'v) dict skip_result option" where
  \<comment> \<open>\<open>while(ht[0].table[rehashidx] == NULL)\<close>, with the remaining \<open>empty_visits\<close>\<close>
  "rehash_skip d empty_visits =
     (case bucket (ht0 d) (nat (rehashidx d)) of
        None \<Rightarrow> None
      | Some chain \<Rightarrow>
          if rehashidx d < 0 then None
          else if chain = [] then
            (let d' = d\<lparr>rehashidx := rehashidx d + 1\<rparr> in
             if empty_visits - 1 = 0 then Some (SkipReturn d') else rehash_skip d' (empty_visits - 1))
          else Some (SkipFound d empty_visits))"
  by pat_completeness auto
termination
  by (relation "measure (\<lambda>(d, ev). length (table (ht0 d)) - nat (rehashidx d))")
    (auto simp: bucket_def nat_add_distrib split: if_splits)

declare rehash_skip.simps [simp del]

definition rehash_finish :: "('k, 'v) dict \<Rightarrow> ('k, 'v) dict \<times> bool" where
  "rehash_finish d =
     (if used (ht0 d) = 0
      then (d\<lparr>ht0 := ht1 d, ht1 := dictReset, rehashidx := -1\<rparr>, False)
      else (d, True))"

fun rehash_loop :: "('k, 'v) dict \<Rightarrow> nat \<Rightarrow> nat \<Rightarrow> (('k, 'v) dict \<times> bool) option" where
  \<comment> \<open>\<open>while(n-- && ht[0].used != 0)\<close>; the first equation is the loop's end by \<open>n\<close>\<close>
  "rehash_loop d 0 empty_visits = Some (rehash_finish d)"
| "rehash_loop d (Suc n) empty_visits =
     (if used (ht0 d) = 0 then Some (rehash_finish d)
      else if \<not> int (size (ht0 d)) > rehashidx d then None
      else
        do {
          r \<leftarrow> rehash_skip d empty_visits;
          case r of
            SkipReturn d \<Rightarrow> Some (d, True)
          | SkipFound d empty_visits \<Rightarrow>
              do {
                chain \<leftarrow> bucket (ht0 d) (nat (rehashidx d));
                d' \<leftarrow> move_chain d chain;
                rehash_loop
                  (d'\<lparr>ht0 := (ht0 d')\<lparr>table := (table (ht0 d'))[nat (rehashidx d') := []]\<rparr>,
                      rehashidx := rehashidx d' + 1\<rparr>)
                  n empty_visits
              }
        })"

definition dictRehash :: "dict_globals \<Rightarrow> ('k, 'v) dict \<Rightarrow> nat \<Rightarrow> (('k, 'v) dict \<times> bool) option" where
  \<comment> \<open>the flag is True when there is more to rehash\<close>
  "dictRehash g d n =
     (if g_IsForkedProcess g then Some (d, False)
      else if \<not> dictIsRehashing d then Some (d, False)
      else rehash_loop d n (n * 10))"

fun rehash_ms_loop :: "dict_globals \<Rightarrow> (nat \<Rightarrow> int) \<Rightarrow> int \<Rightarrow> ('k, 'v) dict \<Rightarrow> nat \<Rightarrow> nat \<Rightarrow>
    (('k, 'v) dict \<times> nat) option" where
  \<comment> \<open>\<open>while(dictRehash(d,100))\<close>; \<open>clock i\<close> is the \<open>i\<close>-th reading of the clock, the fourth argument counts
     the turns, the last one bounds them\<close>
  "rehash_ms_loop g clock ms d turns 0 = None"
| "rehash_ms_loop g clock ms d turns (Suc fuel) =
     do {
       (d, more) \<leftarrow> dictRehash g d 100;
       if \<not> more then Some (d, turns * 100)
       else if clock (Suc turns) - clock 0 > ms then Some (d, Suc turns * 100)
       else rehash_ms_loop g clock ms d (Suc turns) fuel
     }"

definition dictRehashMilliseconds :: "dict_globals \<Rightarrow> (nat \<Rightarrow> int) \<Rightarrow> ('k, 'v) dict \<Rightarrow> int \<Rightarrow>
    (('k, 'v) dict \<times> nat) option" where
  "dictRehashMilliseconds g clock d ms = rehash_ms_loop g clock ms d 0 (size (ht0 d) + 2)"

definition dictRehashStep :: "dict_globals \<Rightarrow> ('k, 'v) dict \<Rightarrow> ('k, 'v) dict option" where
  "dictRehashStep g d =
     (if iterators d = 0 then map_option fst (dictRehash g d 1) else Some d)"

definition rehash_if_needed :: "dict_globals \<Rightarrow> ('k, 'v) dict \<Rightarrow> ('k, 'v) dict option" where
  \<comment> \<open>\<open>if (dictIsRehashing(d)) _dictRehashStep(d)\<close>\<close>
  "rehash_if_needed g d = (if dictIsRehashing d then dictRehashStep g d else Some d)"

section \<open>Lookup, insertion, deletion\<close>

definition dictFind :: "dict_globals \<Rightarrow> ('k, 'v) dict \<Rightarrow> 'k \<Rightarrow> (('k, 'v) dict \<times> ('k \<times> 'v) option) option" where
  "dictFind g d key =
     (if size (ht0 d) = 0 then Some (d, None)
      else
        do {
          d \<leftarrow> rehash_if_needed g d;
          c0 \<leftarrow> bucket (ht0 d) (dictHashKey d key AND sizemask (ht0 d));
          case find_entry d key c0 of
            Some he \<Rightarrow> Some (d, Some he)
          | None \<Rightarrow>
              if \<not> dictIsRehashing d then Some (d, None)
              else
                do {
                  c1 \<leftarrow> bucket (ht1 d) (dictHashKey d key AND sizemask (ht1 d));
                  Some (d, find_entry d key c1)
                }
        })"

definition dictFetchValue :: "dict_globals \<Rightarrow> ('k, 'v) dict \<Rightarrow> 'k \<Rightarrow> (('k, 'v) dict \<times> 'v option) option" where
  "dictFetchValue g d key =
     do {
       (d, he) \<leftarrow> dictFind g d key;
       Some (d, map_option snd he)
     }"

definition dictKeyIndex :: "dict_globals \<Rightarrow> ('k, 'v) dict \<Rightarrow> 'k \<Rightarrow> (('k, 'v) dict \<times> int) option" where
  \<comment> \<open>\<open>_dictKeyIndex\<close>: the \<open>unsigned int\<close> index is returned as an \<open>int\<close>, -1 when the key exists\<close>
  "dictKeyIndex g d key =
     (case dictExpandIfNeeded g d of
        (d, False) \<Rightarrow> Some (d, -1)
      | (d, True) \<Rightarrow>
          do {
            let h = dictHashKey d key;
            let idx0 = h AND sizemask (ht0 d);
            c0 \<leftarrow> bucket (ht0 d) idx0;
            if find_entry d key c0 \<noteq> None then Some (d, -1)
            else if \<not> dictIsRehashing d then Some (d, s32 (int idx0))
            else
              do {
                let idx1 = h AND sizemask (ht1 d);
                c1 \<leftarrow> bucket (ht1 d) idx1;
                if find_entry d key c1 \<noteq> None then Some (d, -1)
                else Some (d, s32 (int idx1))
              }
          })"

definition insert_at :: "('k, 'v) dictht \<Rightarrow> nat \<Rightarrow> 'k \<times> 'v \<Rightarrow> ('k, 'v) dictht" where
  "insert_at ht i e = ht\<lparr>table := (table ht)[i := e # table ht ! i], used := used ht + 1\<rparr>"

definition dictAddRaw :: "dict_globals \<Rightarrow> ('k, 'v) dict \<Rightarrow> 'k \<Rightarrow> 'v \<Rightarrow> (('k, 'v) dict \<times> bool) option" where
  \<comment> \<open>\<open>val\<close> is what the caller stores in the entry it gets back; the flag is False when it
     gets NULL. A negative index is outside the table.\<close>
  "dictAddRaw g d key val =
     do {
       d \<leftarrow> rehash_if_needed g d;
       (d, index) \<leftarrow> dictKeyIndex g d key;
       if index = -1 then Some (d, False)
       else if index < 0 then None
       else
         do {
           _ \<leftarrow> bucket (if dictIsRehashing d then ht1 d else ht0 d) (nat index);
           Some (if dictIsRehashing d then d\<lparr>ht1 := insert_at (ht1 d) (nat index) (key, val)\<rparr>
                 else d\<lparr>ht0 := insert_at (ht0 d) (nat index) (key, val)\<rparr>, True)
         }
     }"

definition dictAdd :: "dict_globals \<Rightarrow> ('k, 'v) dict \<Rightarrow> 'k \<Rightarrow> 'v \<Rightarrow> (('k, 'v) dict \<times> bool) option" where
  "dictAdd g d key val = dictAddRaw g d key val"

fun set_in_chain :: "('k, 'v) dict \<Rightarrow> 'k \<Rightarrow> 'v \<Rightarrow> ('k \<times> 'v) list \<Rightarrow> ('k \<times> 'v) list" where
  \<comment> \<open>\<open>dictSetVal\<close> on the entry that \<open>find_entry\<close> found\<close>
  "set_in_chain d key val [] = []"
| "set_in_chain d key val (e # es) =
     (if dictCompareKeys d key (fst e) then (fst e, val) # es else e # set_in_chain d key val es)"

definition set_found :: "('k, 'v) dict \<Rightarrow> 'k \<Rightarrow> 'v \<Rightarrow> ('k, 'v) dict" where
  \<comment> \<open>write the value of the entry \<open>dictFind\<close> returns: in \<open>ht[0]\<close> if it is there, else in \<open>ht[1]\<close>\<close>
  "set_found d key val =
     (let i0 = dictHashKey d key AND sizemask (ht0 d);
          i1 = dictHashKey d key AND sizemask (ht1 d)
      in if find_entry d key (table (ht0 d) ! i0) \<noteq> None
         then d\<lparr>ht0 := (ht0 d)\<lparr>table := (table (ht0 d))[i0 := set_in_chain d key val (table (ht0 d) ! i0)]\<rparr>\<rparr>
         else d\<lparr>ht1 := (ht1 d)\<lparr>table := (table (ht1 d))[i1 := set_in_chain d key val (table (ht1 d) ! i1)]\<rparr>\<rparr>)"

definition dictReplace :: "dict_globals \<Rightarrow> ('k, 'v) dict \<Rightarrow> 'k \<Rightarrow> 'v \<Rightarrow> (('k, 'v) dict \<times> bool) option" where
  \<comment> \<open>the flag is the return value 1; \<open>None\<close> also where the code would write through NULL\<close>
  "dictReplace g d key val =
     do {
       (d, ok) \<leftarrow> dictAdd g d key val;
       if ok then Some (d, True)
       else
         do {
           (d, entry) \<leftarrow> dictFind g d key;
           case entry of
             None \<Rightarrow> None
           | Some _ \<Rightarrow> Some (set_found d key val, False)
         }
     }"

definition dictReplaceRaw :: "dict_globals \<Rightarrow> ('k, 'v) dict \<Rightarrow> 'k \<Rightarrow> 'v \<Rightarrow> ('k, 'v) dict option" where
  \<comment> \<open>the entry is found or added; \<open>val\<close> is what the caller stores in it\<close>
  "dictReplaceRaw g d key val =
     do {
       (d, entry) \<leftarrow> dictFind g d key;
       case entry of
         Some _ \<Rightarrow> Some (set_found d key val)
       | None \<Rightarrow> map_option fst (dictAddRaw g d key val)
     }"

fun unlink :: "('k, 'v) dict \<Rightarrow> 'k \<Rightarrow> ('k \<times> 'v) list \<Rightarrow> ('k \<times> 'v) list option" where
  \<comment> \<open>the chain without its first matching entry; \<open>None\<close> if there is none\<close>
  "unlink d key [] = None"
| "unlink d key (he # rest) =
     (if dictCompareKeys d key (fst he) then Some rest
      else map_option ((#) he) (unlink d key rest))"

definition dictGenericDelete :: "dict_globals \<Rightarrow> ('k, 'v) dict \<Rightarrow> 'k \<Rightarrow> (('k, 'v) dict \<times> bool) option" where
  "dictGenericDelete g d key =
     (if size (ht0 d) = 0 then Some (d, False)
      else
        do {
          d \<leftarrow> rehash_if_needed g d;
          let h = dictHashKey d key;
          let i0 = h AND sizemask (ht0 d);
          c0 \<leftarrow> bucket (ht0 d) i0;
          case unlink d key c0 of
            Some c \<Rightarrow> Some (d\<lparr>ht0 := (ht0 d)\<lparr>table := (table (ht0 d))[i0 := c], used := used (ht0 d) - 1\<rparr>\<rparr>, True)
          | None \<Rightarrow>
              if \<not> dictIsRehashing d then Some (d, False)
              else
                do {
                  let i1 = h AND sizemask (ht1 d);
                  c1 \<leftarrow> bucket (ht1 d) i1;
                  case unlink d key c1 of
                    Some c \<Rightarrow> Some (d\<lparr>ht1 := (ht1 d)\<lparr>table := (table (ht1 d))[i1 := c], used := used (ht1 d) - 1\<rparr>\<rparr>, True)
                  | None \<Rightarrow> Some (d, False)
                }
        })"

definition dictDelete :: "dict_globals \<Rightarrow> ('k, 'v) dict \<Rightarrow> 'k \<Rightarrow> (('k, 'v) dict \<times> bool) option" where
  "dictDelete g d key = dictGenericDelete g d key"

section \<open>Clearing\<close>

fun dictClear_loop :: "('k \<times> 'v) list list \<Rightarrow> nat \<Rightarrow> nat \<times> ('k \<times> 'v) list" where
  \<comment> \<open>\<open>for (i = 0; i < size && used > 0; i++)\<close>: the final \<open>used\<close> and the entries freed\<close>
  "dictClear_loop [] us = (us, [])"
| "dictClear_loop (chain # rest) us =
     (if us > 0 then
        (let (us', freed) = dictClear_loop rest (us - length chain) in (us', chain @ freed))
      else (us, []))"

definition dictEmpty :: "('k, 'v) dict \<Rightarrow> ('k, 'v) dict \<times> ('k \<times> 'v) list" where
  \<comment> \<open>the emptied dictionary and the entries whose key and value were freed\<close>
  "dictEmpty d =
     (d\<lparr>ht0 := dictReset, ht1 := dictReset, rehashidx := -1, iterators := 0\<rparr>,
      snd (dictClear_loop (table (ht0 d)) (used (ht0 d))) @
      snd (dictClear_loop (table (ht1 d)) (used (ht1 d))))"

end
