(* ===== verification/DictInv.thy ===== *)
theory DictInv
  imports Dict
begin

text \<open>
  The invariant of the hash table of \<open>Dict\<close>, the finite map it stands for, and the proof that
  every operation keeps the one and computes on the other, at any moment of an incremental
  rehashing. The requirements on the callbacks of a \<open>dictType\<close> are the locale \<open>dict_keys\<close>.
\<close>

section \<open>Keys up to \<open>keyCompare\<close>\<close>

definition key_eq :: "('k, 'v) dictType \<Rightarrow> 'k \<Rightarrow> 'k \<Rightarrow> bool" where
  "key_eq ty a b = (case keyCompare ty of Some cmp \<Rightarrow> cmp a b | None \<Rightarrow> a = b)"

definition key_class :: "('k, 'v) dictType \<Rightarrow> 'k \<Rightarrow> 'k set" where
  "key_class ty a = {b. key_eq ty a b}"

lemma dictCompareKeys_key_eq: "dictCompareKeys d = key_eq (dtype d)"
  by (simp add: fun_eq_iff dictCompareKeys_def key_eq_def)

text \<open>What \<open>dict.c\<close> relies on: comparison is an equivalence that the hash function respects.\<close>

locale dict_keys =
  fixes ty :: "('k, 'v) dictType"
  assumes eq_refl: "key_eq ty a a"
    and eq_sym: "key_eq ty a b \<Longrightarrow> key_eq ty b a"
    and eq_trans: "key_eq ty a b \<Longrightarrow> key_eq ty b c \<Longrightarrow> key_eq ty a c"
    and hash_cong: "key_eq ty a b \<Longrightarrow> hashFunction ty a = hashFunction ty b"
begin

lemma key_eq_iff: "key_eq ty a b \<longleftrightarrow> key_class ty a = key_class ty b"
proof
  assume ab: "key_eq ty a b"
  have "key_eq ty a c \<longleftrightarrow> key_eq ty b c" for c
    using ab eq_sym[OF ab] eq_trans by metis
  then show "key_class ty a = key_class ty b" by (simp add: key_class_def)
next
  assume "key_class ty a = key_class ty b"
  moreover have "a \<in> key_class ty a" using eq_refl[of a] by (simp add: key_class_def)
  ultimately have "key_eq ty b a" by (simp add: key_class_def)
  then show "key_eq ty a b" by (rule eq_sym)
qed

lemma key_class_refl [simp]: "key_eq ty a a"
  by (rule eq_refl)

end

section \<open>The invariant\<close>

definition ht_entries :: "('k, 'v) dictht \<Rightarrow> ('k \<times> 'v) list" where
  "ht_entries ht = concat (table ht)"

definition dict_entries :: "('k, 'v) dict \<Rightarrow> ('k \<times> 'v) list" where
  "dict_entries d = ht_entries (ht0 d) @ ht_entries (ht1 d)"

definition dict_map :: "('k, 'v) dict \<Rightarrow> 'k \<Rightarrow> 'v option" where
  \<comment> \<open>the finite map the dictionary stands for\<close>
  "dict_map d k = map_option snd (List.find (\<lambda>e. key_eq (dtype d) k (fst e)) (dict_entries d))"

definition slot :: "('k, 'v) dictType \<Rightarrow> ('k, 'v) dictht \<Rightarrow> 'k \<Rightarrow> nat" where
  "slot ty ht k = unat (hashFunction ty k) AND sizemask ht"

definition ht_inv :: "('k, 'v) dictType \<Rightarrow> ('k, 'v) dictht \<Rightarrow> bool" where
  "ht_inv ty ht \<longleftrightarrow>
     ht = dictReset \<or>
     ((\<exists>n. size ht = 2 ^ n) \<and> length (table ht) = size ht \<and> sizemask ht = size ht - 1 \<and>
      used ht = length (ht_entries ht) \<and>
      (\<forall>i < size ht. \<forall>e \<in> set (table ht ! i). slot ty ht (fst e) = i))"

definition dict_inv :: "('k, 'v) dict \<Rightarrow> bool" where
  "dict_inv d \<longleftrightarrow>
     ht_inv (dtype d) (ht0 d) \<and> ht_inv (dtype d) (ht1 d) \<and>
     (if rehashidx d = -1 then ht1 d = dictReset
      else 0 \<le> rehashidx d \<and> rehashidx d \<le> int (size (ht0 d)) \<and> size (ht0 d) > 0 \<and> size (ht1 d) > 0 \<and>
        (\<forall>i < nat (rehashidx d). table (ht0 d) ! i = [])) \<and>
     distinct (map (key_class (dtype d) \<circ> fst) (dict_entries d))"

lemma dictReset_simps [simp]:
  "table dictReset = []" "size dictReset = 0" "sizemask dictReset = 0" "used dictReset = 0"
  "ht_entries dictReset = []" "ht_inv ty dictReset"
  by (simp_all add: dictReset_def ht_entries_def ht_inv_def)

lemma ht_inv_size0: "ht_inv ty ht \<Longrightarrow> size ht = 0 \<Longrightarrow> ht = dictReset"
  by (auto simp: ht_inv_def)

lemma ht_inv_length: "ht_inv ty ht \<Longrightarrow> length (table ht) = size ht"
  by (auto simp: ht_inv_def)

lemma ht_inv_used: "ht_inv ty ht \<Longrightarrow> used ht = length (ht_entries ht)"
  by (auto simp: ht_inv_def)

lemma and_mask: "(h :: nat) AND (2 ^ n - Suc 0) = take_bit n h"
  by (simp add: take_bit_eq_mask mask_eq_exp_minus_1)

lemma and_mask_less: "(h :: nat) AND (2 ^ n - Suc 0) < 2 ^ n"
  by (simp add: and_mask)

lemma slot_less: "ht_inv ty ht \<Longrightarrow> size ht > 0 \<Longrightarrow> slot ty ht k < size ht"
  by (auto simp: ht_inv_def slot_def and_mask_less)

lemma slot_bucket:
  "ht_inv ty ht \<Longrightarrow> size ht > 0 \<Longrightarrow> bucket ht (slot ty ht k) = Some (table ht ! slot ty ht k)"
  using slot_less by (auto simp: bucket_def ht_inv_length)

lemma dictHashKey_slot: "dictHashKey d k AND sizemask ht = slot (dtype d) ht k"
  by (simp add: dictHashKey_def slot_def)

section \<open>Entries as multisets\<close>

lemma mset_concat_update:
  "i < length xs \<Longrightarrow> mset (concat (xs[i := c])) + mset (xs ! i) = mset (concat xs) + mset c"
proof (induction xs arbitrary: i)
  case (Cons x xs)
  show ?case
  proof (cases i)
    case (Suc j)
    with Cons show ?thesis by (simp add: ac_simps)
  qed simp
qed simp

lemma length_concat_update:
  "i < length xs \<Longrightarrow> length (concat (xs[i := c])) + length (xs ! i) = length (concat xs) + length c"
  using mset_eq_length[of "concat (xs[i := c]) @ xs ! i" "concat xs @ c"] mset_concat_update[of i xs c]
  by simp

lemma distinct_map_mset: "mset xs = mset ys \<Longrightarrow> distinct (map f xs) = distinct (map f ys)"
  by (metis mset_eq_imp_distinct_iff mset_map)

lemma distinct_map_add:
  "mset es' = add_mset e (mset es) \<Longrightarrow> distinct (map f es) \<Longrightarrow> f e \<notin> f ` set es \<Longrightarrow>
   distinct (map f es')"
  using distinct_map_mset[of es' "e # es" f] by simp

context dict_keys
begin

lemma find_distinct:
  assumes "distinct (map (key_class ty \<circ> fst) es)"
  shows "List.find (\<lambda>e. key_eq ty k (fst e)) es = Some e \<longleftrightarrow> e \<in> set es \<and> key_eq ty k (fst e)"
  using assms
proof (induction es)
  case (Cons x xs)
  have "key_eq ty k (fst x) \<Longrightarrow> key_eq ty k (fst e) \<Longrightarrow> e \<notin> set xs"
    using Cons.prems by (auto simp: key_eq_iff image_iff)
  then show ?case using Cons by auto
qed simp

lemma dict_map_Some:
  assumes "dict_inv d" "dtype d = ty"
  shows "dict_map d k = Some v \<longleftrightarrow> (\<exists>a. (a, v) \<in> set (dict_entries d) \<and> key_eq ty k a)"
  using assms find_distinct[of "dict_entries d" k] by (force simp: dict_map_def dict_inv_def)

lemma dict_map_None:
  assumes "dtype d = ty"
  shows "dict_map d k = None \<longleftrightarrow> (\<forall>e \<in> set (dict_entries d). \<not> key_eq ty k (fst e))"
  using assms by (auto simp: dict_map_def find_None_iff)

lemma dict_map_cong:
  assumes "dtype d = ty" "key_eq ty k x"
  shows "dict_map d x = dict_map d k"
proof -
  have "key_eq ty x = key_eq ty k" using assms(2) by (simp add: key_eq_iff fun_eq_iff)
  then show ?thesis by (simp add: dict_map_def assms(1))
qed

lemma dict_map_mset:
  assumes "dict_inv d" "dict_inv d'" "dtype d = ty" "dtype d' = ty"
    and "mset (dict_entries d') = mset (dict_entries d)"
  shows "dict_map d' = dict_map d"
proof
  fix k
  have "set (dict_entries d') = set (dict_entries d)" using assms(5) by (metis set_mset_mset)
  then have "dict_map d' k = Some v \<longleftrightarrow> dict_map d k = Some v" for v
    using assms by (simp add: dict_map_Some)
  then show "dict_map d' k = dict_map d k" by (metis option.exhaust)
qed

end

section \<open>Changing one chain\<close>

lemma slot_update [simp]:
  "slot ty (ht\<lparr>table := t\<rparr>) k = slot ty ht k" "slot ty (ht\<lparr>used := u\<rparr>) k = slot ty ht k"
  by (simp_all add: slot_def)

lemma ht_entries_used [simp]: "ht_entries (ht\<lparr>used := u\<rparr>) = ht_entries ht"
  by (simp add: ht_entries_def)

lemma mset_entries_update:
  "i < length (table ht) \<Longrightarrow>
   mset (ht_entries (ht\<lparr>table := (table ht)[i := c]\<rparr>)) + mset (table ht ! i) =
   mset (ht_entries ht) + mset c"
  by (simp add: ht_entries_def mset_concat_update)

lemma ht_inv_pos: "ht_inv ty ht \<Longrightarrow> i < size ht \<Longrightarrow>
    (\<exists>n. size ht = 2 ^ n) \<and> length (table ht) = size ht \<and> sizemask ht = size ht - 1 \<and>
      used ht = length (ht_entries ht) \<and>
      (\<forall>i < size ht. \<forall>e \<in> set (table ht ! i). slot ty ht (fst e) = i)"
  by (auto simp: ht_inv_def)

lemma ht_inv_update:
  assumes inv: "ht_inv ty ht" and i: "i < size ht"
    and c: "\<forall>e \<in> set c. slot ty ht (fst e) = i"
    and u: "u + length (table ht ! i) = used ht + length c"
  shows "ht_inv ty (ht\<lparr>table := (table ht)[i := c], used := u\<rparr>)"
proof -
  note p = ht_inv_pos[OF inv i]
  have len: "length (ht_entries (ht\<lparr>table := (table ht)[i := c]\<rparr>)) + length (table ht ! i) =
      length (ht_entries ht) + length c"
    using length_concat_update[of i "table ht" c] p i by (simp add: ht_entries_def)
  have "\<forall>j < size ht. \<forall>e \<in> set ((table ht)[i := c] ! j). slot ty ht (fst e) = j"
    using p i c by (auto simp: nth_list_update)
  with p len u show ?thesis unfolding ht_inv_def by (intro disjI2) auto
qed

lemma chain_length_le: "ht_inv ty ht \<Longrightarrow> i < size ht \<Longrightarrow> length (table ht ! i) \<le> used ht"
  using ht_inv_pos[of ty ht i] length_concat_update[of i "table ht" "[]"] by (simp add: ht_entries_def)

lemma set_ht_entries: "ht_inv ty ht \<Longrightarrow>
    e \<in> set (ht_entries ht) \<longleftrightarrow> size ht > 0 \<and> e \<in> set (table ht ! slot ty ht (fst e))"
proof (cases "size ht = 0")
  case False
  assume inv: "ht_inv ty ht"
  note p = ht_inv_pos[OF inv, of 0]
  show ?thesis
  proof
    assume "e \<in> set (ht_entries ht)"
    then obtain i where "i < size ht" "e \<in> set (table ht ! i)"
      using p False by (metis UN_E gr0I ht_entries_def in_set_conv_nth set_concat)
    with p False show "size ht > 0 \<and> e \<in> set (table ht ! slot ty ht (fst e))" by auto
  next
    assume *: "size ht > 0 \<and> e \<in> set (table ht ! slot ty ht (fst e))"
    then have "slot ty ht (fst e) < length (table ht)" using slot_less[OF inv] p by simp
    then have "table ht ! slot ty ht (fst e) \<in> set (table ht)" by (rule nth_mem)
    with * show "e \<in> set (ht_entries ht)" by (auto simp: ht_entries_def)
  qed
qed (auto dest: ht_inv_size0)

section \<open>Rehashing\<close>

text \<open>\<open>same_dict d d'\<close>: \<open>d'\<close> keeps the invariant and holds the same entries.\<close>

definition dict_cap :: "('k, 'v) dict \<Rightarrow> nat" where
  "dict_cap d = max (size (ht0 d)) (size (ht1 d))"

definition same_dict :: "('k, 'v) dict \<Rightarrow> ('k, 'v) dict \<Rightarrow> bool" where
  "same_dict d d' \<longleftrightarrow> dict_inv d' \<and> mset (dict_entries d') = mset (dict_entries d) \<and>
     dtype d' = dtype d \<and> iterators d' = iterators d \<and> dict_cap d' \<le> dict_cap d \<and>
     (size (ht0 d) > 0 \<longrightarrow> size (ht0 d') > 0)"

lemma dict_cap_simps [simp]: "dict_cap (d\<lparr>rehashidx := i\<rparr>) = dict_cap d"
  by (simp add: dict_cap_def)

lemma same_dict_refl [simp]: "dict_inv d \<Longrightarrow> same_dict d d"
  by (simp add: same_dict_def)

lemma same_dict_trans [trans]: "same_dict a b \<Longrightarrow> same_dict b c \<Longrightarrow> same_dict a c"
  by (simp add: same_dict_def)

lemma move_chain_spec:
  assumes "ht_inv (dtype d) (ht1 d)" "size (ht1 d) > 0" "length chain \<le> used (ht0 d)"
  shows "\<exists>h. move_chain d chain = Some (d\<lparr>ht0 := (ht0 d)\<lparr>used := used (ht0 d) - length chain\<rparr>, ht1 := h\<rparr>) \<and>
    ht_inv (dtype d) h \<and> size h = size (ht1 d) \<and>
    mset (ht_entries h) = mset chain + mset (ht_entries (ht1 d))"
  using assms
proof (induction chain arbitrary: d)
  case Nil
  then show ?case by (intro exI[of _ "ht1 d"]) simp
next
  case (Cons e chain)
  let ?i = "slot (dtype d) (ht1 d) (fst e)"
  let ?d = "move_entry d e"
  let ?h = "(ht1 d)\<lparr>table := (table (ht1 d))[?i := e # table (ht1 d) ! ?i], used := used (ht1 d) + 1\<rparr>"
  have i: "?i < size (ht1 d)" by (rule slot_less[OF Cons.prems(1,2)])
  have d: "?d = d\<lparr>ht1 := ?h, ht0 := (ht0 d)\<lparr>used := used (ht0 d) - 1\<rparr>\<rparr>"
    by (simp add: move_entry_def dictHashKey_slot Let_def)
  have "ht_inv (dtype d) ?h"
    using ht_inv_pos[OF Cons.prems(1) i] i by (intro ht_inv_update Cons.prems(1)) auto
  moreover have ms: "mset (ht_entries ?h) = add_mset e (mset (ht_entries (ht1 d)))"
    using mset_entries_update[of ?i "ht1 d" "e # table (ht1 d) ! ?i"] i ht_inv_length[OF Cons.prems(1)]
    by simp
  moreover have "length chain \<le> used (ht0 ?d)" "dtype ?d = dtype d" "size (ht1 ?d) > 0"
    using Cons.prems by (simp_all add: d)
  ultimately obtain h where h: "move_chain ?d chain =
      Some (?d\<lparr>ht0 := (ht0 ?d)\<lparr>used := used (ht0 ?d) - length chain\<rparr>, ht1 := h\<rparr>)"
    "ht_inv (dtype d) h" "size h = size (ht1 d)"
    "mset (ht_entries h) = mset chain + mset (ht_entries ?h)"
    using Cons.IH[of ?d] by (auto simp: d)
  have "move_chain d (e # chain) = move_chain ?d chain"
    using slot_bucket[OF Cons.prems(1,2), of "fst e"] by (simp add: dictHashKey_slot)
  with h ms show ?case
    by (intro exI[of _ h]) (simp add: d)
qed

lemma dict_entries_rehashidx [simp]: "dict_entries (d\<lparr>rehashidx := i\<rparr>) = dict_entries d"
  by (simp add: dict_entries_def)

lemma rehash_inv:
  assumes "dict_inv d" "rehashidx d \<noteq> -1"
  shows "ht_inv (dtype d) (ht0 d)" "ht_inv (dtype d) (ht1 d)" "0 \<le> rehashidx d"
    "size (ht0 d) > 0" "size (ht1 d) > 0" "rehashidx d \<le> int (size (ht0 d))"
    "i < nat (rehashidx d) \<Longrightarrow> table (ht0 d) ! i = []"
  using assms by (auto simp: dict_inv_def)

lemma rehash_in_bounds:
  assumes "dict_inv d" "rehashidx d \<noteq> -1" "used (ht0 d) > 0"
  shows "rehashidx d < int (size (ht0 d))"
proof (rule ccontr)
  note inv = rehash_inv[OF assms(1,2)]
  assume "\<not> rehashidx d < int (size (ht0 d))"
  with inv have all: "i < size (ht0 d) \<Longrightarrow> table (ht0 d) ! i = []" for i by auto
  have "ht_entries (ht0 d) = []"
    using all ht_inv_length[OF inv(1)] by (auto simp: ht_entries_def in_set_conv_nth)
  with ht_inv_used[OF inv(1)] assms(3) show False by simp
qed

lemma rehashidx_advance:
  assumes "dict_inv d" "rehashidx d \<noteq> -1" "rehashidx d < int (size (ht0 d))"
    and "table (ht0 d) ! nat (rehashidx d) = []"
  shows "dict_inv (d\<lparr>rehashidx := rehashidx d + 1\<rparr>)"
proof -
  note inv = rehash_inv[OF assms(1,2)]
  have "i < nat (rehashidx d + 1) \<Longrightarrow> table (ht0 d) ! i = []" for i
    using inv(3,7) assms(4) by (cases "i = nat (rehashidx d)") auto
  with assms inv show ?thesis by (auto simp: dict_inv_def)
qed

lemma rehash_skip_spec:
  assumes "dict_inv d" "rehashidx d \<noteq> -1" "used (ht0 d) > 0"
  shows "\<exists>idx. rehashidx d \<le> idx \<and> dict_inv (d\<lparr>rehashidx := idx\<rparr>) \<and>
    (rehash_skip d ev = Some (SkipReturn (d\<lparr>rehashidx := idx\<rparr>)) \<or>
     (\<exists>ev'. rehash_skip d ev = Some (SkipFound (d\<lparr>rehashidx := idx\<rparr>) ev') \<and>
        table (ht0 d) ! nat idx \<noteq> []))"
  using assms
proof (induction d ev rule: rehash_skip.induct)
  case (1 d ev)
  note inv = rehash_inv[OF "1.prems"(1,2)] and lt = rehash_in_bounds[OF "1.prems"]
  let ?d = "d\<lparr>rehashidx := rehashidx d + 1\<rparr>"
  have b: "bucket (ht0 d) (nat (rehashidx d)) = Some (table (ht0 d) ! nat (rehashidx d))"
    using inv(3) lt ht_inv_length[OF inv(1)] by (auto simp: bucket_def)
  show ?case
  proof (cases "table (ht0 d) ! nat (rehashidx d) = []")
    case False
    with b inv(3) "1.prems" show ?thesis
      by (intro exI[of _ "rehashidx d"]) (simp add: rehash_skip.simps[of d])
  next
    case True
    have d: "dict_inv ?d" by (rule rehashidx_advance[OF "1.prems"(1,2) lt True])
    show ?thesis
    proof (cases "ev - 1 = 0")
      case stop: True
      with b True inv(3) d show ?thesis
        by (intro exI[of _ "rehashidx d + 1"]) (simp add: rehash_skip.simps[of d])
    next
      case False
      have step: "rehash_skip d ev = rehash_skip ?d (ev - 1)"
        using b True inv(3) False by (subst rehash_skip.simps) (simp add: Let_def)
      have "rehashidx ?d \<noteq> - 1" using inv(3) by simp
      from "1.IH"[OF b _ True refl False d this] inv(3) "1.prems"(3)
      obtain idx where "rehashidx d + 1 \<le> idx" "dict_inv (?d\<lparr>rehashidx := idx\<rparr>)"
        "rehash_skip ?d (ev - 1) = Some (SkipReturn (?d\<lparr>rehashidx := idx\<rparr>)) \<or>
         (\<exists>ev'. rehash_skip ?d (ev - 1) = Some (SkipFound (?d\<lparr>rehashidx := idx\<rparr>) ev') \<and>
            table (ht0 d) ! nat idx \<noteq> [])"
        by auto
      then show ?thesis unfolding step by (intro exI[of _ idx]) simp
    qed
  qed
qed

text \<open>Moving one chain: the entries change tables, the source chain empties.\<close>

lemma rehash_bucket_step:
  assumes "dict_inv d" "rehashidx d \<noteq> -1" "rehashidx d < int (size (ht0 d))"
  shows "\<exists>d'. move_chain d (table (ht0 d) ! nat (rehashidx d)) = Some d' \<and>
    same_dict d (d'\<lparr>ht0 := (ht0 d')\<lparr>table := (table (ht0 d'))[nat (rehashidx d') := []]\<rparr>,
      rehashidx := rehashidx d' + 1\<rparr>) \<and> rehashidx d' = rehashidx d"
proof -
  note inv = rehash_inv[OF assms(1,2)]
  let ?i = "nat (rehashidx d)" and ?ty = "dtype d"
  let ?c = "table (ht0 d) ! ?i"
  have i: "?i < size (ht0 d)" using assms(3) inv(3) by linarith
  have cl: "length ?c \<le> used (ht0 d)" by (rule chain_length_le[OF inv(1) i])
  obtain h where h: "move_chain d ?c =
      Some (d\<lparr>ht0 := (ht0 d)\<lparr>used := used (ht0 d) - length ?c\<rparr>, ht1 := h\<rparr>)"
    "ht_inv ?ty h" "size h = size (ht1 d)" "mset (ht_entries h) = mset ?c + mset (ht_entries (ht1 d))"
    using move_chain_spec[OF inv(2,5) cl] by auto
  let ?h0 = "(ht0 d)\<lparr>table := (table (ht0 d))[?i := []], used := used (ht0 d) - length ?c\<rparr>"
  let ?d = "d\<lparr>ht0 := ?h0, ht1 := h, rehashidx := rehashidx d + 1\<rparr>"
  have h0: "ht_inv ?ty ?h0" using cl by (intro ht_inv_update[OF inv(1) i]) auto
  have ms: "mset (dict_entries ?d) = mset (dict_entries d)"
    using mset_entries_update[of ?i "ht0 d" "[]"] i h(4) ht_inv_length[OF inv(1)]
    by (simp add: dict_entries_def ac_simps)
  have "j < nat (rehashidx d + 1) \<Longrightarrow> table ?h0 ! j = []" for j
    using inv(3,7) i ht_inv_length[OF inv(1)] by (cases "j = ?i") auto
  moreover have "distinct (map (key_class ?ty \<circ> fst) (dict_entries ?d))"
    using assms(1) unfolding distinct_map_mset[OF ms] dict_inv_def by blast
  ultimately have "dict_inv ?d"
    using h0 h(2,3) inv(3,4,5) assms(3) by (auto simp: dict_inv_def)
  let ?m = "d\<lparr>ht0 := (ht0 d)\<lparr>used := used (ht0 d) - length ?c\<rparr>, ht1 := h\<rparr>"
  have e: "?m\<lparr>ht0 := (ht0 ?m)\<lparr>table := (table (ht0 ?m))[?i := []]\<rparr>, rehashidx := rehashidx ?m + 1\<rparr> = ?d"
    by simp
  have "same_dict d ?d" using \<open>dict_inv ?d\<close> ms h(3) by (simp add: same_dict_def dict_cap_def)
  then have "same_dict d (?m\<lparr>ht0 := (ht0 ?m)\<lparr>table := (table (ht0 ?m))[?i := []]\<rparr>,
      rehashidx := rehashidx ?m + 1\<rparr>)" unfolding e .
  with h(1) show ?thesis by (intro exI[of _ ?m] conjI) simp_all
qed

lemma rehash_finish_spec:
  assumes "dict_inv d" "rehashidx d \<noteq> -1"
  shows "same_dict d (fst (rehash_finish d)) \<and>
    (snd (rehash_finish d) \<longleftrightarrow> dictIsRehashing (fst (rehash_finish d)))"
proof (cases "used (ht0 d) = 0")
  case True
  note inv = rehash_inv[OF assms]
  have "ht_entries (ht0 d) = []" using ht_inv_used[OF inv(1)] True by simp
  with assms inv True show ?thesis
    by (auto simp: rehash_finish_def same_dict_def dict_inv_def dict_entries_def dictIsRehashing_def dict_cap_def)
next
  case False
  with assms show ?thesis by (simp add: rehash_finish_def dictIsRehashing_def)
qed

lemma rehash_loop_spec:
  assumes "dict_inv d" "rehashidx d \<noteq> -1"
  shows "\<exists>d' more. rehash_loop d n ev = Some (d', more) \<and> same_dict d d' \<and>
    (more \<longleftrightarrow> dictIsRehashing d')"
  using assms
proof (induction n arbitrary: d ev)
  case 0
  then show ?case using rehash_finish_spec[OF 0] by (cases "rehash_finish d") auto
next
  case (Suc n)
  show ?case
  proof (cases "used (ht0 d) = 0")
    case True
    then show ?thesis using rehash_finish_spec[OF Suc.prems] by (cases "rehash_finish d") auto
  next
    case False
    then have pos: "used (ht0 d) > 0" by simp
    note lt = rehash_in_bounds[OF Suc.prems pos] and inv = rehash_inv[OF Suc.prems]
    obtain idx where idx: "rehashidx d \<le> idx" "dict_inv (d\<lparr>rehashidx := idx\<rparr>)"
      "rehash_skip d ev = Some (SkipReturn (d\<lparr>rehashidx := idx\<rparr>)) \<or>
       (\<exists>ev'. rehash_skip d ev = Some (SkipFound (d\<lparr>rehashidx := idx\<rparr>) ev') \<and>
          table (ht0 d) ! nat idx \<noteq> [])"
      using rehash_skip_spec[OF Suc.prems pos] by blast
    let ?d = "d\<lparr>rehashidx := idx\<rparr>"
    have same: "same_dict d ?d" using idx(2) by (simp add: same_dict_def)
    have ne: "idx \<noteq> -1" using idx(1) inv(3) by simp
    from idx(3) show ?thesis
    proof (elim disjE exE conjE)
      assume "rehash_skip d ev = Some (SkipReturn ?d)"
      then show ?thesis using False lt same ne by (simp add: dictIsRehashing_def)
    next
      fix ev' assume found: "rehash_skip d ev = Some (SkipFound ?d ev')" "table (ht0 d) ! nat idx \<noteq> []"
      have lt': "rehashidx ?d < int (size (ht0 ?d))"
        using rehash_in_bounds[OF idx(2)] ne pos by simp
      obtain d' where d': "move_chain ?d (table (ht0 ?d) ! nat (rehashidx ?d)) = Some d'"
        "same_dict ?d (d'\<lparr>ht0 := (ht0 d')\<lparr>table := (table (ht0 d'))[nat (rehashidx ?d) := []]\<rparr>,
           rehashidx := rehashidx d' + 1\<rparr>)" "rehashidx d' = idx"
        using rehash_bucket_step[OF idx(2) _ lt'] ne by auto
      let ?e = "d'\<lparr>ht0 := (ht0 d')\<lparr>table := (table (ht0 d'))[nat idx := []]\<rparr>, rehashidx := idx + 1\<rparr>"
      have e: "same_dict ?d ?e" "dict_inv ?e" using d'(2,3) by (simp_all add: same_dict_def)
      have "bucket (ht0 d) (nat idx) = Some (table (ht0 d) ! nat idx)"
        using lt' idx(1) inv(3) ht_inv_length[OF inv(1)] by (auto simp: bucket_def)
      then have eq: "rehash_loop d (Suc n) ev = rehash_loop ?e n ev'"
        using False lt found d' by simp
      have "rehashidx ?e \<noteq> -1" using idx(1) inv(3) by simp
      from Suc.IH[OF e(2) this] same_dict_trans[OF same e(1)] show ?thesis
        unfolding eq by (blast intro: same_dict_trans)
    qed
  qed
qed

lemma dictRehash_spec:
  assumes "dict_inv d"
  shows "\<exists>d' more. dictRehash g d n = Some (d', more) \<and> same_dict d d' \<and>
    (\<not> g_IsForkedProcess g \<longrightarrow> (more \<longleftrightarrow> dictIsRehashing d')) \<and>
    (\<not> dictIsRehashing d \<longrightarrow> d' = d)"
  using assms rehash_loop_spec[OF assms, of n "n * 10"]
  by (auto simp: dictRehash_def dictIsRehashing_def)

lemma rehash_if_needed_spec:
  assumes "dict_inv d"
  shows "\<exists>d'. rehash_if_needed g d = Some d' \<and> same_dict d d' \<and> (\<not> dictIsRehashing d \<longrightarrow> d' = d)"
  using assms dictRehash_spec[OF assms, of g 1]
  by (auto simp: rehash_if_needed_def dictRehashStep_def)

lemma dictSize_entries: "dict_inv d \<Longrightarrow> dictSize d = length (dict_entries d)"
  by (simp add: dictSize_def dict_entries_def dict_inv_def ht_inv_used[of "dtype d"])

lemma same_dict_size: "dict_inv d \<Longrightarrow> same_dict d d' \<Longrightarrow> dictSize d' = dictSize d"
  unfolding same_dict_def by (metis dictSize_entries mset_eq_length)

section \<open>Expansion\<close>

lemma dictNextPower_loop_spec:
  "\<exists>n. dictNextPower_loop (2 ^ k) sz = 2 ^ n \<and> k \<le> n \<and> sz \<le> 2 ^ n \<and> (n = k \<or> 2 ^ (n - 1) < sz)"
proof (induction "sz - 2 ^ k" arbitrary: k rule: less_induct)
  case less
  show ?case
  proof (cases "2 ^ k \<ge> sz")
    case True
    then show ?thesis by (intro exI[of _ k]) (simp add: dictNextPower_loop.simps)
  next
    case False
    have "sz - 2 ^ Suc k < sz - 2 ^ k" using False by (intro diff_less_mono2) auto
    from less.hyps[OF this] obtain n where
      n: "dictNextPower_loop (2 ^ Suc k) sz = 2 ^ n" "Suc k \<le> n" "sz \<le> 2 ^ n" "n = Suc k \<or> 2 ^ (n - 1) < sz"
      by blast
    moreover have "dictNextPower_loop (2 ^ k) sz = dictNextPower_loop (2 ^ Suc k) sz"
      using False by (subst dictNextPower_loop.simps) (simp add: mult.commute)
    ultimately show ?thesis using False by (intro exI[of _ n]) auto
  qed
qed

lemma dictNextPower_spec:
  assumes "sz < PORT_LONG_MAX"
  shows "\<exists>n \<ge> 2. dictNextPower sz = 2 ^ n \<and> sz \<le> 2 ^ n \<and> (n = 2 \<or> 2 ^ (n - 1) < sz)"
  using dictNextPower_loop_spec[of 2 sz] assms by (auto simp: dictNextPower_def)

lemma dictNextPower_le: "sz \<le> 2 ^ 31 \<Longrightarrow> dictNextPower sz \<le> 2 ^ 31"
proof -
  assume sz: "sz \<le> 2 ^ 31"
  then obtain n where n: "dictNextPower sz = 2 ^ n" "n = 2 \<or> 2 ^ (n - 1) < sz"
    using dictNextPower_spec[of sz] by auto
  have "n \<le> 31"
  proof (rule ccontr)
    assume "\<not> n \<le> 31"
    then have "(2::nat) ^ 31 \<le> 2 ^ (n - 1)" by (intro power_increasing) auto
    with n(2) sz \<open>\<not> n \<le> 31\<close> show False by auto
  qed
  then show ?thesis unfolding n(1) by (intro power_increasing) auto
qed

definition fresh_ht :: "nat \<Rightarrow> ('k, 'v) dictht" where
  "fresh_ht n = \<lparr>table = replicate n [], size = n, sizemask = n - 1, used = 0\<rparr>"

lemma fresh_ht_simps [simp]:
  "size (fresh_ht n) = n" "ht_entries (fresh_ht n) = []" "used (fresh_ht n) = 0"
  "ht_inv ty (fresh_ht (2 ^ k))"
  by (auto simp: fresh_ht_def ht_entries_def ht_inv_def)

lemma dictExpand_spec:
  assumes "dict_inv d" "sz \<le> 2 ^ 31" "\<not> dictIsRehashing d" "used (ht0 d) \<le> sz"
    "dictNextPower sz \<noteq> size (ht0 d)" "dict_cap d \<le> 2 ^ 31"
  shows "\<exists>d'. dictExpand d sz = (d', True) \<and> dict_inv d' \<and> dict_entries d' = dict_entries d \<and>
    dtype d' = dtype d \<and> iterators d' = iterators d \<and> dict_cap d' \<le> 2 ^ 31 \<and> size (ht0 d') > 0 \<and>
    (size (ht0 d) > 0 \<longrightarrow> dictIsRehashing d')"
proof -
  obtain n where n: "n \<ge> 2" "dictNextPower sz = 2 ^ n"
    using dictNextPower_spec[of sz] assms(2) by auto
  have le: "dictNextPower sz \<le> 2 ^ 31" by (rule dictNextPower_le[OF assms(2)])
  have inv: "ht_inv (dtype d) (ht0 d)" "ht1 d = dictReset"
    using assms(1,3) by (auto simp: dict_inv_def dictIsRehashing_def)
  show ?thesis
  proof (cases "size (ht0 d) = 0")
    case True
    then have "ht0 d = dictReset" by (rule ht_inv_size0[OF inv(1)])
    then have "dictExpand d sz = (d\<lparr>ht0 := fresh_ht (2 ^ n)\<rparr>, True)"
      using assms(3,4,5) n by (simp add: dictExpand_def fresh_ht_def Let_def)
    with assms inv n le \<open>ht0 d = dictReset\<close> show ?thesis
      by (auto simp: dict_inv_def dict_entries_def dict_cap_def dictIsRehashing_def)
  next
    case False
    then have "table (ht0 d) \<noteq> []" using ht_inv_length[OF inv(1)] by auto
    then have "dictExpand d sz = (d\<lparr>ht1 := fresh_ht (2 ^ n), rehashidx := 0\<rparr>, True)"
      using assms(3,4,5) n by (simp add: dictExpand_def fresh_ht_def Let_def)
    with assms inv n le False show ?thesis
      by (auto simp: dict_inv_def dict_entries_def dict_cap_def dictIsRehashing_def)
  qed
qed

lemma dictExpandIfNeeded_spec:
  assumes "dict_inv d" "dictSize d \<le> 2 ^ 30" "dict_cap d \<le> 2 ^ 31"
  shows "\<exists>d'. dictExpandIfNeeded g d = (d', True) \<and> dict_inv d' \<and> dict_entries d' = dict_entries d \<and>
    dtype d' = dtype d \<and> iterators d' = iterators d \<and> dict_cap d' \<le> 2 ^ 31 \<and> size (ht0 d') > 0"
proof -
  consider "dictIsRehashing d" | "\<not> dictIsRehashing d" "size (ht0 d) = 0"
    | "\<not> dictIsRehashing d" "size (ht0 d) > 0" "used (ht0 d) \<ge> size (ht0 d)"
    | "\<not> dictIsRehashing d" "size (ht0 d) > 0" "\<not> used (ht0 d) \<ge> size (ht0 d)"
    by linarith
  then show ?thesis
  proof cases
    case 1
    with assms show ?thesis
      by (auto simp: dictExpandIfNeeded_def dictIsRehashing_def dict_inv_def)
  next
    case 2
    have "ht_inv (dtype d) (ht0 d)" using assms(1) by (simp add: dict_inv_def)
    then have r: "ht0 d = dictReset" using 2(2) ht_inv_size0 by blast
    obtain n where "n \<ge> 2" "dictNextPower DICT_HT_INITIAL_SIZE = 2 ^ n"
      using dictNextPower_spec[of DICT_HT_INITIAL_SIZE] by auto
    with 2 r dictExpand_spec[OF assms(1) _ 2(1) _ _ assms(3), of DICT_HT_INITIAL_SIZE] show ?thesis
      by (auto simp: dictExpandIfNeeded_def)
  next
    case 3
    have u: "used (ht0 d) \<le> 2 ^ 30" using assms(2) by (simp add: dictSize_def)
    then obtain n where "dictNextPower (used (ht0 d) * 2) = 2 ^ n" "used (ht0 d) * 2 \<le> 2 ^ n"
      using dictNextPower_spec[of "used (ht0 d) * 2"] by auto
    then have "dictNextPower (used (ht0 d) * 2) \<noteq> size (ht0 d)" using 3 by linarith
    with 3 u assms dictExpand_spec[OF assms(1) _ 3(1) _ _ assms(3), of "used (ht0 d) * 2"] show ?thesis
      by (auto simp: dictExpandIfNeeded_def)
  next
    case 4
    with assms show ?thesis by (auto simp: dictExpandIfNeeded_def)
  qed
qed

section \<open>Lookup\<close>

lemma find_append:
  "List.find P (xs @ ys) = (case List.find P xs of Some x \<Rightarrow> Some x | None \<Rightarrow> List.find P ys)"
  by (induction xs) auto

lemma distinct_chain:
  "i < length xs \<Longrightarrow> distinct (map f (concat xs)) \<Longrightarrow> distinct (map f (xs ! i))"
proof (induction xs arbitrary: i)
  case (Cons x xs)
  then show ?case by (cases i) auto
qed simp

text \<open>A chain holds every entry of its table that can match a key of its slot.\<close>

context dict_keys
begin

lemma slot_cong: "key_eq ty a b \<Longrightarrow> slot ty ht a = slot ty ht b"
  using hash_cong by (simp add: slot_def)

lemma find_chain:
  assumes inv: "ht_inv ty ht" and pos: "size ht > 0"
    and dist: "distinct (map (key_class ty \<circ> fst) (ht_entries ht))" and d: "dtype d = ty"
  shows "find_entry d k (table ht ! slot ty ht k) = List.find (\<lambda>e. key_eq ty k (fst e)) (ht_entries ht)"
proof -
  let ?c = "table ht ! slot ty ht k"
  have lt: "slot ty ht k < length (table ht)" using slot_less[OF inv pos] ht_inv_length[OF inv] by simp
  have dc: "distinct (map (key_class ty \<circ> fst) ?c)"
    by (rule distinct_chain[OF lt]) (use dist in \<open>simp add: ht_entries_def\<close>)
  have mem: "e \<in> set ?c \<longleftrightarrow> e \<in> set (ht_entries ht)" if "key_eq ty k (fst e)" for e
    using set_ht_entries[OF inv, of e] pos slot_cong[OF that, of ht] by simp
  have "find_entry d k ?c = Some e \<longleftrightarrow> List.find (\<lambda>e. key_eq ty k (fst e)) (ht_entries ht) = Some e" for e
    unfolding find_entry_def dictCompareKeys_key_eq d find_distinct[OF dc] find_distinct[OF dist]
    using mem by blast
  then show ?thesis by (metis option.exhaust)
qed

lemma dict_inv_parts:
  assumes "dict_inv d" "dtype d = ty"
  shows "ht_inv ty (ht0 d)" "ht_inv ty (ht1 d)"
    "distinct (map (key_class ty \<circ> fst) (ht_entries (ht0 d)))"
    "distinct (map (key_class ty \<circ> fst) (ht_entries (ht1 d)))"
    "\<not> dictIsRehashing d \<Longrightarrow> ht_entries (ht1 d) = []"
    "dictIsRehashing d \<Longrightarrow> size (ht1 d) > 0"
  using assms by (auto simp: dict_inv_def dict_entries_def dictIsRehashing_def split: if_splits)

lemma dictFind_spec:
  assumes "dict_inv d" "dtype d = ty"
  shows "\<exists>d' r. dictFind g d k = Some (d', r) \<and> same_dict d d' \<and>
    r = List.find (\<lambda>e. key_eq ty k (fst e)) (dict_entries d')"
proof (cases "size (ht0 d) = 0")
  case True
  then have "ht0 d = dictReset" using dict_inv_parts(1)[OF assms] by (rule ht_inv_size0[rotated])
  moreover have "ht1 d = dictReset"
    using assms True by (auto simp: dict_inv_def split: if_splits)
  ultimately have "dict_entries d = []" by (simp add: dict_entries_def)
  with True assms show ?thesis by (simp add: dictFind_def)
next
  case False
  obtain d' where d': "rehash_if_needed g d = Some d'" "same_dict d d'" "\<not> dictIsRehashing d \<longrightarrow> d' = d"
    using rehash_if_needed_spec[OF assms(1)] by blast
  then have inv': "dict_inv d'" "dtype d' = ty" using assms(2) by (auto simp: same_dict_def)
  note p = dict_inv_parts[OF inv']
  have pos: "size (ht0 d') > 0" using d'(2) False by (simp add: same_dict_def)
  have b0: "bucket (ht0 d') (dictHashKey d' k AND sizemask (ht0 d')) = Some (table (ht0 d') ! slot ty (ht0 d') k)"
    using slot_bucket[OF p(1) pos] by (simp add: dictHashKey_slot inv'(2))
  note f0 = find_chain[OF p(1) pos p(3) inv'(2), of k]
  show ?thesis
  proof (cases "dictIsRehashing d'")
    case True
    have "bucket (ht1 d') (dictHashKey d' k AND sizemask (ht1 d')) = Some (table (ht1 d') ! slot ty (ht1 d') k)"
      using slot_bucket[OF p(2) p(6)[OF True]] by (simp add: dictHashKey_slot inv'(2))
    with b0 f0 find_chain[OF p(2) p(6)[OF True] p(4) inv'(2), of k] d' False True show ?thesis
      by (auto simp: dictFind_def dict_entries_def find_append split: option.splits)
  next
    case no: False
    with b0 f0 d' False p(5)[OF no] show ?thesis
      by (auto simp: dictFind_def dict_entries_def split: option.splits)
  qed
qed

lemma dictFetchValue_spec:
  assumes "dict_inv d" "dtype d = ty"
  shows "\<exists>d'. dictFetchValue g d k = Some (d', dict_map d k) \<and> same_dict d d'"
proof -
  obtain d' where d': "dictFind g d k = Some (d', List.find (\<lambda>e. key_eq ty k (fst e)) (dict_entries d'))"
    "same_dict d d'" using dictFind_spec[OF assms, of g k] by blast
  then have "dict_map d' = dict_map d" using assms by (intro dict_map_mset) (auto simp: same_dict_def)
  moreover have "dtype d' = ty" using d' assms by (simp add: same_dict_def)
  ultimately have "dict_map d k = map_option snd (List.find (\<lambda>e. key_eq ty k (fst e)) (dict_entries d'))"
    by (metis dict_map_def)
  with d' show ?thesis by (simp add: dictFetchValue_def)
qed

lemma s32_slot:
  assumes "ht_inv ty ht" "size ht > 0" "size ht \<le> 2 ^ 31"
  shows "s32 (int (slot ty ht k)) = int (slot ty ht k)"
proof -
  have "slot ty ht k < 2 ^ 31" using slot_less[OF assms(1,2), of k] assms(3) by linarith
  then show ?thesis by (intro s32_id) simp_all
qed

lemma dictKeyIndex_spec:
  assumes "dict_inv d" "dtype d = ty" "dictSize d \<le> 2 ^ 30" "dict_cap d \<le> 2 ^ 31"
  shows "\<exists>d'. dictKeyIndex g d k = Some (d',
      if List.find (\<lambda>e. key_eq ty k (fst e)) (dict_entries d) \<noteq> None then -1
      else int (slot ty (if dictIsRehashing d' then ht1 d' else ht0 d') k)) \<and>
    dict_inv d' \<and> dict_entries d' = dict_entries d \<and> dtype d' = ty \<and> iterators d' = iterators d \<and>
    dict_cap d' \<le> 2 ^ 31 \<and> size (ht0 d') > 0"
proof -
  obtain d' where d': "dictExpandIfNeeded g d = (d', True)" "dict_inv d'" "dict_entries d' = dict_entries d"
    "dtype d' = ty" "iterators d' = iterators d" "dict_cap d' \<le> 2 ^ 31" "size (ht0 d') > 0"
    using dictExpandIfNeeded_spec[OF assms(1,3,4), of g] assms(2) by auto
  note p = dict_inv_parts[OF d'(2,4)]
  have cap: "size (ht0 d') \<le> 2 ^ 31" "size (ht1 d') \<le> 2 ^ 31" using d'(6) by (simp_all add: dict_cap_def)
  have b0: "bucket (ht0 d') (dictHashKey d' k AND sizemask (ht0 d')) = Some (table (ht0 d') ! slot ty (ht0 d') k)"
    using slot_bucket[OF p(1) d'(7)] by (simp add: dictHashKey_slot d'(4))
  note f0 = find_chain[OF p(1) d'(7) p(3) d'(4), of k]
  show ?thesis
  proof (cases "dictIsRehashing d'")
    case True
    have "bucket (ht1 d') (dictHashKey d' k AND sizemask (ht1 d')) = Some (table (ht1 d') ! slot ty (ht1 d') k)"
      using slot_bucket[OF p(2) p(6)[OF True]] by (simp add: dictHashKey_slot d'(4))
    moreover have "List.find (\<lambda>e. key_eq ty k (fst e)) (dict_entries d') =
        (case find_entry d' k (table (ht0 d') ! slot ty (ht0 d') k) of Some x \<Rightarrow> Some x
         | None \<Rightarrow> find_entry d' k (table (ht1 d') ! slot ty (ht1 d') k))"
      unfolding dict_entries_def find_append f0
        find_chain[OF p(2) p(6)[OF True] p(4) d'(4), of k] by (simp split: option.split)
    ultimately show ?thesis
      using b0 d' True s32_slot[OF p(2) p(6)[OF True] cap(2), of k]
      by (intro exI[of _ d']) (auto simp: dictKeyIndex_def Let_def dictHashKey_slot split: option.splits)
  next
    case False
    then have "List.find (\<lambda>e. key_eq ty k (fst e)) (dict_entries d') =
        find_entry d' k (table (ht0 d') ! slot ty (ht0 d') k)"
      unfolding dict_entries_def f0 p(5)[OF False] by simp
    with b0 d' False s32_slot[OF p(1) d'(7) cap(1), of k] show ?thesis
      by (intro exI[of _ d']) (auto simp: dictKeyIndex_def Let_def dictHashKey_slot split: option.splits)
  qed
qed

lemma insert_at_spec:
  assumes "ht_inv ty ht" "size ht > 0"
  shows "ht_inv ty (insert_at ht (slot ty ht k) (k, v))"
    "mset (ht_entries (insert_at ht (slot ty ht k) (k, v))) = add_mset (k, v) (mset (ht_entries ht))"
    "size (insert_at ht i e) = size ht" "table (insert_at ht i e) = (table ht)[i := e # table ht ! i]"
proof -
  let ?i = "slot ty ht k"
  have i: "?i < size ht" by (rule slot_less[OF assms])
  show "ht_inv ty (insert_at ht ?i (k, v))"
    unfolding insert_at_def using ht_inv_pos[OF assms(1) i] i by (intro ht_inv_update assms(1)) auto
  show "mset (ht_entries (insert_at ht ?i (k, v))) = add_mset (k, v) (mset (ht_entries ht))"
    using mset_entries_update[of ?i ht "(k, v) # table ht ! ?i"] i ht_inv_length[OF assms(1)]
    by (simp add: insert_at_def)
qed (simp_all add: insert_at_def)

lemma dict_map_insert:
  assumes "dict_inv d" "dict_inv d'" "dtype d = ty" "dtype d' = ty" "dict_map d k = None"
    and "mset (dict_entries d') = add_mset (k, v) (mset (dict_entries d))"
  shows "dict_map d' = (\<lambda>x. if key_eq ty k x then Some v else dict_map d x)"
proof
  fix x
  have set: "set (dict_entries d') = insert (k, v) (set (dict_entries d))"
    using arg_cong[OF assms(6), of set_mset] by simp
  show "dict_map d' x = (if key_eq ty k x then Some v else dict_map d x)"
  proof (cases "key_eq ty k x")
    case True
    then have "dict_map d' x = Some v" using assms set eq_sym by (auto simp: dict_map_Some)
    with True show ?thesis by simp
  next
    case False
    then have "dict_map d' x = Some w \<longleftrightarrow> dict_map d x = Some w" for w
      using assms set eq_sym by (auto simp: dict_map_Some)
    with False show ?thesis by (metis option.exhaust)
  qed
qed

lemma dictAddRaw_spec:
  assumes "dict_inv d" "dtype d = ty" "dictSize d \<le> 2 ^ 30" "dict_cap d \<le> 2 ^ 31"
  shows "\<exists>d'. dictAddRaw g d k v = Some (d', dict_map d k = None) \<and> dict_inv d' \<and> dtype d' = ty \<and>
    iterators d' = iterators d \<and> dict_cap d' \<le> 2 ^ 31 \<and>
    dictSize d' = (if dict_map d k = None then dictSize d + 1 else dictSize d) \<and>
    dict_map d' = (if dict_map d k = None then (\<lambda>x. if key_eq ty k x then Some v else dict_map d x)
                   else dict_map d)"
proof -
  obtain d1 where d1: "rehash_if_needed g d = Some d1" "same_dict d d1"
    using rehash_if_needed_spec[OF assms(1)] by blast
  have inv1: "dict_inv d1" "dtype d1 = ty" "dict_cap d1 \<le> 2 ^ 31" "dictSize d1 = dictSize d"
    using d1(2) assms(2,4) same_dict_size[OF assms(1) d1(2)] by (simp_all add: same_dict_def)
  then have m1: "dict_map d1 = dict_map d"
    using assms d1(2) by (intro dict_map_mset) (auto simp: same_dict_def)
  obtain d2 where d2: "dictKeyIndex g d1 k = Some (d2,
      if List.find (\<lambda>e. key_eq ty k (fst e)) (dict_entries d1) \<noteq> None then -1
      else int (slot ty (if dictIsRehashing d2 then ht1 d2 else ht0 d2) k))"
    "dict_inv d2" "dict_entries d2 = dict_entries d1" "dtype d2 = ty" "iterators d2 = iterators d1"
    "dict_cap d2 \<le> 2 ^ 31" "size (ht0 d2) > 0"
    using dictKeyIndex_spec[OF inv1(1,2)] inv1(3,4) assms(3) by metis
  note p = dict_inv_parts[OF d2(2,4)]
  have m2: "dict_map d2 = dict_map d"
    using m1 d2(3,4) inv1(2) by (simp add: dict_map_def fun_eq_iff)
  have s2: "dictSize d2 = dictSize d" using dictSize_entries d2(2,3) inv1(1,4) by metis
  have none: "List.find (\<lambda>e. key_eq ty k (fst e)) (dict_entries d1) = None \<longleftrightarrow> dict_map d k = None"
    using m1 inv1(2) by (metis dict_map_def option.map_disc_iff)
  have it: "iterators d1 = iterators d" using d1(2) by (simp add: same_dict_def)
  show ?thesis
  proof (cases "dict_map d k = None")
    case False
    with none d1 d2 it m2 s2 show ?thesis by (intro exI[of _ d2]) (auto simp: dictAddRaw_def)
  next
    case True
    let ?reh = "dictIsRehashing d2"
    let ?ht = "if ?reh then ht1 d2 else ht0 d2"
    let ?i = "slot ty ?ht k"
    let ?d = "if ?reh then d2\<lparr>ht1 := insert_at (ht1 d2) ?i (k, v)\<rparr> else d2\<lparr>ht0 := insert_at (ht0 d2) ?i (k, v)\<rparr>"
    have ht: "ht_inv ty ?ht" "size ?ht > 0" using p d2(7) by auto
    note ins = insert_at_spec(1,2)[OF ht, of k v] insert_at_spec(3)[OF ht, of ?i "(k, v)"]
    have call: "dictAddRaw g d k v = Some (?d, True)"
      using d1(1) d2(1) True none slot_bucket[OF ht, of k] by (auto simp: dictAddRaw_def)
    have ms: "mset (dict_entries ?d) = add_mset (k, v) (mset (dict_entries d2))"
      using ins(2) by (auto simp: dict_entries_def)
    have "key_class ty k \<notin> (key_class ty \<circ> fst) ` set (dict_entries d2)"
      using True m2 dict_map_None[OF d2(4), of k] by (auto simp: key_eq_iff)
    moreover have "distinct (map (key_class ty \<circ> fst) (dict_entries d2))"
      using d2(2,4) by (simp add: dict_inv_def)
    ultimately have dist: "distinct (map (key_class ty \<circ> fst) (dict_entries ?d))"
      by (intro distinct_map_add[OF ms]) simp_all
    have inv: "dict_inv ?d"
    proof (cases ?reh)
      case True
      with d2(2,4) dist ins(1,3) show ?thesis
        by (simp add: dict_inv_def dictIsRehashing_def)
    next
      case False
      with d2(2,4) dist ins(1,3) show ?thesis
        by (simp add: dict_inv_def dictIsRehashing_def)
    qed
    have ty: "dtype ?d = ty" "iterators ?d = iterators d" "dict_cap ?d \<le> 2 ^ 31"
      using d2 it by (auto simp: dict_cap_def insert_at_def)
    have "dictSize ?d = dictSize d + 1"
      using s2 by (auto simp: dictSize_def insert_at_def)
    moreover have "dict_map ?d = (\<lambda>x. if key_eq ty k x then Some v else dict_map d x)"
      using dict_map_insert[OF d2(2) inv d2(4) ty(1) _ ms] True unfolding m2 by blast
    ultimately show ?thesis using call inv ty True by (intro exI[of _ ?d]) simp
  qed
qed

section \<open>Deletion\<close>

lemma unlink_spec:
  "dtype d = ty \<Longrightarrow>
   (case unlink d k chain of
      None \<Rightarrow> find_entry d k chain = None
    | Some c \<Rightarrow> \<exists>e. find_entry d k chain = Some e \<and> key_eq ty k (fst e) \<and>
        mset chain = add_mset e (mset c))"
  by (induction chain) (auto simp: find_entry_def dictCompareKeys_key_eq split: option.splits)

lemma ht_unlink:
  assumes "ht_inv ty ht" "size ht > 0" "dtype d = ty"
    and "unlink d k (table ht ! slot ty ht k) = Some c"
  shows "ht_inv ty (ht\<lparr>table := (table ht)[slot ty ht k := c], used := used ht - 1\<rparr>)"
    and "\<exists>e. key_eq ty k (fst e) \<and> mset (ht_entries ht) =
      add_mset e (mset (ht_entries (ht\<lparr>table := (table ht)[slot ty ht k := c], used := used ht - 1\<rparr>)))"
    and "used ht > 0"
proof -
  let ?i = "slot ty ht k"
  have i: "?i < size ht" by (rule slot_less[OF assms(1,2)])
  note p = ht_inv_pos[OF assms(1) i]
  obtain e where e: "key_eq ty k (fst e)" "mset (table ht ! ?i) = add_mset e (mset c)"
    using unlink_spec[OF assms(3), of k "table ht ! ?i"] assms(4) by auto
  then have len: "length (table ht ! ?i) = Suc (length c)"
    by (metis mset_eq_length length_Cons mset.simps(2))
  show pos: "used ht > 0" using chain_length_le[OF assms(1) i] len by simp
  have "set c \<subseteq> set (table ht ! ?i)"
    using arg_cong[OF e(2), of set_mset] by auto
  then show "ht_inv ty (ht\<lparr>table := (table ht)[?i := c], used := used ht - 1\<rparr>)"
    using p i len pos by (intro ht_inv_update[OF assms(1) i]) auto
  show "\<exists>e. key_eq ty k (fst e) \<and> mset (ht_entries ht) =
      add_mset e (mset (ht_entries (ht\<lparr>table := (table ht)[?i := c], used := used ht - 1\<rparr>)))"
    using mset_entries_update[of ?i ht c] i p e by (intro exI[of _ e]) simp
qed

lemma dict_map_remove:
  assumes "dict_inv d" "dict_inv d'" "dtype d = ty" "dtype d' = ty" "key_eq ty k (fst e)"
    and "mset (dict_entries d) = add_mset e (mset (dict_entries d'))"
  shows "dict_map d' = (\<lambda>x. if key_eq ty k x then None else dict_map d x)" "dict_map d k \<noteq> None"
proof -
  have set: "set (dict_entries d) = insert e (set (dict_entries d'))"
    using arg_cong[OF assms(6), of set_mset] by simp
  show "dict_map d k \<noteq> None" using assms set by (auto simp: dict_map_None)
  have "distinct (map (key_class ty \<circ> fst) (e # dict_entries d'))"
    using distinct_map_mset[of "dict_entries d" "e # dict_entries d'" "key_class ty \<circ> fst"] assms(1,3,6)
    unfolding dict_inv_def by simp
  then have out: "x \<in> set (dict_entries d') \<Longrightarrow> \<not> key_eq ty (fst e) (fst x)" for x
    by (auto simp: key_eq_iff)
  show "dict_map d' = (\<lambda>x. if key_eq ty k x then None else dict_map d x)"
  proof
    fix x
    show "dict_map d' x = (if key_eq ty k x then None else dict_map d x)"
    proof (cases "key_eq ty k x")
      case True
      then have "dict_map d' x = None"
        using out assms(4,5) by (auto simp: dict_map_None) (metis eq_sym eq_trans)
      with True show ?thesis by simp
    next
      case False
      then have "\<not> key_eq ty x (fst e)" using assms(5) eq_sym eq_trans by metis
      then have "dict_map d' x = Some w \<longleftrightarrow> dict_map d x = Some w" for w
        using assms set by (cases e) (auto simp: dict_map_Some)
      with False show ?thesis by (metis option.exhaust)
    qed
  qed
qed

lemma dict_inv_removed:
  assumes "dict_inv d" "dtype d = ty" "dtype d' = ty" "rehashidx d' = rehashidx d"
    and "ht_inv ty (ht0 d')" "ht_inv ty (ht1 d')" "size (ht0 d') = size (ht0 d)" "size (ht1 d') = size (ht1 d)"
    and "mset (dict_entries d) = add_mset e (mset (dict_entries d'))"
    and "\<forall>i < nat (rehashidx d). table (ht0 d') ! i = table (ht0 d) ! i"
    and "ht1 d = dictReset \<longrightarrow> ht1 d' = dictReset"
  shows "dict_inv d'"
proof -
  have "distinct (map (key_class ty \<circ> fst) (e # dict_entries d'))"
    using distinct_map_mset[of "dict_entries d" "e # dict_entries d'" "key_class ty \<circ> fst"] assms(1,2,9)
    unfolding dict_inv_def by simp
  with assms show ?thesis by (auto simp: dict_inv_def split: if_splits)
qed

lemma dictGenericDelete_spec:
  assumes "dict_inv d" "dtype d = ty"
  shows "\<exists>d'. dictGenericDelete g d k = Some (d', dict_map d k \<noteq> None) \<and> dict_inv d' \<and> dtype d' = ty \<and>
    iterators d' = iterators d \<and> dict_cap d' \<le> dict_cap d \<and>
    dictSize d' = (if dict_map d k = None then dictSize d else dictSize d - 1) \<and>
    dict_map d' = (\<lambda>x. if key_eq ty k x then None else dict_map d x)"
proof (cases "size (ht0 d) = 0")
  case True
  then have "ht0 d = dictReset" using dict_inv_parts(1)[OF assms] by (rule ht_inv_size0[rotated])
  moreover have "ht1 d = dictReset"
    using assms True by (auto simp: dict_inv_def split: if_splits)
  ultimately have "dict_map d x = None" for x by (simp add: dict_map_def dict_entries_def)
  with True assms show ?thesis by (intro exI[of _ d]) (simp add: dictGenericDelete_def fun_eq_iff)
next
  case False
  obtain e where e: "rehash_if_needed g d = Some e" "same_dict d e"
    using rehash_if_needed_spec[OF assms(1)] by blast
  then have inv: "dict_inv e" "dtype e = ty" and pos: "size (ht0 e) > 0"
    and it: "iterators e = iterators d" and cap: "dict_cap e \<le> dict_cap d"
    using False assms(2) by (simp_all add: same_dict_def)
  have m: "dict_map e = dict_map d"
    using assms e(2) by (intro dict_map_mset) (auto simp: same_dict_def)
  have sz: "dictSize e = dictSize d" using same_dict_size[OF assms(1) e(2)] by simp
  note p = dict_inv_parts[OF inv]
  let ?i0 = "slot ty (ht0 e) k" and ?i1 = "slot ty (ht1 e) k"
  have b0: "bucket (ht0 e) (dictHashKey e k AND sizemask (ht0 e)) = Some (table (ht0 e) ! ?i0)"
    using slot_bucket[OF p(1) pos] by (simp add: dictHashKey_slot inv(2))
  note f0 = find_chain[OF p(1) pos p(3) inv(2), of k]
  have call: "dict_inv e' \<Longrightarrow> dictGenericDelete g d k = Some (e', True) \<Longrightarrow> dtype e' = ty \<Longrightarrow>
      key_eq ty k (fst x) \<Longrightarrow> mset (dict_entries e) = add_mset x (mset (dict_entries e')) \<Longrightarrow>
      iterators e' = iterators e \<Longrightarrow> dict_cap e' = dict_cap e \<Longrightarrow> dictSize e = Suc (dictSize e') \<Longrightarrow> ?thesis" for e' x
    using dict_map_remove[OF inv(1) _ inv(2), of e' k x] m it cap sz by (intro exI[of _ e']) auto
  show ?thesis
  proof (cases "unlink e k (table (ht0 e) ! ?i0)")
    case (Some c)
    let ?h = "(ht0 e)\<lparr>table := (table (ht0 e))[?i0 := c], used := used (ht0 e) - 1\<rparr>"
    note h = ht_unlink[OF p(1) pos inv(2) Some]
    then obtain x where x: "key_eq ty k (fst x)"
      "mset (ht_entries (ht0 e)) = add_mset x (mset (ht_entries ?h))" by blast
    have ms: "mset (dict_entries e) = add_mset x (mset (dict_entries (e\<lparr>ht0 := ?h\<rparr>)))"
      using x(2) by (simp add: dict_entries_def)
    have "i < nat (rehashidx e) \<Longrightarrow> (table (ht0 e))[?i0 := c] ! i = table (ht0 e) ! i" for i
    proof (cases "i = ?i0 \<and> rehashidx e \<noteq> -1")
      case True
      assume "i < nat (rehashidx e)"
      with True have "table (ht0 e) ! ?i0 = []" using rehash_inv(7)[OF inv(1)] by blast
      with Some show ?thesis by simp
    qed (auto simp: nth_list_update)
    then have "dict_inv (e\<lparr>ht0 := ?h\<rparr>)"
      using inv p h(1) ms by (intro dict_inv_removed[OF inv, of _ x]) simp_all
    moreover have "dictGenericDelete g d k = Some (e\<lparr>ht0 := ?h\<rparr>, True)"
      using e(1) False b0 Some by (simp add: dictGenericDelete_def Let_def dictHashKey_slot inv(2))
    ultimately show ?thesis
      by (rule call[of "e\<lparr>ht0 := ?h\<rparr>" x])
        (use ms x(1) inv(2) h(3) in \<open>simp_all add: dict_cap_def dictSize_def\<close>)
  next
    case None
    then have n0: "List.find (\<lambda>e. key_eq ty k (fst e)) (ht_entries (ht0 e)) = None"
      using unlink_spec[OF inv(2), of k "table (ht0 e) ! ?i0"] f0 by simp
    have miss: "dictGenericDelete g d k = Some (e, False) \<Longrightarrow> dict_map e k = None \<Longrightarrow> ?thesis"
    proof -
      assume call: "dictGenericDelete g d k = Some (e, False)" and "dict_map e k = None"
      then have none: "dict_map d k = None" by (simp add: m)
      have "dict_map e = (\<lambda>x. if key_eq ty k x then None else dict_map d x)"
        using dict_map_cong[OF assms(2), of k] none by (auto simp: m)
      with call none inv it cap sz show ?thesis by (intro exI[of _ e] conjI) simp_all
    qed
    show ?thesis
    proof (cases "dictIsRehashing e")
      case no: False
      have "dictGenericDelete g d k = Some (e, False)"
        using e(1) False b0 None no by (simp add: dictGenericDelete_def Let_def dictHashKey_slot inv(2))
      moreover have "dict_map e k = None"
        using n0 p(5)[OF no] inv(2) by (simp add: dict_map_def dict_entries_def)
      ultimately show ?thesis by (rule miss)
    next
      case reh: True
      note pos1 = p(6)[OF reh]
      have b1: "bucket (ht1 e) (dictHashKey e k AND sizemask (ht1 e)) = Some (table (ht1 e) ! ?i1)"
        using slot_bucket[OF p(2) pos1] by (simp add: dictHashKey_slot inv(2))
      note f1 = find_chain[OF p(2) pos1 p(4) inv(2), of k]
      show ?thesis
      proof (cases "unlink e k (table (ht1 e) ! ?i1)")
        case None1: None
        have "dictGenericDelete g d k = Some (e, False)"
          using e(1) False b0 b1 None None1 reh
          by (simp add: dictGenericDelete_def Let_def dictHashKey_slot inv(2))
        moreover have "dict_map e k = None"
          using n0 unlink_spec[OF inv(2), of k "table (ht1 e) ! ?i1"] None1 f1 inv(2)
          by (simp add: dict_map_def dict_entries_def find_append)
        ultimately show ?thesis by (rule miss)
      next
        case (Some c)
        let ?h = "(ht1 e)\<lparr>table := (table (ht1 e))[?i1 := c], used := used (ht1 e) - 1\<rparr>"
        note h = ht_unlink[OF p(2) pos1 inv(2) Some]
        then obtain x where x: "key_eq ty k (fst x)"
          "mset (ht_entries (ht1 e)) = add_mset x (mset (ht_entries ?h))" by blast
        have ms: "mset (dict_entries e) = add_mset x (mset (dict_entries (e\<lparr>ht1 := ?h\<rparr>)))"
          using x(2) by (simp add: dict_entries_def)
        have "dict_inv (e\<lparr>ht1 := ?h\<rparr>)"
          using inv p h(1) ms pos1 by (intro dict_inv_removed[OF inv, of _ x]) auto
        moreover have "dictGenericDelete g d k = Some (e\<lparr>ht1 := ?h\<rparr>, True)"
          using e(1) False b0 b1 None Some reh
          by (simp add: dictGenericDelete_def Let_def dictHashKey_slot inv(2))
        ultimately show ?thesis
          by (rule call[of "e\<lparr>ht1 := ?h\<rparr>" x])
            (use ms x(1) inv(2) h(3) in \<open>simp_all add: dict_cap_def dictSize_def\<close>)
      qed
    qed
  qed
qed

section \<open>Overwriting a value\<close>

lemma map_fst_set_in_chain [simp]: "map fst (set_in_chain d k v chain) = map fst chain"
  by (induction chain) auto

lemma length_set_in_chain [simp]: "length (set_in_chain d k v chain) = length chain"
  by (induction chain) auto

lemma mset_set_in_chain:
  "find_entry d k chain = Some e \<Longrightarrow>
   mset (set_in_chain d k v chain) + {#e#} = mset chain + {#(fst e, v)#}"
  by (induction chain) (auto simp: find_entry_def split: if_splits)

lemma ht_set:
  assumes "ht_inv ty ht" "size ht > 0" "dtype d = ty" "find_entry d k (table ht ! slot ty ht k) = Some e"
  shows "ht_inv ty (ht\<lparr>table := (table ht)[slot ty ht k := set_in_chain d k v (table ht ! slot ty ht k)]\<rparr>)"
    and "mset (ht_entries (ht\<lparr>table := (table ht)[slot ty ht k := set_in_chain d k v (table ht ! slot ty ht k)]\<rparr>)) + {#e#} =
      mset (ht_entries ht) + {#(fst e, v)#}"
proof -
  let ?i = "slot ty ht k" let ?c = "table ht ! ?i" let ?s = "set_in_chain d k v ?c"
  have i: "?i < size ht" by (rule slot_less[OF assms(1,2)])
  note p = ht_inv_pos[OF assms(1) i]
  have "fst ` set ?s = fst ` set ?c" by (metis map_fst_set_in_chain set_map)
  moreover have "x \<in> fst ` set ?c \<Longrightarrow> slot ty ht x = ?i" for x using p i by auto
  ultimately have "\<forall>e \<in> set ?s. slot ty ht (fst e) = ?i" by (metis imageI)
  then have "ht_inv ty (ht\<lparr>table := (table ht)[?i := ?s], used := used ht\<rparr>)"
    by (rule ht_inv_update[OF assms(1) i]) simp
  moreover have "ht\<lparr>table := t, used := used ht\<rparr> = ht\<lparr>table := t\<rparr>" for t by simp
  ultimately show "ht_inv ty (ht\<lparr>table := (table ht)[?i := ?s]\<rparr>)" by (simp only:)
  show "mset (ht_entries (ht\<lparr>table := (table ht)[?i := ?s]\<rparr>)) + {#e#} = mset (ht_entries ht) + {#(fst e, v)#}"
  proof -
    have a: "mset (ht_entries (ht\<lparr>table := (table ht)[?i := ?s]\<rparr>)) + mset ?c = mset (ht_entries ht) + mset ?s"
      using mset_entries_update[of ?i ht ?s] i p by simp
    have b: "mset ?s + {#e#} = mset ?c + {#(fst e, v)#}" by (rule mset_set_in_chain[OF assms(4)])
    have "(mset (ht_entries (ht\<lparr>table := (table ht)[?i := ?s]\<rparr>)) + {#e#}) + mset ?c =
        mset (ht_entries ht) + (mset ?s + {#e#})"
      using a by (simp add: add.assoc[symmetric])
    also have "\<dots> = (mset (ht_entries ht) + {#(fst e, v)#}) + mset ?c"
      unfolding b by (simp add: ac_simps)
    finally have "(mset (ht_entries (ht\<lparr>table := (table ht)[?i := ?s]\<rparr>)) + {#e#}) + mset ?c =
        (mset (ht_entries ht) + {#(fst e, v)#}) + mset ?c" .
    then show ?thesis by simp
  qed
qed

lemma dict_map_set:
  assumes "dict_inv d" "dict_inv d'" "dtype d = ty" "dtype d' = ty" "key_eq ty k (fst e)"
    and "mset (dict_entries d') + {#e#} = mset (dict_entries d) + {#(fst e, v)#}" "e \<in> set (dict_entries d)"
  shows "dict_map d' = (\<lambda>x. if key_eq ty k x then Some v else dict_map d x)"
proof -
  obtain a b where ab: "dict_entries d = a @ e # b" using assms(7) by (metis split_list)
  with assms(6) have ms: "mset (dict_entries d') = add_mset (fst e, v) (mset (a @ b))" by simp
  have sets: "set (dict_entries d) = insert e (set (a @ b))"
    "set (dict_entries d') = insert (fst e, v) (set (a @ b))"
    using ab arg_cong[OF ms, of set_mset] by auto
  have "distinct (map (key_class ty \<circ> fst) (dict_entries d))" using assms(1,3) by (simp add: dict_inv_def)
  then have out: "x \<in> set (a @ b) \<Longrightarrow> \<not> key_eq ty (fst e) (fst x)" for x
    unfolding ab by (auto simp: key_eq_iff)
  show ?thesis
  proof
    fix x
    show "dict_map d' x = (if key_eq ty k x then Some v else dict_map d x)"
    proof (cases "key_eq ty k x")
      case True
      then have "key_eq ty x (fst e)" using assms(5) eq_sym eq_trans by metis
      then have "dict_map d' x = Some v" using assms(2,4) sets by (auto simp: dict_map_Some)
      with True show ?thesis by simp
    next
      case False
      then have "\<not> key_eq ty x (fst e)" using assms(5) eq_sym eq_trans by metis
      then have "dict_map d' x = Some w \<longleftrightarrow> dict_map d x = Some w" for w
        using assms sets by (cases e) (auto simp: dict_map_Some)
      with False show ?thesis by (metis option.exhaust)
    qed
  qed
qed

lemma set_found_spec:
  assumes "dict_inv d" "dtype d = ty" "dict_map d k \<noteq> None"
  shows "dict_inv (set_found d k v)" "dtype (set_found d k v) = ty"
    "iterators (set_found d k v) = iterators d" "dict_cap (set_found d k v) = dict_cap d"
    "dictSize (set_found d k v) = dictSize d"
    "dict_map (set_found d k v) = (\<lambda>x. if key_eq ty k x then Some v else dict_map d x)"
proof -
  note p = dict_inv_parts[OF assms(1,2)]
  let ?d = "set_found d k v"
  let ?P = "\<lambda>e. key_eq ty k (fst e)"
  have pos: "size (ht0 d) > 0"
  proof (rule ccontr)
    assume "\<not> size (ht0 d) > 0"
    then have "ht0 d = dictReset" "ht1 d = dictReset"
      using ht_inv_size0[OF p(1)] assms(1) by (auto simp: dict_inv_def split: if_splits)
    with assms(3) show False by (simp add: dict_map_def dict_entries_def)
  qed
  note f0 = find_chain[OF p(1) pos p(3) assms(2), of k]
  have "\<exists>e. key_eq ty k (fst e) \<and> e \<in> set (dict_entries d) \<and>
      mset (dict_entries ?d) + {#e#} = mset (dict_entries d) + {#(fst e, v)#} \<and>
      ht_inv ty (ht0 ?d) \<and> ht_inv ty (ht1 ?d)"
  proof (cases "find_entry d k (table (ht0 d) ! slot ty (ht0 d) k)")
    case (Some e)
    have "e \<in> set (ht_entries (ht0 d)) \<and> key_eq ty k (fst e)"
      using Some f0 find_distinct[OF p(3)] by simp
    with Some ht_set[OF p(1) pos assms(2) Some, of v] p(2) show ?thesis
      by (intro exI[of _ e]) (simp add: set_found_def Let_def dictHashKey_slot assms(2) dict_entries_def)
  next
    case None
    then obtain e where e: "List.find ?P (ht_entries (ht1 d)) = Some e"
      using assms(2,3) f0 by (auto simp: dict_map_def dict_entries_def find_append)
    then have reh: "dictIsRehashing d" using p(5) by (cases "dictIsRehashing d") auto
    note pos1 = p(6)[OF reh]
    have e': "find_entry d k (table (ht1 d) ! slot ty (ht1 d) k) = Some e"
      using find_chain[OF p(2) pos1 p(4) assms(2), of k] e by simp
    have "e \<in> set (ht_entries (ht1 d)) \<and> key_eq ty k (fst e)"
      using e find_distinct[OF p(4)] by simp
    with None ht_set[OF p(2) pos1 assms(2) e', of v] p(1) show ?thesis
      by (intro exI[of _ e]) (simp add: set_found_def Let_def dictHashKey_slot assms(2) dict_entries_def)
  qed
  then obtain e where e: "key_eq ty k (fst e)" "e \<in> set (dict_entries d)"
    "mset (dict_entries ?d) + {#e#} = mset (dict_entries d) + {#(fst e, v)#}"
    "ht_inv ty (ht0 ?d)" "ht_inv ty (ht1 ?d)" by blast
  show ty: "dtype ?d = ty" and it: "iterators ?d = iterators d" and "dict_cap ?d = dict_cap d"
    and "dictSize ?d = dictSize d"
    using assms(2) by (simp_all add: set_found_def Let_def dict_cap_def dictSize_def)
  have reh: "rehashidx ?d = rehashidx d" "size (ht0 ?d) = size (ht0 d)" "size (ht1 ?d) = size (ht1 d)"
    by (simp_all add: set_found_def Let_def)
  have fsts: "mset (map fst (dict_entries ?d)) = mset (map fst (dict_entries d))"
    using arg_cong[OF e(3), of "image_mset fst"] by simp
  have dist: "distinct (map (key_class ty \<circ> fst) (dict_entries ?d))"
    using distinct_map_mset[OF fsts, of "key_class ty"] assms(1,2) by (simp add: dict_inv_def)
  have keep: "i < nat (rehashidx d) \<Longrightarrow> rehashidx d \<noteq> -1 \<Longrightarrow> table (ht0 ?d) ! i = table (ht0 d) ! i" for i
    using rehash_inv(7)[OF assms(1)]
    by (cases "i = slot ty (ht0 d) k")
      (auto simp: set_found_def Let_def dictHashKey_slot assms(2) find_entry_def)
  show inv: "dict_inv ?d"
  proof (cases "rehashidx d = -1")
    case True
    then have "ht1 d = dictReset" using assms(1) by (simp add: dict_inv_def)
    moreover have "size (ht1 ?d) = 0" using reh calculation by simp
    ultimately have "ht1 ?d = dictReset" using ht_inv_size0[OF e(5)] by simp
    with True e dist ty reh show ?thesis by (simp add: dict_inv_def)
  next
    case False
    with e dist ty reh keep rehash_inv[OF assms(1) False] show ?thesis by (simp add: dict_inv_def)
  qed
  show "dict_map ?d = (\<lambda>x. if key_eq ty k x then Some v else dict_map d x)"
    by (rule dict_map_set[OF assms(1) inv assms(2) ty e(1) e(3) e(2)])
qed

text \<open>\<open>dictReplace\<close> and \<open>dictReplaceRaw\<close> store the value whatever was there.\<close>

lemma dictReplace_spec:
  assumes "dict_inv d" "dtype d = ty" "dictSize d \<le> 2 ^ 30" "dict_cap d \<le> 2 ^ 31"
  shows "\<exists>d'. dictReplace g d k v = Some (d', dict_map d k = None) \<and> dict_inv d' \<and> dtype d' = ty \<and>
    iterators d' = iterators d \<and> dict_cap d' \<le> 2 ^ 31 \<and>
    dictSize d' = (if dict_map d k = None then dictSize d + 1 else dictSize d) \<and>
    dict_map d' = (\<lambda>x. if key_eq ty k x then Some v else dict_map d x)"
proof -
  obtain d1 where d1: "dictAddRaw g d k v = Some (d1, dict_map d k = None)" "dict_inv d1" "dtype d1 = ty"
    "iterators d1 = iterators d" "dict_cap d1 \<le> 2 ^ 31"
    "dictSize d1 = (if dict_map d k = None then dictSize d + 1 else dictSize d)"
    "dict_map d1 = (if dict_map d k = None then (\<lambda>x. if key_eq ty k x then Some v else dict_map d x)
                    else dict_map d)"
    using dictAddRaw_spec[OF assms, of g k v] by blast
  show ?thesis
  proof (cases "dict_map d k = None")
    case True
    with d1 show ?thesis by (intro exI[of _ d1]) (simp add: dictReplace_def dictAdd_def)
  next
    case False
    obtain d2 where d2: "dictFind g d1 k = Some (d2, List.find (\<lambda>e. key_eq ty k (fst e)) (dict_entries d2))"
      "same_dict d1 d2" using dictFind_spec[OF d1(2,3), of g k] by blast
    then have inv2: "dict_inv d2" "dtype d2 = ty" "iterators d2 = iterators d1" "dict_cap d2 \<le> dict_cap d1"
      using d1(3) by (simp_all add: same_dict_def)
    have m2: "dict_map d2 = dict_map d"
      using d1 d2(2) False dict_map_mset[OF d1(2) inv2(1) d1(3) inv2(2)] by (simp add: same_dict_def)
    have m2': "(\<lambda>x. if key_eq ty k x then Some v else dict_map d2 x) =
        (\<lambda>x. if key_eq ty k x then Some v else dict_map d x)" by (simp only: m2)
    have s2: "dictSize d2 = dictSize d1" by (rule same_dict_size[OF d1(2) d2(2)])
    have some: "dict_map d2 k \<noteq> None" using m2 False by simp
    then obtain e where "List.find (\<lambda>e. key_eq ty k (fst e)) (dict_entries d2) = Some e"
      by (auto simp: dict_map_def inv2(2))
    then have "dictReplace g d k v = Some (set_found d2 k v, False)"
      using d1(1) d2(1) False by (simp add: dictReplace_def dictAdd_def)
    with set_found_spec[OF inv2(1,2) some, of v] m2 m2' s2 inv2 d1 False show ?thesis
      by (intro exI[of _ "set_found d2 k v"]) simp
  qed
qed

lemma dictReplaceRaw_spec:
  assumes "dict_inv d" "dtype d = ty" "dictSize d \<le> 2 ^ 30" "dict_cap d \<le> 2 ^ 31"
  shows "\<exists>d'. dictReplaceRaw g d k v = Some d' \<and> dict_inv d' \<and> dtype d' = ty \<and>
    iterators d' = iterators d \<and> dict_cap d' \<le> 2 ^ 31 \<and>
    dictSize d' = (if dict_map d k = None then dictSize d + 1 else dictSize d) \<and>
    dict_map d' = (\<lambda>x. if key_eq ty k x then Some v else dict_map d x)"
proof -
  obtain d2 where d2: "dictFind g d k = Some (d2, List.find (\<lambda>e. key_eq ty k (fst e)) (dict_entries d2))"
    "same_dict d d2" using dictFind_spec[OF assms(1,2), of g k] by blast
  then have inv2: "dict_inv d2" "dtype d2 = ty" "iterators d2 = iterators d" "dict_cap d2 \<le> dict_cap d"
    using assms(2) by (simp_all add: same_dict_def)
  have m2: "dict_map d2 = dict_map d"
    using d2(2) dict_map_mset[OF assms(1) inv2(1) assms(2) inv2(2)] by (simp add: same_dict_def)
  have m2': "(\<lambda>x. if key_eq ty k x then Some v else dict_map d2 x) =
      (\<lambda>x. if key_eq ty k x then Some v else dict_map d x)" by (simp only: m2)
  have s2: "dictSize d2 = dictSize d" by (rule same_dict_size[OF assms(1) d2(2)])
  show ?thesis
  proof (cases "dict_map d k = None")
    case True
    then have none: "List.find (\<lambda>e. key_eq ty k (fst e)) (dict_entries d2) = None"
      using m2 by (metis dict_map_def inv2(2) option.map_disc_iff)
    obtain d3 where "dictAddRaw g d2 k v = Some (d3, True)" "dict_inv d3" "dtype d3 = ty"
      "iterators d3 = iterators d2" "dict_cap d3 \<le> 2 ^ 31" "dictSize d3 = dictSize d + 1"
      "dict_map d3 = (\<lambda>x. if key_eq ty k x then Some v else dict_map d x)"
      using dictAddRaw_spec[OF inv2(1,2), of g k v] assms(3,4) s2 inv2(4) m2 m2' True by auto
    with none d2(1) True inv2(3) show ?thesis
      by (intro exI[of _ d3]) (simp add: dictReplaceRaw_def)
  next
    case False
    then have some: "dict_map d2 k \<noteq> None" using m2 by simp
    then obtain e where "List.find (\<lambda>e. key_eq ty k (fst e)) (dict_entries d2) = Some e"
      by (auto simp: dict_map_def inv2(2))
    then have "dictReplaceRaw g d k v = Some (set_found d2 k v)"
      using d2(1) by (simp add: dictReplaceRaw_def)
    with set_found_spec[OF inv2(1,2) some, of v] m2 m2' s2 inv2 False assms(4) show ?thesis
      by (intro exI[of _ "set_found d2 k v"]) simp
  qed
qed

end

end
