(* ===== verification/DictScan.thy ===== *)
theory DictScan
  imports DictInv
begin

text \<open>
  \<open>dictScan\<close> of \<open>src/redis-3.0/src/dict.c\<close>, the stateless cursor iteration behind \<open>SCAN\<close>: the
  cursor is incremented in reversed bit order, so that an iteration survives resizes and
  rehashing between its calls. The lemmas read a cursor through its reversal as a position
  in \<open>[0, 2^64)\<close>; one call emits every key whose reversed hash lies between the position it
  starts from and the one it returns.
\<close>

unbundle bit_operations_syntax

section \<open>The code\<close>

function rev_loop :: "nat \<Rightarrow> 64 word \<Rightarrow> 64 word \<Rightarrow> 64 word" where
  \<comment> \<open>\<open>while ((s >>= 1) > 0)\<close>\<close>
  "rev_loop s msk v =
     (let s = s div 2 in
      if s > 0 then
        (let msk = msk XOR push_bit s msk;
             v = (drop_bit s v AND msk) OR (push_bit s v AND NOT msk)
         in rev_loop s msk v)
      else v)"
  by pat_completeness auto
termination
  by (relation "measure (\<lambda>(s, _). s)") auto

declare rev_loop.simps [simp del]

definition rev_bits :: "64 word \<Rightarrow> 64 word" where
  "rev_bits v = rev_loop 64 (NOT 0) v"

fun scan_expand :: "('k, 'v) dictht \<Rightarrow> 64 word \<Rightarrow> 64 word \<Rightarrow> 64 word \<Rightarrow> nat \<Rightarrow>
    (('k \<times> 'v) list \<times> 64 word) option" where
  \<comment> \<open>the \<open>do ... while (v & (m0 ^ m1))\<close> over the expansions of the cursor in the larger
     table; the last argument bounds the number of turns\<close>
  "scan_expand t1 m0 m1 v 0 = None"
| "scan_expand t1 m0 m1 v (Suc fuel) =
     do {
       de \<leftarrow> bucket t1 (unat (v AND m1));
       let v = (((v OR m0) + 1) AND NOT m0) OR (v AND m0);
       if v AND (m0 XOR m1) \<noteq> 0 then
         do {
           (es, v') \<leftarrow> scan_expand t1 m0 m1 v fuel;
           Some (de @ es, v')
         }
       else Some (de, v)
     }"

definition scan_next :: "64 word \<Rightarrow> 64 word \<Rightarrow> 64 word" where
  \<comment> \<open>set the unmasked bits, then increment the reversed cursor\<close>
  "scan_next m0 v =
     (let v = v OR NOT m0; v = rev_bits v; v = v + 1; v = rev_bits v in v)"

definition dictScan :: "('k, 'v) dict \<Rightarrow> 64 word \<Rightarrow> (('k \<times> 'v) list \<times> 64 word) option" where
  \<comment> \<open>the entries passed to the callback, in order, and the next cursor\<close>
  "dictScan d v =
     (if dictSize d = 0 then Some ([], 0)
      else if \<not> dictIsRehashing d then
        (let m0 = of_nat (sizemask (ht0 d)) in
         do {
           de \<leftarrow> bucket (ht0 d) (unat (v AND m0));
           Some (de, scan_next m0 v)
         })
      else
        (let (t0, t1) = (if size (ht0 d) > size (ht1 d) then (ht1 d, ht0 d) else (ht0 d, ht1 d));
             m0 = of_nat (sizemask t0); m1 = of_nat (sizemask t1) in
         do {
           de \<leftarrow> bucket t0 (unat (v AND m0));
           (es, v) \<leftarrow> scan_expand t1 m0 m1 v (size t1);
           Some (de @ es, scan_next m0 v)
         }))"

section \<open>Reversal\<close>

definition swap_step :: "nat \<Rightarrow> 64 word \<Rightarrow> 64 word \<Rightarrow> 64 word" where
  "swap_step s msk v = (drop_bit s v AND msk) OR (push_bit s v AND NOT msk)"

lemma rev_masks:
  "(-1 :: 64 word) XOR push_bit 32 (-1) = 0x00000000FFFFFFFF"
  "(0x00000000FFFFFFFF :: 64 word) XOR push_bit 16 0x00000000FFFFFFFF = 0x0000FFFF0000FFFF"
  "(0x0000FFFF0000FFFF :: 64 word) XOR push_bit 8 0x0000FFFF0000FFFF = 0x00FF00FF00FF00FF"
  "(0x00FF00FF00FF00FF :: 64 word) XOR push_bit 4 0x00FF00FF00FF00FF = 0x0F0F0F0F0F0F0F0F"
  "(0x0F0F0F0F0F0F0F0F :: 64 word) XOR push_bit 2 0x0F0F0F0F0F0F0F0F = 0x3333333333333333"
  "(0x3333333333333333 :: 64 word) XOR push_bit 1 0x3333333333333333 = 0x5555555555555555"
  by code_simp+

lemma rev_loop_step: "rev_loop (2 * s) m v = (if 0 < s then rev_loop s (m XOR push_bit s m) (swap_step s (m XOR push_bit s m) v) else v)"
  by (subst rev_loop.simps) (simp add: swap_step_def Let_def)

lemma rev_loop_steps:
  "rev_loop 64 m v = rev_loop 32 (m XOR push_bit 32 m) (swap_step 32 (m XOR push_bit 32 m) v)"
  "rev_loop 32 m v = rev_loop 16 (m XOR push_bit 16 m) (swap_step 16 (m XOR push_bit 16 m) v)"
  "rev_loop 16 m v = rev_loop 8 (m XOR push_bit 8 m) (swap_step 8 (m XOR push_bit 8 m) v)"
  "rev_loop 8 m v = rev_loop 4 (m XOR push_bit 4 m) (swap_step 4 (m XOR push_bit 4 m) v)"
  "rev_loop 4 m v = rev_loop 2 (m XOR push_bit 2 m) (swap_step 2 (m XOR push_bit 2 m) v)"
  "rev_loop 2 m v = rev_loop 1 (m XOR push_bit 1 m) (swap_step 1 (m XOR push_bit 1 m) v)"
  "rev_loop 1 m v = v"
  using rev_loop_step[of 32 m v] rev_loop_step[of 16 m v] rev_loop_step[of 8 m v] rev_loop_step[of 4 m v]
    rev_loop_step[of 2 m v] rev_loop_step[of 1 m v] by (simp_all add: rev_loop.simps[of "Suc 0"])

lemma rev_bits_unroll:
  "rev_bits v =
     swap_step 1 0x5555555555555555 (swap_step 2 0x3333333333333333 (swap_step 4 0x0F0F0F0F0F0F0F0F
      (swap_step 8 0x00FF00FF00FF00FF (swap_step 16 0x0000FFFF0000FFFF (swap_step 32 0x00000000FFFFFFFF v)))))"
  unfolding rev_bits_def bit.compl_zero rev_loop_steps rev_masks ..

text \<open>Each step exchanges neighbouring blocks of \<open>s\<close> bits.\<close>

definition flip :: "nat \<Rightarrow> nat \<Rightarrow> nat" where
  "flip s i = (if even (i div s) then i + s else i - s)"

lemma bit_swap_step:
  "\<forall>i \<in> set [0..<64]. bit m i = even (i div s) \<and> flip s i < 64 \<and> (odd (i div s) \<longrightarrow> s \<le> i) \<Longrightarrow> i < 64 \<Longrightarrow>
   bit (swap_step s m v) i = bit v (flip s i) \<and> flip s i < 64"
  using bit_imp_le_length[of v "i + s"] by (auto simp: swap_step_def bit_simps flip_def ac_simps)

lemma swap_step_blocks:
  "i < 64 \<Longrightarrow> bit (swap_step 1 0x5555555555555555 v) i = bit v (flip 1 i) \<and> flip 1 i < 64"
  "i < 64 \<Longrightarrow> bit (swap_step 2 0x3333333333333333 v) i = bit v (flip 2 i) \<and> flip 2 i < 64"
  "i < 64 \<Longrightarrow> bit (swap_step 4 0x0F0F0F0F0F0F0F0F v) i = bit v (flip 4 i) \<and> flip 4 i < 64"
  "i < 64 \<Longrightarrow> bit (swap_step 8 0x00FF00FF00FF00FF v) i = bit v (flip 8 i) \<and> flip 8 i < 64"
  "i < 64 \<Longrightarrow> bit (swap_step 16 0x0000FFFF0000FFFF v) i = bit v (flip 16 i) \<and> flip 16 i < 64"
  "i < 64 \<Longrightarrow> bit (swap_step 32 0x00000000FFFFFFFF v) i = bit v (flip 32 i) \<and> flip 32 i < 64"
  by (rule bit_swap_step, code_simp, assumption)+

lemma flip_list:
  "map (flip 32) (map (flip 16) (map (flip 8) (map (flip 4) (map (flip 2) (map (flip 1) [0..<64]))))) = rev [0..<64]"
  by code_simp

lemma flips: "i < 64 \<Longrightarrow> flip 32 (flip 16 (flip 8 (flip 4 (flip 2 (flip 1 i))))) = 63 - i"
  using arg_cong[OF flip_list, of "\<lambda>xs. xs ! i"] by (simp add: rev_nth)

lemma rev_bits_bit: "bit (rev_bits v) i \<longleftrightarrow> i < 64 \<and> bit v (63 - i)"
proof (cases "i < 64")
  case True
  then show ?thesis unfolding rev_bits_unroll by (simp only: swap_step_blocks flips simp_thms)
next
  case False
  then show ?thesis using bit_imp_le_length[of "rev_bits v" i] by auto
qed

section \<open>Cursors as positions\<close>

definition scan_pos :: "64 word \<Rightarrow> nat" where
  "scan_pos v = unat (rev_bits v)"

lemma rev_bits_rev_bits [simp]: "rev_bits (rev_bits v) = v"
  by (rule bit_word_eqI) (auto simp: rev_bits_bit)

lemma scan_pos_less: "scan_pos v < 2 ^ 64"
  using unsigned_less[of "rev_bits v"] by (simp add: scan_pos_def)

lemma rev_bits_0 [simp]: "rev_bits 0 = 0"
  by (rule bit_word_eqI) (simp add: rev_bits_bit)

lemma scan_pos_0 [simp]: "scan_pos 0 = 0"
  by (simp add: scan_pos_def)

lemma scan_pos_eq_0: "scan_pos v = 0 \<longleftrightarrow> v = 0"
  by (metis rev_bits_0 rev_bits_rev_bits scan_pos_def unat_eq_0)

lemma rev_bits_take:
  assumes "n \<le> 64"
  shows "take_bit n v = take_bit n h \<longleftrightarrow> drop_bit (64 - n) (rev_bits v) = drop_bit (64 - n) (rev_bits h)"
    (is "?l \<longleftrightarrow> ?r")
proof
  assume l: ?l
  show ?r
  proof (rule bit_word_eqI)
    fix i assume "i < LENGTH(64)"
    then have "64 - n + i < 64 \<Longrightarrow> 63 - (64 - n + i) < n" using assms by simp
    then show "bit (drop_bit (64 - n) (rev_bits v)) i = bit (drop_bit (64 - n) (rev_bits h)) i"
      using arg_cong[OF l, of "\<lambda>w. bit w (63 - (64 - n + i))"]
      by (auto simp: bit_drop_bit_eq rev_bits_bit bit_take_bit_iff)
  qed
next
  assume r: ?r
  show ?l
  proof (rule bit_word_eqI)
    fix i assume "i < LENGTH(64)"
    then show "bit (take_bit n v) i = bit (take_bit n h) i"
      using arg_cong[OF r, of "\<lambda>w. bit w (n - 1 - i)"] assms
      by (cases "i < n") (auto simp: bit_drop_bit_eq rev_bits_bit bit_take_bit_iff)
  qed
qed

lemma scan_pos_bucket:
  assumes "n \<le> 64"
  shows "take_bit n v = take_bit n h \<longleftrightarrow> scan_pos v div 2 ^ (64 - n) = scan_pos h div 2 ^ (64 - n)"
proof -
  have "drop_bit (64 - n) x = drop_bit (64 - n) y \<longleftrightarrow> unat x div 2 ^ (64 - n) = unat y div 2 ^ (64 - n)"
    for x y :: "64 word"
    unfolding word_unat_eq_iff unat_drop_bit_eq by (simp only: drop_bit_eq_div)
  then show ?thesis unfolding rev_bits_take[OF assms] by (simp add: scan_pos_def)
qed

lemma not_mask_plus: "(x AND NOT (mask k)) + take_bit k x = (x :: 64 word)"
  by (subst disjunctive_add) (auto simp: bit_simps intro: bit_word_eqI)

lemma or_mask_Suc: "(x OR mask k) + 1 = (x AND NOT (mask k)) + (2 :: 64 word) ^ k"
proof -
  have "x OR mask k = (x AND NOT (mask k)) + mask k"
    by (subst disjunctive_add) (auto simp: bit_simps intro: bit_word_eqI)
  then show ?thesis by (simp add: mask_eq_exp_minus_1)
qed

lemma unat_take_bit: "unat (take_bit k (x :: 64 word)) = unat x mod 2 ^ k"
  unfolding unsigned_take_bit_eq by (simp only: take_bit_eq_mod)

lemma unat_and_not_mask: "unat (x AND NOT (mask k) :: 64 word) = unat x div 2 ^ k * 2 ^ k"
proof -
  have "x AND NOT (mask k) = x - take_bit k x"
    using not_mask_plus[of x k] by (simp add: eq_diff_eq)
  moreover have "take_bit k x \<le> x" by (simp add: word_le_nat_alt unat_take_bit)
  ultimately have "unat (x AND NOT (mask k)) = unat x - unat x mod 2 ^ k"
    by (simp add: unat_sub_if' word_le_nat_alt unat_take_bit)
  then show ?thesis by (simp add: minus_mod_eq_div_mult)
qed

lemma unat_or_mask_Suc:
  "unat ((x OR mask k) + 1 :: 64 word) = (unat x div 2 ^ k + 1) * 2 ^ k mod 2 ^ 64"
proof -
  have "unat ((2 :: 64 word) ^ k) = 2 ^ k mod 2 ^ 64" using unat_of_nat[where 'a = 64, of "2 ^ k"] by simp
  then show ?thesis
    by (simp add: or_mask_Suc unat_word_ariths unat_and_not_mask mod_simps) (simp only: add.commute)
qed

lemma rev_bits_or_not_mask: "n \<le> 64 \<Longrightarrow> rev_bits (v OR NOT (mask n)) = rev_bits v OR mask (64 - n)"
  by (rule bit_word_eqI) (auto simp: rev_bits_bit bit_simps)

lemma scan_next_pos:
  "n \<le> 64 \<Longrightarrow>
   scan_pos (scan_next (mask n) v) = (scan_pos v div 2 ^ (64 - n) + 1) * 2 ^ (64 - n) mod 2 ^ 64"
  by (simp add: scan_next_def Let_def scan_pos_def rev_bits_or_not_mask unat_or_mask_Suc)

text \<open>The cursor that a table of size \<open>2^n\<close> returns has only the low \<open>n\<close> bits.\<close>

lemma scan_next_less:
  assumes "n \<le> 64"
  shows "take_bit n (scan_next (mask n) v) = scan_next (mask n) v"
proof (rule bit_word_eqI)
  fix i assume i: "i < LENGTH(64)"
  let ?r = "(rev_bits v OR mask (64 - n)) + 1"
  have "bit ?r (63 - i) \<Longrightarrow> \<not> 63 - i < 64 - n"
  proof
    assume "bit ?r (63 - i)" "63 - i < 64 - n"
    then have "bit (take_bit (64 - n) ?r) (63 - i)" by (simp add: bit_take_bit_iff)
    moreover have "unat (take_bit (64 - n) ?r) = 0"
    proof -
      have "x * 2 ^ (64 - n) mod 2 ^ 64 mod 2 ^ (64 - n) = (0 :: nat)" for x
        by (subst mod_mod_cancel) (simp_all add: le_imp_power_dvd del: power_numeral)
      then show ?thesis unfolding unat_take_bit unat_or_mask_Suc .
    qed
    ultimately show False by (simp only: unat_eq_0 bit_0_eq bot_apply) simp
  qed
  then show "bit (take_bit n (scan_next (mask n) v)) i = bit (scan_next (mask n) v) i"
    using i assms
    by (auto simp: scan_next_def Let_def bit_take_bit_iff rev_bits_bit rev_bits_or_not_mask)
qed

section \<open>The expansions of a cursor\<close>

lemma expand_step: "((((v OR mask n) + 1) AND NOT (mask n)) OR (v AND mask n)) = v + (2 :: 64 word) ^ n"
proof -
  let ?w = "(v OR mask n) + 1"
  have w: "?w = (v AND NOT (mask n)) + 2 ^ n" by (rule or_mask_Suc)
  have "unat (take_bit n ?w) = 0"
  proof (cases "n \<le> 64")
    case True
    then show ?thesis unfolding unat_take_bit unat_or_mask_Suc
      by (subst mod_mod_cancel) (simp_all add: le_imp_power_dvd del: power_numeral)
  next
    case False
    then have "mask n = (- 1 :: 64 word)" by (simp add: mask_eq_exp_minus_1)
    then show ?thesis by simp
  qed
  then have "?w AND NOT (mask n) = ?w" using not_mask_plus[of ?w n] by (simp add: unat_eq_0)
  moreover have "((?w AND NOT (mask n)) OR (v AND mask n)) = (?w AND NOT (mask n)) + (v AND mask n)"
    by (subst disjunctive_add) (auto simp: bit_simps)
  ultimately show ?thesis
    unfolding w using not_mask_plus[of v n] by (simp add: take_bit_eq_mask)
qed

text \<open>The two parts of the bucket index of the larger table: the bits of the smaller one, and
  the number of the expansion.\<close>

definition expansion :: "nat \<Rightarrow> nat \<Rightarrow> 64 word \<Rightarrow> nat" where
  "expansion n m v = unat v mod 2 ^ m div 2 ^ n"

lemma mod_split:
  "n \<le> m \<Longrightarrow> u mod 2 ^ m = u mod 2 ^ n + 2 ^ n * (u mod 2 ^ m div 2 ^ n)" for u :: nat
proof -
  assume "n \<le> m"
  then have "u mod 2 ^ m mod 2 ^ n = u mod 2 ^ n" by (simp add: mod_mod_cancel le_imp_power_dvd)
  then show ?thesis using mod_mult_div_eq[of "u mod 2 ^ m" "2 ^ n"] by simp
qed

lemma expansion_less: "n \<le> m \<Longrightarrow> expansion n m v < 2 ^ (m - n)"
  by (simp add: expansion_def less_mult_imp_div_less flip: power_add)

lemma expansion_index: "n \<le> m \<Longrightarrow> unat (v AND mask m) = unat v mod 2 ^ n + 2 ^ n * expansion n m v"
  using mod_split[of n m "unat v"]
  by (simp add: expansion_def unat_take_bit flip: take_bit_eq_mask)

lemma expansion_step:
  assumes "n \<le> m" "m < 64"
  shows "unat (v + 2 ^ n) mod 2 ^ n = unat v mod 2 ^ n"
    and "expansion n m (v + 2 ^ n) = (if expansion n m v + 1 = 2 ^ (m - n) then 0 else expansion n m v + 1)"
proof -
  let ?u = "unat v" and ?low = "unat v mod 2 ^ n" and ?i = "expansion n m v"
  have p: "unat ((2 :: 64 word) ^ n) = 2 ^ n mod 2 ^ 64" using unat_of_nat[where 'a = 64, of "2 ^ n"] by simp
  then have u: "unat (v + 2 ^ n) = (?u + 2 ^ n) mod 2 ^ 64" by (simp add: unat_word_ariths mod_simps)
  have cut: "x mod 2 ^ 64 mod 2 ^ k = x mod 2 ^ k" if "k \<le> 64" for x k :: nat
    using that by (subst mod_mod_cancel) (simp_all add: le_imp_power_dvd del: power_numeral)
  show "unat (v + 2 ^ n) mod 2 ^ n = ?low" using assms unfolding u by (subst cut) auto
  have m: "(2 :: nat) ^ m = 2 ^ n * 2 ^ (m - n)" using assms(1) by (simp flip: power_add)
  have "unat (v + 2 ^ n) mod 2 ^ m = (?u mod 2 ^ m + 2 ^ n) mod 2 ^ m"
    unfolding u using assms by (subst cut) (simp_all add: mod_simps)
  also have "?u mod 2 ^ m = ?low + 2 ^ n * ?i" using mod_split[OF assms(1)] by (simp add: expansion_def)
  finally have e: "unat (v + 2 ^ n) mod 2 ^ m = (?low + 2 ^ n * (?i + 1)) mod 2 ^ m"
    by (simp add: algebra_simps)
  show "expansion n m (v + 2 ^ n) = (if ?i + 1 = 2 ^ (m - n) then 0 else ?i + 1)"
  proof (cases "?i + 1 = 2 ^ (m - n)")
    case True
    have "unat (v + 2 ^ n) mod 2 ^ m = ?low mod 2 ^ m" by (simp only: e True) (simp add: m)
    also have "\<dots> div 2 ^ n = 0" by (metis div_less mod_less_divisor mod_less_eq_dividend order.strict_trans1 zero_less_numeral zero_less_power)
    finally show ?thesis using True by (simp add: expansion_def)
  next
    case False
    with expansion_less[OF assms(1), of v] have "?i + 2 \<le> 2 ^ (m - n)" by simp
    then have "2 ^ n * (?i + 2) \<le> 2 ^ m" unfolding m by (rule mult_left_mono) simp
    moreover have "2 ^ n * (?i + 2) = 2 ^ n * (?i + 1) + 2 ^ n" by (simp add: algebra_simps)
    moreover have "?low < 2 ^ n" by simp
    ultimately have "?low + 2 ^ n * (?i + 1) < 2 ^ m" by linarith
    then have "unat (v + 2 ^ n) mod 2 ^ m = ?low + 2 ^ n * (?i + 1)" unfolding e by simp
    then show ?thesis using False by (simp add: expansion_def del: mult_Suc_right)
  qed
qed

lemma expansion_more: "n \<le> m \<Longrightarrow> v AND (mask n XOR mask m) \<noteq> 0 \<longleftrightarrow> expansion n m v \<noteq> 0"
proof -
  assume "n \<le> m"
  then have "v AND (mask n XOR mask m) = take_bit m v AND NOT (mask n)"
    by (intro bit_word_eqI) (auto simp: bit_simps)
  then have "unat (v AND (mask n XOR mask m)) = expansion n m v * 2 ^ n"
    by (simp only: unat_and_not_mask unat_take_bit expansion_def)
  then show ?thesis by (metis mult_eq_0_iff power_not_zero unat_eq_0 zero_neq_numeral)
qed

lemma scan_expand_spec:
  assumes "n \<le> m" "m < 64" "length (table t1) = 2 ^ m" "2 ^ (m - n) - expansion n m v \<le> fuel"
  shows "\<exists>v'. scan_expand t1 (mask n) (mask m) v fuel =
      Some (concat (map (\<lambda>i. table t1 ! (unat v mod 2 ^ n + 2 ^ n * i)) [expansion n m v ..< 2 ^ (m - n)]), v') \<and>
    unat v' mod 2 ^ n = unat v mod 2 ^ n"
  using assms(4)
proof (induction fuel arbitrary: v)
  case 0
  then show ?case using expansion_less[OF assms(1), of v] by simp
next
  case (Suc fuel)
  let ?i = "expansion n m v"
  note i = expansion_less[OF assms(1), of v] and st = expansion_step[OF assms(1,2), of v]
  have "unat (v AND mask m) < 2 ^ m" by (simp add: unat_take_bit flip: take_bit_eq_mask)
  then have b: "bucket t1 (unat (v AND mask m)) = Some (table t1 ! (unat v mod 2 ^ n + 2 ^ n * ?i))"
    using assms(3) by (simp add: bucket_def expansion_index[OF assms(1)])
  note more = expansion_more[OF assms(1), of "v + 2 ^ n"]
  show ?case
  proof (cases "?i + 1 = 2 ^ (m - n)")
    case True
    then have "\<not> (v + 2 ^ n AND (mask n XOR mask m) \<noteq> 0)" unfolding more st by simp
    moreover have "[?i ..< 2 ^ (m - n)] = [?i]" using True by (simp flip: True)
    ultimately show ?thesis using b st(1) by (simp add: expand_step)
  next
    case False
    then have "v + 2 ^ n AND (mask n XOR mask m) \<noteq> 0" "2 ^ (m - n) - expansion n m (v + 2 ^ n) \<le> fuel"
      using Suc.prems unfolding more st by simp_all
    moreover have "[?i ..< 2 ^ (m - n)] = ?i # [expansion n m (v + 2 ^ n) ..< 2 ^ (m - n)]"
      using False i st(2) by (simp add: upt_conv_Cons)
    ultimately show ?thesis using Suc.IH[of "v + 2 ^ n"] b st(1) by (auto simp: expand_step)
  qed
qed

section \<open>One call\<close>

definition small_size :: "('k, 'v) dict \<Rightarrow> nat" where
  \<comment> \<open>the size of the table the cursor runs over\<close>
  "small_size d = (if dictIsRehashing d then min (size (ht0 d)) (size (ht1 d)) else size (ht0 d))"

definition khash :: "('k, 'v) dictType \<Rightarrow> 'k \<Rightarrow> 64 word" where
  "khash ty k = of_nat (unat (hashFunction ty k))"

lemma unat_khash: "unat (khash ty k) = unat (hashFunction ty k)"
proof -
  have "unat (hashFunction ty k) < 2 ^ 32" using unsigned_less[of "hashFunction ty k"] by simp
  then show ?thesis unfolding khash_def unat_of_nat by simp
qed

lemma slot_khash: "sizemask ht = 2 ^ n - 1 \<Longrightarrow> slot ty ht k = unat (khash ty k) mod 2 ^ n"
  by (simp add: slot_def unat_khash and_mask take_bit_eq_mod)

lemma of_nat_mask: "of_nat (2 ^ n - Suc 0) = (mask n :: 64 word)"
  by (simp add: mask_eq_exp_minus_1 of_nat_diff)

lemma unat_and_mask: "unat (v AND mask n :: 64 word) = unat v mod 2 ^ n"
  by (simp add: unat_take_bit flip: take_bit_eq_mask)

text \<open>The chains that one call visits in a table of size \<open>2^n\<close>, and in the larger of two.\<close>

lemma small_table_emits:
  assumes "ht_inv ty ht" "size ht = 2 ^ n"
  shows "\<exists>c. bucket ht (unat ((v :: 64 word) AND mask n)) = Some c \<and> set c \<subseteq> set (ht_entries ht) \<and>
    (\<forall>e \<in> set (ht_entries ht). unat (khash ty (fst e)) mod 2 ^ n = unat v mod 2 ^ n \<longrightarrow> e \<in> set c)"
proof -
  let ?i = "unat v mod 2 ^ n"
  have i: "?i < size ht" by (simp add: assms(2))
  note p = ht_inv_pos[OF assms(1) i]
  have "bucket ht (unat (v AND mask n)) = Some (table ht ! ?i)"
    using p i by (simp add: bucket_def unat_and_mask)
  moreover have "set (table ht ! ?i) \<subseteq> set (ht_entries ht)"
    using p i by (metis UN_upper ht_entries_def nth_mem set_concat)
  moreover have "sizemask ht = 2 ^ n - 1" using p assms(2) by simp
  ultimately show ?thesis using set_ht_entries[OF assms(1)] slot_khash[of ht n ty] by auto
qed

lemma large_table_emits:
  assumes "ht_inv ty ht" "size ht = 2 ^ m" "n \<le> m" "m < 64" "unat v mod 2 ^ n = low"
  shows "\<exists>es v'. scan_expand ht (mask n) (mask m) v (size ht) = Some (es, v') \<and> unat v' mod 2 ^ n = low \<and>
    set es \<subseteq> set (ht_entries ht) \<and>
    (unat v < 2 ^ n \<longrightarrow> (\<forall>e \<in> set (ht_entries ht). unat (khash ty (fst e)) mod 2 ^ n = low \<longrightarrow> e \<in> set es))"
proof -
  let ?i = "expansion n m v"
  let ?es = "concat (map (\<lambda>i. table ht ! (low + 2 ^ n * i)) [?i ..< 2 ^ (m - n)])"
  have pos: "0 < size ht" by (simp add: assms(2))
  note p = ht_inv_pos[OF assms(1) pos]
  have m: "(2 :: nat) ^ m = 2 ^ n * 2 ^ (m - n)" using assms(3) by (simp flip: power_add)
  have "2 ^ (m - n) - ?i \<le> size ht" unfolding assms(2) m by (simp add: trans_le_add1 le_diff_conv)
  then obtain v' where v': "scan_expand ht (mask n) (mask m) v (size ht) = Some (?es, v')"
    "unat v' mod 2 ^ n = low"
    using scan_expand_spec[OF assms(3,4), of ht v "size ht"] p assms(2,5) by auto
  have "low + 2 ^ n * i < length (table ht)" if "i < 2 ^ (m - n)" for i
  proof -
    have "2 ^ n * (i + 1) \<le> 2 ^ m" unfolding m using that by (intro mult_left_mono) auto
    moreover have "low < 2 ^ n" using assms(5) by (metis mod_less_divisor zero_less_numeral zero_less_power)
    moreover have "2 ^ n * (i + 1) = 2 ^ n * i + 2 ^ n" by simp
    ultimately show ?thesis using p assms(2) by linarith
  qed
  then have "set ?es \<subseteq> set (ht_entries ht)" by (auto simp: ht_entries_def) (metis nth_mem)
  moreover have "e \<in> set ?es" if v: "unat v < 2 ^ n" and e: "e \<in> set (ht_entries ht)"
    and h: "unat (khash ty (fst e)) mod 2 ^ n = low" for e
  proof -
    let ?k = "khash ty (fst e)"
    have "unat v mod 2 ^ m = unat v" using v m
      by (metis mod_less le_imp_power_dvd assms(3) nat_dvd_not_less not_less_iff_gr_or_eq order_less_le_trans power_increasing_iff one_less_numeral_iff semiring_norm(76) zero_less_numeral zero_less_power)
    then have "?i = 0" using v by (simp add: expansion_def)
    moreover have "slot ty ht (fst e) = low + 2 ^ n * expansion n m ?k"
      using slot_khash[of ht m ty "fst e"] p assms(2) mod_split[OF assms(3), of "unat ?k"] h
      by (simp add: expansion_def)
    ultimately show ?thesis
      using set_ht_entries[OF assms(1), of e] e expansion_less[OF assms(3), of ?k] by auto
  qed
  ultimately show ?thesis using v' by blast
qed

lemma pow2_small: "(2 :: nat) ^ n \<le> 2 ^ 31 \<Longrightarrow> n \<le> 31"
  by (metis numeral_le_one_iff one_less_numeral_iff power_increasing_iff semiring_norm(69) semiring_norm(76))

lemma scan_next_cong:
  assumes "n \<le> 64" "unat v' mod 2 ^ n = unat v mod 2 ^ n"
  shows "scan_next (mask n) v' = scan_next (mask n) v"
proof -
  have "take_bit n v' = take_bit n v" using assms(2) by (simp only: word_unat_eq_iff unat_take_bit)
  then have "v' OR NOT (mask n) = v OR NOT (mask n)"
    by (intro bit_word_eqI) (auto simp: bit_simps dest: arg_cong[of _ _ "\<lambda>w. bit w _"])
  then show ?thesis by (simp add: scan_next_def)
qed

definition call_emits :: "('k, 'v) dict \<Rightarrow> nat \<Rightarrow> 64 word \<Rightarrow> ('k \<times> 'v) list \<Rightarrow> bool" where
  "call_emits d n v es \<longleftrightarrow> set es \<subseteq> set (dict_entries d) \<and>
     ((dictIsRehashing d \<longrightarrow> unat v < 2 ^ n) \<longrightarrow>
      (\<forall>e \<in> set (dict_entries d). unat (khash (dtype d) (fst e)) mod 2 ^ n = unat v mod 2 ^ n \<longrightarrow> e \<in> set es))"

lemma dictScan_two:
  assumes "ht_inv ty t0" "size t0 = 2 ^ n" "ht_inv ty t1" "size t1 = 2 ^ m" "n \<le> m" "m \<le> 31"
  shows "\<exists>c es v'. bucket t0 (unat (v AND mask n)) = Some c \<and>
    scan_expand t1 (mask n) (mask m) v (size t1) = Some (es, v') \<and> scan_next (mask n) v' = scan_next (mask n) v \<and>
    set (c @ es) \<subseteq> set (ht_entries t0) \<union> set (ht_entries t1) \<and>
    (unat v < 2 ^ n \<longrightarrow> (\<forall>e \<in> set (ht_entries t0) \<union> set (ht_entries t1).
       unat (khash ty (fst e)) mod 2 ^ n = unat v mod 2 ^ n \<longrightarrow> e \<in> set (c @ es)))"
proof -
  obtain c where c: "bucket t0 (unat (v AND mask n)) = Some c" "set c \<subseteq> set (ht_entries t0)"
    "\<forall>e \<in> set (ht_entries t0). unat (khash ty (fst e)) mod 2 ^ n = unat v mod 2 ^ n \<longrightarrow> e \<in> set c"
    using small_table_emits[OF assms(1,2), of v] by blast
  obtain es v' where es: "scan_expand t1 (mask n) (mask m) v (size t1) = Some (es, v')"
    "unat v' mod 2 ^ n = unat v mod 2 ^ n" "set es \<subseteq> set (ht_entries t1)"
    "unat v < 2 ^ n \<longrightarrow> (\<forall>e \<in> set (ht_entries t1).
       unat (khash ty (fst e)) mod 2 ^ n = unat v mod 2 ^ n \<longrightarrow> e \<in> set es)"
    using large_table_emits[OF assms(3,4,5) _ refl, of v] assms(6) by fastforce
  have "scan_next (mask n) v' = scan_next (mask n) v"
    using assms(5,6) es(2) by (intro scan_next_cong) auto
  then show ?thesis
    by (intro exI[of _ c] exI[of _ es] exI[of _ v'] conjI c(1) es(1)) (use c es in auto)
qed

lemma dictScan_call:
  assumes inv: "dict_inv d" and cap: "dict_cap d \<le> 2 ^ 31" and ne: "dictSize d > 0"
  shows "\<exists>n es. n \<le> 31 \<and> small_size d = 2 ^ n \<and> dictScan d v = Some (es, scan_next (mask n) v) \<and>
    call_emits d n v es"
proof -
  have hts: "ht_inv (dtype d) (ht0 d)" "ht_inv (dtype d) (ht1 d)" using inv by (auto simp: dict_inv_def)
  have masks: "\<exists>n \<le> 31. size ht = 2 ^ n \<and> of_nat (sizemask ht) = (mask n :: 64 word)"
    if t: "ht_inv (dtype d) ht" "size ht > 0" "size ht \<le> 2 ^ 31" for ht :: "('a, 'b) dictht"
  proof -
    obtain n where n: "size ht = 2 ^ n" "sizemask ht = 2 ^ n - Suc 0" using ht_inv_pos[OF t(1,2)] by auto
    then have "n \<le> 31" using t(3) pow2_small by metis
    with n show ?thesis by (simp add: of_nat_mask)
  qed
  have caps: "size (ht0 d) \<le> 2 ^ 31" "size (ht1 d) \<le> 2 ^ 31" using cap by (auto simp: dict_cap_def)
  show ?thesis
  proof (cases "dictIsRehashing d")
    case False
    then have t1: "ht1 d = dictReset" using inv by (simp add: dict_inv_def dictIsRehashing_def)
    then have "size (ht0 d) > 0" using ne ht_inv_size0[OF hts(1)] by (cases "size (ht0 d)") (auto simp: dictSize_def)
    then obtain n where n: "n \<le> 31" "size (ht0 d) = 2 ^ n" "of_nat (sizemask (ht0 d)) = (mask n :: 64 word)"
      using masks[OF hts(1) _ caps(1)] by blast
    obtain c where c: "bucket (ht0 d) (unat (v AND mask n)) = Some c" "set c \<subseteq> set (ht_entries (ht0 d))"
      "\<forall>e \<in> set (ht_entries (ht0 d)). unat (khash (dtype d) (fst e)) mod 2 ^ n = unat v mod 2 ^ n \<longrightarrow> e \<in> set c"
      using small_table_emits[OF hts(1) n(2), of v] by blast
    have "dictScan d v = Some (c, scan_next (mask n) v)"
      using False ne n(3) c(1) by (simp add: dictScan_def Let_def)
    with c(2,3) n t1 False show ?thesis
      by (intro exI[of _ n] exI[of _ c]) (simp add: small_size_def call_emits_def dict_entries_def)
  next
    case True
    then have pos: "size (ht0 d) > 0" "size (ht1 d) > 0" using rehash_inv[OF inv] by (auto simp: dictIsRehashing_def)
    obtain a where a: "a \<le> 31" "size (ht0 d) = 2 ^ a" "of_nat (sizemask (ht0 d)) = (mask a :: 64 word)"
      using masks[OF hts(1) pos(1) caps(1)] by blast
    obtain b where b: "b \<le> 31" "size (ht1 d) = 2 ^ b" "of_nat (sizemask (ht1 d)) = (mask b :: 64 word)"
      using masks[OF hts(2) pos(2) caps(2)] by blast
    show ?thesis
    proof (cases "b < a")
      case ba: True
      obtain c es v' where r: "bucket (ht1 d) (unat (v AND mask b)) = Some c"
        "scan_expand (ht0 d) (mask b) (mask a) v (size (ht0 d)) = Some (es, v')"
        "scan_next (mask b) v' = scan_next (mask b) v"
        "set (c @ es) \<subseteq> set (ht_entries (ht1 d)) \<union> set (ht_entries (ht0 d))"
        "unat v < 2 ^ b \<longrightarrow> (\<forall>e \<in> set (ht_entries (ht1 d)) \<union> set (ht_entries (ht0 d)).
           unat (khash (dtype d) (fst e)) mod 2 ^ b = unat v mod 2 ^ b \<longrightarrow> e \<in> set (c @ es))"
        using dictScan_two[OF hts(2) b(2) hts(1) a(2) _ a(1), of v] ba by auto
      have "dictScan d v = Some (c @ es, scan_next (mask b) v)"
        using True ne ba a b r(1-3) by (simp add: dictScan_def Let_def)
      with r(4,5) b ba a True show ?thesis
        by (intro exI[of _ b] exI[of _ "c @ es"]) (auto simp: small_size_def call_emits_def dict_entries_def)
    next
      case False
      then have ab: "a \<le> b" by simp
      obtain c es v' where r: "bucket (ht0 d) (unat (v AND mask a)) = Some c"
        "scan_expand (ht1 d) (mask a) (mask b) v (size (ht1 d)) = Some (es, v')"
        "scan_next (mask a) v' = scan_next (mask a) v"
        "set (c @ es) \<subseteq> set (ht_entries (ht0 d)) \<union> set (ht_entries (ht1 d))"
        "unat v < 2 ^ a \<longrightarrow> (\<forall>e \<in> set (ht_entries (ht0 d)) \<union> set (ht_entries (ht1 d)).
           unat (khash (dtype d) (fst e)) mod 2 ^ a = unat v mod 2 ^ a \<longrightarrow> e \<in> set (c @ es))"
        using dictScan_two[OF hts(1) a(2) hts(2) b(2) ab b(1), of v] by auto
      have "dictScan d v = Some (c @ es, scan_next (mask a) v)"
        using True ne ab a b r(1-3) by (simp add: dictScan_def Let_def)
      with r(4,5) b ab a True show ?thesis
        by (intro exI[of _ a] exI[of _ "c @ es"]) (auto simp: small_size_def call_emits_def dict_entries_def)
    qed
  qed
qed

section \<open>Iterations\<close>

text \<open>The calls of one iteration, each on the dictionary as it is at that moment.\<close>

fun scan_calls :: "('k, 'v) dict list \<Rightarrow> 64 word \<Rightarrow> (('k \<times> 'v) list \<times> 64 word) option" where
  "scan_calls [] v = Some ([], v)"
| "scan_calls (d # ds) v =
     do {
       (es, v) \<leftarrow> dictScan d v;
       (es', v) \<leftarrow> scan_calls ds v;
       Some (es @ es', v)
     }"

fun scan_fits :: "('k, 'v) dict list \<Rightarrow> 64 word \<Rightarrow> bool" where
  \<comment> \<open>no call finds a rehashing table smaller than the cursor it is given\<close>
  "scan_fits [] v = True"
| "scan_fits (d # ds) v =
     ((dictIsRehashing d \<longrightarrow> unat v < small_size d) \<and>
      (case dictScan d v of None \<Rightarrow> True | Some (es, v') \<Rightarrow> scan_fits ds v'))"

lemma scan_pos_split:
  assumes "n \<le> 64"
  shows "scan_pos (scan_next (mask n) v) = 0 \<and> scan_pos v div 2 ^ (64 - n) = 2 ^ n - 1 \<or>
    scan_pos (scan_next (mask n) v) = (scan_pos v div 2 ^ (64 - n) + 1) * 2 ^ (64 - n)"
proof -
  let ?W = "2 ^ (64 - n) :: nat" and ?q = "scan_pos v div 2 ^ (64 - n)"
  have W: "2 ^ n * ?W = 2 ^ 64" using assms by (simp flip: power_add)
  have "?q < 2 ^ n" using scan_pos_less[of v] W by (simp add: less_mult_imp_div_less)
  then consider "?q + 1 = 2 ^ n" | "?q + 1 < 2 ^ n" by linarith
  then show ?thesis
  proof cases
    case 1
    then have "(?q + 1) * ?W = 2 ^ 64" using W by simp
    then show ?thesis using scan_next_pos[OF assms, of v] 1 by simp
  next
    case 2
    then have "(?q + 1) * ?W < 2 ^ 64" using W by (metis mult_less_mono1 zero_less_numeral zero_less_power)
    then show ?thesis using scan_next_pos[OF assms, of v] by simp
  qed
qed

text \<open>An entry at or after the position of the cursor is emitted now, or is still ahead.\<close>

lemma call_covers:
  assumes "dict_inv d" "dict_cap d \<le> 2 ^ 31" "dictIsRehashing d \<longrightarrow> unat v < small_size d"
    and e: "e \<in> set (dict_entries d)" and pos: "scan_pos v \<le> scan_pos (khash (dtype d) (fst e))"
  shows "\<exists>es v'. dictScan d v = Some (es, v') \<and> set es \<subseteq> set (dict_entries d) \<and>
    (e \<in> set es \<or> v' \<noteq> 0 \<and> scan_pos v' \<le> scan_pos (khash (dtype d) (fst e)))"
proof -
  let ?h = "khash (dtype d) (fst e)"
  have "dictSize d > 0" using e dictSize_entries[OF assms(1)] by (cases "dict_entries d") auto
  then obtain n es where n: "n \<le> 31" "small_size d = 2 ^ n" "dictScan d v = Some (es, scan_next (mask n) v)"
    "call_emits d n v es" using dictScan_call[OF assms(1,2)] by blast
  then have n64: "n \<le> 64" by simp
  let ?q = "\<lambda>x. scan_pos x div 2 ^ (64 - n)"
  have le: "?q v \<le> ?q ?h" using pos by (rule div_le_mono)
  have "e \<in> set es" if "?q v = ?q ?h"
  proof -
    have "take_bit n v = take_bit n ?h" using scan_pos_bucket[OF n64] that by blast
    then have "unat v mod 2 ^ n = unat ?h mod 2 ^ n" by (metis unat_take_bit)
    with n(2,4) e assms(3) show ?thesis by (simp add: call_emits_def)
  qed
  moreover have "scan_next (mask n) v \<noteq> 0 \<and> scan_pos (scan_next (mask n) v) \<le> scan_pos ?h" if "?q v < ?q ?h"
  proof -
    have "?q ?h < 2 ^ n"
      using scan_pos_less[of ?h] n64 by (simp add: less_mult_imp_div_less flip: power_add)
    then have nz: "scan_pos (scan_next (mask n) v) = (?q v + 1) * 2 ^ (64 - n)"
      using scan_pos_split[OF n64, of v] that by auto
    moreover have "(?q v + 1) * 2 ^ (64 - n) \<le> ?q ?h * 2 ^ (64 - n)" using that by (intro mult_le_mono1) simp
    moreover have "?q ?h * 2 ^ (64 - n) \<le> scan_pos ?h" by simp
    ultimately have "scan_pos (scan_next (mask n) v) \<le> scan_pos ?h" by linarith
    moreover have "scan_pos (scan_next (mask n) v) \<noteq> 0" unfolding nz by simp
    ultimately show ?thesis unfolding scan_pos_eq_0 by simp
  qed
  moreover have "set es \<subseteq> set (dict_entries d)" using n(4) by (simp add: call_emits_def)
  ultimately show ?thesis unfolding n(3) using le
    by (intro exI[of _ es] exI[of _ "scan_next (mask n) v"]) (auto simp only: le_less)
qed

context dict_keys
begin

lemma scan_calls_cover:
  assumes "scan_calls ds v = Some (es, 0)" "scan_fits ds v" "ds \<noteq> [] \<or> v \<noteq> 0"
    and "\<forall>d \<in> set ds. dict_inv d \<and> dtype d = ty \<and> dict_cap d \<le> 2 ^ 31 \<and> dict_map d k \<noteq> None"
    and "scan_pos v \<le> scan_pos (khash ty k)"
  shows "\<exists>e \<in> set es. key_eq ty k (fst e)"
  using assms
proof (induction ds arbitrary: v es)
  case (Cons d ds)
  have d: "dict_inv d" "dtype d = ty" "dict_cap d \<le> 2 ^ 31" "dict_map d k \<noteq> None" using Cons.prems by auto
  then obtain a x where a: "(a, x) \<in> set (dict_entries d)" "key_eq ty k a" by (auto simp: dict_map_Some)
  have h: "khash ty a = khash ty k" using hash_cong[OF a(2)] by (simp add: khash_def)
  have "dictIsRehashing d \<longrightarrow> unat v < small_size d" using Cons.prems(2) by simp
  then obtain es1 v' where c: "dictScan d v = Some (es1, v')"
    "(a, x) \<in> set es1 \<or> v' \<noteq> 0 \<and> scan_pos v' \<le> scan_pos (khash ty k)"
    using call_covers[OF d(1,3) _ a(1), of v] Cons.prems(5) d(2) h by auto
  obtain es2 where es2: "scan_calls ds v' = Some (es2, 0)" "es = es1 @ es2"
    using Cons.prems(1) c(1) by (auto simp: bind_eq_Some_conv)
  show ?case
  proof (cases "(a, x) \<in> set es1")
    case True
    with a(2) es2 show ?thesis by force
  next
    case False
    with c Cons.prems Cons.IH[OF es2(1)] es2(2) show ?thesis by auto
  qed
qed simp

end

lemma scan_calls_sound:
  "scan_calls ds v = Some (es, v') \<Longrightarrow> \<forall>d \<in> set ds. dict_inv d \<and> dict_cap d \<le> 2 ^ 31 \<Longrightarrow>
   e \<in> set es \<Longrightarrow> \<exists>d \<in> set ds. e \<in> set (dict_entries d)"
proof (induction ds arbitrary: v es)
  case (Cons d ds)
  then obtain es1 v1 es2 where s: "dictScan d v = Some (es1, v1)" "scan_calls ds v1 = Some (es2, v')" "es = es1 @ es2"
    by (auto simp: bind_eq_Some_conv)
  have "set es1 \<subseteq> set (dict_entries d)"
  proof (cases "dictSize d = 0")
    case True
    with s(1) show ?thesis by (simp add: dictScan_def)
  next
    case False
    with dictScan_call[of d v] Cons.prems(2) s(1) show ?thesis by (auto simp: call_emits_def)
  qed
  with Cons.IH[OF s(2)] Cons.prems s(3) show ?case by auto
qed simp

text \<open>Tables that do not shrink during the iteration fit it.\<close>

lemma scan_next_fits: "n \<le> 31 \<Longrightarrow> unat (scan_next (mask n) v) < 2 ^ n"
proof -
  assume "n \<le> 31"
  then have "unat (scan_next (mask n) v) = unat (scan_next (mask n) v) mod 2 ^ n"
    using scan_next_less[of n v] by (simp flip: unat_take_bit)
  moreover have "unat (scan_next (mask n) v) mod 2 ^ n < 2 ^ n" by simp
  ultimately show ?thesis by linarith
qed

lemma growing_scan_fits:
  assumes "\<forall>d \<in> set ds. dict_inv d \<and> dict_cap d \<le> 2 ^ 31 \<and> dictSize d > 0"
    and "sorted (map small_size ds)" "\<forall>d \<in> set ds. unat v < small_size d"
  shows "scan_fits ds v"
  using assms
proof (induction ds arbitrary: v)
  case (Cons d ds)
  obtain n es where n: "n \<le> 31" "small_size d = 2 ^ n" "dictScan d v = Some (es, scan_next (mask n) v)"
    using dictScan_call[of d v] Cons.prems(1) by auto
  have "\<forall>d' \<in> set ds. unat (scan_next (mask n) v) < small_size d'"
    using scan_next_fits[OF n(1), of v] n(2) Cons.prems(2) by (auto intro: less_le_trans)
  with Cons n show ?case by simp
qed simp

text \<open>An iteration over a table nobody changes visits each bucket of the smaller table once.\<close>

lemma scan_calls_replicate:
  assumes "dict_inv d" "dict_cap d \<le> 2 ^ 31" "dictSize d > 0" "small_size d = 2 ^ n" "n \<le> 31"
  shows "j + r = 2 ^ n \<Longrightarrow> 0 < r \<Longrightarrow> scan_pos v = j * 2 ^ (64 - n) \<Longrightarrow>
    \<exists>es. scan_calls (replicate r d) v = Some (es, 0)"
proof (induction r arbitrary: j v)
  case (Suc r)
  obtain n' es where "small_size d = 2 ^ n'" "dictScan d v = Some (es, scan_next (mask n') v)"
    using dictScan_call[OF assms(1,2,3), of v] by blast
  then have c: "dictScan d v = Some (es, scan_next (mask n) v)" using assms(4) by simp
  have n64: "n \<le> 64" using assms(5) by simp
  have W: "2 ^ n * 2 ^ (64 - n) = (2 :: nat) ^ 64" using n64 by (simp flip: power_add)
  have p: "scan_pos (scan_next (mask n) v) = (j + 1) * 2 ^ (64 - n) mod 2 ^ 64"
    unfolding scan_next_pos[OF n64] Suc.prems(3) by simp
  show ?case
  proof (cases r)
    case 0
    then have "(j + 1) * 2 ^ (64 - n) = (2 :: nat) ^ 64" using Suc.prems(1) W by simp
    then have "scan_next (mask n) v = 0" using p scan_pos_eq_0 by simp
    with c 0 show ?thesis by simp
  next
    case (Suc r')
    then have "j + 1 < 2 ^ n" using Suc.prems(1) by simp
    then have "(j + 1) * 2 ^ (64 - n) < (2 :: nat) ^ 64" using W by (metis mult_less_mono1 zero_less_numeral zero_less_power)
    then have "scan_pos (scan_next (mask n) v) = (j + 1) * 2 ^ (64 - n)" unfolding p by (rule mod_less)
    then obtain es' where "scan_calls (replicate r d) (scan_next (mask n) v) = Some (es', 0)"
      using Suc.IH[of "j + 1" "scan_next (mask n) v"] Suc.prems(1) Suc by auto
    with c show ?thesis by simp
  qed
qed simp

end
