(* ===== verification/Numstr.thy ===== *)
theory Numstr
  imports Prelude
begin

text \<open>
  The number conversions of \<open>src/redis-3.0/src/util.c\<close>: \<open>digits10\<close>, \<open>ll2string\<close>, \<open>string2ll\<close>
  and \<open>string2l\<close>. The printer fills a caller-supplied buffer backwards from a two-digit
  table, as in C; the parser works on an unsigned 64-bit accumulator with overflow checks.
  The lemmas relate both to decimal notation (\<open>dec_int\<close>): the printer writes it, and the
  parser accepts exactly the canonical decimals of the \<open>long long\<close> range.
\<close>

section \<open>Integers to strings\<close>

fun digits10 :: "nat \<Rightarrow> nat" where
  "digits10 v =
     (if v < 10 then 1
      else if v < 100 then 2
      else if v < 1000 then 3
      else if v < 1000000000000 then
        (if v < 100000000 then
           (if v < 1000000 then
              (if v < 10000 then 4 else 5 + (if v \<ge> 100000 then 1 else 0))
            else 7 + (if v \<ge> 10000000 then 1 else 0))
         else if v < 10000000000 then 9 + (if v \<ge> 1000000000 then 1 else 0)
         else 11 + (if v \<ge> 100000000000 then 1 else 0))
      else 12 + digits10 (v div 1000000000000))"

declare digits10.simps [simp del]

definition digits_tab :: string where
  "digits_tab =
     ''0001020304050607080910111213141516171819'' @
     ''2021222324252627282930313233343536373839'' @
     ''4041424344454647484950515253545556575859'' @
     ''6061626364656667686970717273747576777879'' @
     ''8081828384858687888990919293949596979899''"

fun ll2string_loop :: "string \<Rightarrow> nat \<Rightarrow> nat \<Rightarrow> string \<times> nat \<times> nat" where
  \<comment> \<open>\<open>while (value >= 100)\<close>: buffer, \<open>next\<close> and \<open>value\<close>\<close>
  "ll2string_loop dst nxt value =
     (if value \<ge> 100 then
        (let i = (value mod 100) * 2 in
         ll2string_loop (dst[nxt := digits_tab ! (i + 1), nxt - 1 := digits_tab ! i])
           (nxt - 2) (value div 100))
      else (dst, nxt, value))"

declare ll2string_loop.simps [simp del]

definition ll2string :: "string \<Rightarrow> nat \<Rightarrow> int \<Rightarrow> string \<times> nat" where
  \<comment> \<open>the buffer afterwards and the returned length\<close>
  "ll2string dst dstlen svalue =
     (let negative = svalue < 0;
          value = nat (if svalue < 0
                       then (if svalue \<noteq> LLONG_MIN then - svalue else LLONG_MAX + 1)
                       else svalue);
          len = digits10 value + (if negative then 1 else 0)
      in if len \<ge> dstlen then (dst, 0)
         else
           (let dst1 = dst[len := NUL];
                (dst2, nxt, v) = ll2string_loop dst1 (len - 1) value;
                dst3 = (if v < 10 then dst2[nxt := digit_char v]
                        else dst2[nxt := digits_tab ! (v * 2 + 1),
                                  nxt - 1 := digits_tab ! (v * 2)]);
                dst4 = (if negative then dst3[0 := CHR ''-''] else dst3)
            in (dst4, len)))"

subsection \<open>The number of digits\<close>

lemma length_dec_bounds:
  "0 < k \<Longrightarrow> 10 ^ (k - 1) \<le> n \<or> k = 1 \<Longrightarrow> n < 10 ^ k \<Longrightarrow> length (dec n) = k"
proof (induction n arbitrary: k rule: dec.induct)
  case (1 n)
  show ?case
  proof (cases "n < 10")
    case True
    have "k = 1"
    proof (rule ccontr)
      assume "k \<noteq> 1"
      with "1.prems" have "(10::nat) ^ 1 \<le> 10 ^ (k - 1)" by (intro power_increasing) auto
      with "1.prems" \<open>k \<noteq> 1\<close> True show False by auto
    qed
    with True show ?thesis by (simp add: dec.simps[of n])
  next
    case False
    with "1.prems" obtain j where k: "k = Suc (Suc j)"
      by (metis One_nat_def gr0_conv_Suc not0_implies_Suc power_one_right)
    with "1.prems" have "10 ^ j \<le> n div 10" and "n div 10 < 10 ^ Suc j"
      by (auto simp: less_mult_imp_div_less div_le_mono[of "10 * 10 ^ j" n 10, simplified])
    then have "length (dec (n div 10)) = Suc j"
      using "1.IH"[OF False, of "Suc j"] by simp
    with False k show ?thesis by (simp add: dec.simps[of n])
  qed
qed

lemma length_dec_div:
  "10 ^ k \<le> n \<Longrightarrow> length (dec n) = k + length (dec (n div 10 ^ k))"
proof (induction k arbitrary: n)
  case 0
  then show ?case by simp
next
  case (Suc k)
  then have n: "\<not> n < 10" "10 ^ k \<le> n div 10"
    using div_le_mono[of "10 * 10 ^ k" n 10]
    by (auto dest: order.trans[rotated])
  then show ?case
    using Suc.IH[of "n div 10"] by (simp add: dec.simps[of n] div_mult2_eq)
qed

lemma digits10_dec: "digits10 v = length (dec v)"
proof (induction v rule: digits10.induct)
  case (1 v)
  note len = length_dec_bounds[of 1 v] length_dec_bounds[of 2 v] length_dec_bounds[of 3 v]
    length_dec_bounds[of 4 v] length_dec_bounds[of 5 v] length_dec_bounds[of 6 v]
    length_dec_bounds[of 7 v] length_dec_bounds[of 8 v] length_dec_bounds[of 9 v]
    length_dec_bounds[of 10 v] length_dec_bounds[of 11 v] length_dec_bounds[of 12 v]
  show ?case
  proof (cases "v < 1000000000000")
    case True
    then show ?thesis
      using len by (auto simp: digits10.simps[of v])
  next
    case False
    then have "length (dec v) = 12 + length (dec (v div 1000000000000))"
      using length_dec_div[of 12 v] by simp
    with False "1.IH" show ?thesis by (simp add: digits10.simps[of v])
  qed
qed

subsection \<open>The digit table\<close>

lemma digits_tab_pairs:
  "map (\<lambda>k. (digits_tab ! (2 * k), digits_tab ! (2 * k + 1))) [0..<100] =
   map (\<lambda>k. (digit_char (k div 10), digit_char (k mod 10))) [0..<100]"
  by code_simp

lemma digits_tab_nth:
  assumes "k < 100"
  shows "digits_tab ! (k * 2) = digit_char (k div 10)"
    and "digits_tab ! Suc (k * 2) = digit_char (k mod 10)"
  using digits_tab_pairs assms by (auto simp: map_eq_conv mult.commute)

lemma dec_two_digits:
  "100 \<le> v \<Longrightarrow> dec v = dec (v div 100) @ [digit_char (v mod 100 div 10), digit_char (v mod 100 mod 10)]"
proof -
  assume v: "100 \<le> v"
  have "v div 10 mod 10 = v mod 100 div 10" and "v mod 100 mod 10 = v mod 10"
    by (simp_all add: mod_mult2_eq[of v 10 10, simplified] div_mult2_eq)
  with v show ?thesis
    by (simp add: dec.simps[of v] dec.simps[of "v div 10"] div_mult2_eq[of v 10 10, simplified])
qed

subsection \<open>The printing loop\<close>

lemma ll2string_loop_spec:
  assumes "ll2string_loop dst nxt v = (dst', nxt', v')"
    and "Suc nxt = off + length (dec v)" and "nxt < length dst"
  shows "v' < 100 \<and> Suc nxt' = off + length (dec v') \<and> length dst' = length dst \<and>
    take off dst' = take off dst \<and>
    dec v' @ drop (Suc nxt') dst' = dec v @ drop (Suc nxt) dst"
  using assms
proof (induction dst nxt v rule: ll2string_loop.induct)
  case (1 dst nxt v)
  show ?case
  proof (cases "v \<ge> 100")
    case True
    let ?i = "(v mod 100) * 2"
    let ?d = "dst[nxt := digits_tab ! (?i + 1), nxt - 1 := digits_tab ! ?i]"
    have len: "length (dec v) = 2 + length (dec (v div 100))"
      using dec_two_digits[OF True] by simp
    moreover have "0 < length (dec (v div 100))" by simp
    ultimately have nxt: "2 \<le> nxt" "Suc (nxt - 2) = off + length (dec (v div 100))"
      "off \<le> nxt - 2"
      using "1.prems"(2) by linarith+
    from True "1.prems"(1) have call: "ll2string_loop ?d (nxt - 2) (v div 100) = (dst', nxt', v')"
      by (simp add: ll2string_loop.simps[of dst] Let_def)
    have tail: "drop (Suc (nxt - 2)) ?d =
        [digit_char (v mod 100 div 10), digit_char (v mod 100 mod 10)] @ drop (Suc nxt) dst"
    proof -
      obtain m where m: "nxt = Suc (Suc m)" using nxt(1) by (metis Suc_le_D numeral_2_eq_2 Suc_le_mono)
      have "drop (Suc m) (dst[Suc (Suc m) := a, Suc m := b]) = b # a # drop (Suc (Suc (Suc m))) dst" for a b
        using "1.prems"(3) m by (simp add: drop_update_same)
      with "1.prems"(3) show ?thesis
        by (simp add: m digits_tab_nth)
    qed
    have IH: "v' < 100 \<and> Suc nxt' = off + length (dec v') \<and> length dst' = length ?d \<and>
      take off dst' = take off ?d \<and>
      dec v' @ drop (Suc nxt') dst' = dec (v div 100) @ drop (Suc (nxt - 2)) ?d"
      by (rule "1.IH"[OF True refl call nxt(2)]) (use "1.prems"(3) in simp)
    moreover have "take off ?d = take off dst" using nxt by simp
    ultimately show ?thesis
      using tail dec_two_digits[OF True] by (metis append.assoc length_list_update)
  next
    case False
    with "1.prems" show ?thesis by (simp add: ll2string_loop.simps[of dst])
  qed
qed

text \<open>The printed text is the decimal notation, whatever the buffer held before.\<close>

lemma ll2string_fits:
  assumes v: "in_ll v" and fit: "length (dec_int v) < dstlen" and buf: "dstlen \<le> length dst"
  shows "snd (ll2string dst dstlen v) = length (dec_int v)"
    and "take (Suc (length (dec_int v))) (fst (ll2string dst dstlen v)) = dec_int v @ [NUL]"
    and "length (fst (ll2string dst dstlen v)) = length dst"
proof -
  define neg where "neg = (if v < 0 then 1 else (0::nat))"
  define val where "val = nat \<bar>v\<bar>"
  define len where "len = length (dec_int v)"
  have len: "len = digits10 val + neg"
    by (simp add: len_def dec_int_def neg_def val_def digits10_dec)
  obtain dst2 nxt w where loop: "ll2string_loop (dst[len := NUL]) (len - 1) val = (dst2, nxt, w)"
    by (metis prod_cases3)
  have "Suc (len - 1) = neg + length (dec val)"
    using len by (simp add: digits10_dec)
  moreover have "len - 1 < length (dst[len := NUL])" using fit buf len_def by simp
  ultimately
  have w: "w < 100" and nxt: "Suc nxt = neg + length (dec w)" and l2: "length dst2 = length dst"
    and tk: "take neg dst2 = take neg (dst[len := NUL])"
    and dr: "dec w @ drop (Suc nxt) dst2 = dec val @ drop (Suc (len - 1)) (dst[len := NUL])"
    using ll2string_loop_spec[OF loop] length_list_update by metis+
  define dst3 where "dst3 = (if w < 10 then dst2[nxt := digit_char w]
     else dst2[nxt := digits_tab ! (w * 2 + 1), nxt - 1 := digits_tab ! (w * 2)])"
  have pos: "0 < len" using len by (simp add: digits10_dec)
  have nl: "nxt < length dst2"
  proof -
    have "length (dec w) + (length dst2 - Suc nxt) = length (dec val) + (length dst - len)"
      using arg_cong[OF dr, of length] pos by simp
    then show ?thesis using nxt l2 fit buf len len_def pos by (simp add: digits10_dec)
  qed
  have d3: "drop neg dst3 = dec w @ drop (Suc nxt) dst2" "take neg dst3 = take neg dst2"
  proof -
    show "drop neg dst3 = dec w @ drop (Suc nxt) dst2"
    proof (cases "w < 10")
      case True
      with nxt have "nxt = neg" by (simp add: dec.simps[of w])
      with True nl show ?thesis by (simp add: dst3_def dec.simps[of w] drop_update_same)
    next
      case False
      with w nxt have "nxt = Suc neg" "w div 10 < 10"
        by (simp_all add: dec.simps[of w] dec.simps[of "w div 10"] less_mult_imp_div_less)
      with False nl w show ?thesis
        by (simp add: dst3_def dec.simps[of w] dec.simps[of "w div 10"] drop_update_same digits_tab_nth)
    qed
    show "take neg dst3 = take neg dst2"
      using nxt w by (auto simp: dst3_def dec.simps[of w] dec.simps[of "w div 10"] Suc_diff_le
          less_mult_imp_div_less)
  qed
  define dst4 where "dst4 = (if v < 0 then dst3[0 := CHR ''-''] else dst3)"
  have l3: "length dst3 = length dst" by (simp add: dst3_def l2)
  have "\<not> dstlen \<le> len" using fit len_def by simp
  then have res: "ll2string dst dstlen v = (dst4, len)"
    using v loop len unfolding ll2string_def neg_def val_def
    by (auto simp: Let_def dst4_def dst3_def neg_def val_def)
  have lt: "len < length dst" using fit buf len_def by simp
  have dr3: "drop neg dst3 = dec val @ NUL # drop (Suc len) dst"
    using d3(1) dr pos lt by (simp add: drop_update_same)
  have "dst4 = dec_int v @ NUL # drop (Suc len) dst"
  proof (cases "v < 0")
    case True
    then have "neg = 1" by (simp add: neg_def)
    obtain x xs where "dst3 = x # xs" using l3 lt by (cases dst3) auto
    with True dr3 \<open>neg = 1\<close> show ?thesis
      by (simp add: dst4_def dec_int_def val_def)
  next
    case False
    with dr3 show ?thesis by (simp add: dst4_def dec_int_def val_def neg_def)
  qed
  with res show "snd (ll2string dst dstlen v) = length (dec_int v)"
    and "take (Suc (length (dec_int v))) (fst (ll2string dst dstlen v)) = dec_int v @ [NUL]"
    and "length (fst (ll2string dst dstlen v)) = length dst"
    using lt by (simp_all add: len_def)
qed

lemma ll2string_too_small:
  "in_ll v \<Longrightarrow> dstlen \<le> length (dec_int v) \<Longrightarrow> ll2string dst dstlen v = (dst, 0)"
  by (auto simp: ll2string_def Let_def digits10_dec dec_int_def)

section \<open>Strings to integers\<close>

fun string2ll_loop :: "string \<Rightarrow> int \<Rightarrow> (int \<times> string) option" where
  \<comment> \<open>the digit loop: \<open>None\<close> on overflow, else the value and the bytes not used\<close>
  "string2ll_loop [] v = Some (v, [])"
| "string2ll_loop (c # p) v =
     (if is_digit c then
        if v > ULLONG_MAX div 10 then None
        else let v = u64 (v * 10) in
          if v > ULLONG_MAX - digit_val c then None
          else string2ll_loop p (u64 (v + digit_val c))
      else Some (v, c # p))"

definition string2ll :: "string \<Rightarrow> int option" where
  \<comment> \<open>\<open>None\<close> is the return value 0, \<open>Some v\<close> the return value 1 with \<open>*value = v\<close>\<close>
  "string2ll s =
     (if s = [] then None
      else if length s = 1 \<and> s ! 0 = CHR ''0'' then Some 0
      else
        let negative = s ! 0 = CHR ''-'';
            p = (if negative then tl s else s)
        in if p = [] then None
           else if is_digit (hd p) \<and> hd p \<noteq> CHR ''0'' then
             (case string2ll_loop (tl p) (digit_val (hd p)) of
                None \<Rightarrow> None
              | Some (v, rest) \<Rightarrow>
                  if rest \<noteq> [] then None
                  else if negative then
                    (if v > LLONG_MAX + 1 then None else Some (s64 (u64 (- v))))
                  else
                    (if v > LLONG_MAX then None else Some v))
           else if hd p = CHR ''0'' \<and> length s = 1 then Some 0
           else None)"

definition string2l :: "int \<Rightarrow> int \<Rightarrow> string \<Rightarrow> int option" where
  \<comment> \<open>the first two arguments are \<open>PORT_LONG_MIN\<close> and \<open>PORT_LONG_MAX\<close> of the platform\<close>
  "string2l long_min long_max s =
     (case string2ll s of
        None \<Rightarrow> None
      | Some v \<Rightarrow> if v < long_min \<or> v > long_max then None else Some v)"

subsection \<open>Exactly the canonical decimals in range are accepted\<close>

definition num :: "int \<Rightarrow> string \<Rightarrow> int" where
  "num v cs = foldl (\<lambda>v c. v * 10 + digit_val c) v cs"

lemma num_simps [simp]: "num v [] = v" "num v (c # cs) = num (v * 10 + digit_val c) cs"
  "num v (cs @ ds) = num (num v cs) ds"
  by (simp_all add: num_def)

lemma num_ge: "0 \<le> v \<Longrightarrow> list_all is_digit cs \<Longrightarrow> v \<le> num v cs"
proof (induction cs arbitrary: v)
  case (Cons c cs)
  then have "v * 10 + digit_val c \<le> num (v * 10 + digit_val c) cs"
    using digit_val_range[of c] by simp
  then show ?case using Cons.prems digit_val_range[of c] by simp
qed simp

lemma list_all_takeWhile [simp]: "list_all P (takeWhile P xs)"
  by (induction xs) auto

lemma string2ll_loop_eq:
  "0 \<le> v \<Longrightarrow> v \<le> ULLONG_MAX \<Longrightarrow>
   string2ll_loop p v =
     (if num v (takeWhile is_digit p) \<le> ULLONG_MAX
      then Some (num v (takeWhile is_digit p), dropWhile is_digit p) else None)"
proof (induction p arbitrary: v)
  case (Cons c p)
  show ?case
  proof (cases "is_digit c")
    case True
    let ?w = "v * 10 + digit_val c"
    have d: "0 \<le> digit_val c" "digit_val c \<le> 9" using digit_val_range[OF True] by simp_all
    have ge: "?w \<le> num ?w (takeWhile is_digit p)"
      using Cons.prems d by (intro num_ge) simp_all
    show ?thesis
    proof (cases "?w \<le> ULLONG_MAX")
      case fits: True
      then have "string2ll_loop (c # p) v = string2ll_loop p ?w"
        using True Cons.prems d by (simp add: wrap_simps Let_def)
      with Cons.IH[of ?w] fits True Cons.prems d show ?thesis by simp
    next
      case False
      then have "string2ll_loop (c # p) v = None"
        using True Cons.prems d by (auto simp: wrap_simps Let_def)
      with False True ge show ?thesis by simp
    qed
  next
    case False
    with Cons.prems show ?thesis by simp
  qed
qed simp

lemma dec_num:
  "0 < d \<Longrightarrow> d < 10 \<Longrightarrow> list_all is_digit cs \<Longrightarrow>
   dec (nat (num (int d) cs)) = digit_char d # cs"
proof (induction cs rule: rev_induct)
  case Nil
  then show ?case by (simp add: dec.simps[of d])
next
  case (snoc c cs)
  let ?n = "num (int d) cs"
  have "int d \<le> ?n" using num_ge[of "int d" cs] snoc.prems by simp
  moreover have d: "0 \<le> digit_val c" "digit_val c \<le> 9"
    using digit_val_range[of c] snoc.prems by simp_all
  ultimately have "nat (num (int d) (cs @ [c])) = 10 * nat ?n + nat (digit_val c)" and "0 < nat ?n"
    using snoc.prems(1) by (simp_all add: nat_add_distrib nat_mult_distrib)
  then show ?case
    using snoc d by (simp add: dec_snoc digit_char_digit_val)
qed

lemma dec_parts:
  "0 < n \<Longrightarrow> \<exists>d cs. dec n = digit_char d # cs \<and> 0 < d \<and> d < 10 \<and>
     list_all is_digit cs \<and> num (int d) cs = int n"
proof (induction n rule: dec.induct)
  case (1 n)
  show ?case
  proof (cases "n < 10")
    case True
    with "1.prems" show ?thesis by (auto simp: dec.simps[of n])
  next
    case False
    then have "0 < n div 10" by (simp add: div_greater_zero_iff)
    with False "1.IH" obtain d cs where IH: "dec (n div 10) = digit_char d # cs" "0 < d" "d < 10"
      "list_all is_digit cs" "num (int d) cs = int (n div 10)" by auto
    have "dec n = digit_char d # (cs @ [digit_char (n mod 10)])"
      using False IH(1) by (simp add: dec.simps[of n])
    moreover have "num (int d) (cs @ [digit_char (n mod 10)]) = int n"
      using IH(5) by (simp add: zdiv_int zmod_int)
    moreover have "list_all is_digit (cs @ [digit_char (n mod 10)])" using IH(4) by simp
    ultimately show ?thesis using IH(2,3) by blast
  qed
qed

lemma string2ll_unsigned:
  assumes "is_digit c" and "c \<noteq> CHR ''0''"
  shows "(case string2ll_loop cs (digit_val c) of
      None \<Rightarrow> False | Some (w, rest) \<Rightarrow> rest = [] \<and> w = v) \<longleftrightarrow>
    0 \<le> v \<and> v \<le> ULLONG_MAX \<and> c # cs = dec (nat v)"
proof -
  obtain d where d: "c = digit_char d" "0 < d" "d < 10"
  proof
    show "c = digit_char (nat (digit_val c))" using digit_char_digit_val[OF assms(1)] by simp
    show "nat (digit_val c) < 10" using digit_val_range[OF assms(1)] by linarith
    show "0 < nat (digit_val c)"
      using digit_char_digit_val[OF assms(1)] assms(2) by (cases "nat (digit_val c) = 0") auto
  qed
  let ?t = "takeWhile is_digit cs"
  have ge: "int d \<le> num (int d) ?t" by (rule num_ge) simp_all
  have "dropWhile is_digit cs = [] \<longleftrightarrow> ?t = cs"
    by (metis append_Nil2 append_self_conv takeWhile_dropWhile_id)
  then have "(case string2ll_loop cs (digit_val c) of
      None \<Rightarrow> False | Some (w, rest) \<Rightarrow> rest = [] \<and> w = v) \<longleftrightarrow>
    v \<le> ULLONG_MAX \<and> ?t = cs \<and> num (int d) ?t = v"
    using d by (auto simp: string2ll_loop_eq split: if_splits)
  also have "\<dots> \<longleftrightarrow> 0 \<le> v \<and> v \<le> ULLONG_MAX \<and> c # cs = dec (nat v)"
  proof
    assume *: "v \<le> ULLONG_MAX \<and> ?t = cs \<and> num (int d) ?t = v"
    then have "list_all is_digit cs" by (metis list_all_takeWhile)
    then have "dec (nat v) = digit_char d # cs" using * d dec_num[of d cs] by metis
    with * d ge show "0 \<le> v \<and> v \<le> ULLONG_MAX \<and> c # cs = dec (nat v)" by auto
  next
    assume *: "0 \<le> v \<and> v \<le> ULLONG_MAX \<and> c # cs = dec (nat v)"
    have "0 < nat v"
    proof (rule ccontr)
      assume "\<not> 0 < nat v"
      with * have "c # cs = dec 0" by (metis neq0_conv)
      with assms(2) show False by simp
    qed
    from dec_parts[OF this] obtain d' cs' where p: "dec (nat v) = digit_char d' # cs'" "d' < 10"
      "list_all is_digit cs'" "num (int d') cs' = int (nat v)" by auto
    with * d have "d' = d" "cs' = cs" by (auto simp: digit_char_inj)
    moreover have t: "?t = cs" using p(3) \<open>cs' = cs\<close> by (simp add: list_all_iff)
    ultimately show "v \<le> ULLONG_MAX \<and> ?t = cs \<and> num (int d) ?t = v"
      unfolding t using * p(4) by simp
  qed
  finally show ?thesis .
qed

lemma dec_0_iff: "dec n = ''0'' \<longleftrightarrow> n = 0"
proof
  assume *: "dec n = ''0''"
  show "n = 0"
  proof (rule ccontr)
    assume "n \<noteq> 0"
    then obtain d cs where "dec n = digit_char d # cs" "0 < d" "d < 10" using dec_parts by blast
    with * have "digit_char d = digit_char 0" by simp
    with \<open>0 < d\<close> \<open>d < 10\<close> show False by (simp add: digit_char_inj)
  qed
qed simp

lemma dec_no_lead:
  "dec n = c # cs \<Longrightarrow> is_digit c \<and> (c = CHR ''0'' \<longrightarrow> cs = [])"
proof -
  assume *: "dec n = c # cs"
  show ?thesis
  proof (cases "n = 0")
    case True
    with * show ?thesis by (auto simp: is_digit_def)
  next
    case False
    then obtain d ds where "dec n = digit_char d # ds" "0 < d" "d < 10" using dec_parts by blast
    with * show ?thesis using digit_char_inj[of d 0] by auto
  qed
qed

lemma string2ll_pos:
  assumes "s \<noteq> []" and "s ! 0 \<noteq> CHR ''-''"
  shows "string2ll s = Some v \<longleftrightarrow> 0 \<le> v \<and> v \<le> LLONG_MAX \<and> s = dec (nat v)"
proof -
  obtain c cs where s: "s = c # cs" using assms(1) by (cases s) auto
  consider "c = CHR ''0''" "cs = []" | "c = CHR ''0''" "cs \<noteq> []" | "\<not> is_digit c"
    | "is_digit c" "c \<noteq> CHR ''0''" by blast
  then show ?thesis
  proof cases
    case 1
    have eq: "[CHR ''0''] = dec (nat v) \<longleftrightarrow> v \<le> 0" by (metis dec_0_iff nat_eq_iff2 nat_le_0 nat_0_iff)
    have val: "string2ll [CHR ''0''] = Some 0" by (simp add: string2ll_def)
    show ?thesis unfolding s 1 val eq by auto
  next
    case 2
    then show ?thesis using s assms(2) dec_no_lead[of "nat v" c cs] by (auto simp: string2ll_def)
  next
    case 3
    then have "c \<noteq> CHR ''0''" by (auto simp: is_digit_def)
    with 3 show ?thesis using s assms(2) dec_no_lead[of "nat v" c cs] by (auto simp: string2ll_def)
  next
    case 4
    have "c \<noteq> CHR ''-''" using s assms(2) by simp
    then have "string2ll s = (case string2ll_loop cs (digit_val c) of None \<Rightarrow> None
        | Some (v, rest) \<Rightarrow> if rest \<noteq> [] then None else if v > LLONG_MAX then None else Some v)"
      using 4 by (simp add: s string2ll_def split: option.split prod.split)
    then have "string2ll s = Some v \<longleftrightarrow> v \<le> LLONG_MAX \<and> (case string2ll_loop cs (digit_val c) of
        None \<Rightarrow> False | Some (w, rest) \<Rightarrow> rest = [] \<and> w = v)"
      by (auto split: option.splits)
    then show ?thesis unfolding string2ll_unsigned[OF 4] s by auto
  qed
qed

lemma string2ll_neg:
  assumes "s = CHR ''-'' # p"
  shows "string2ll s = Some v \<longleftrightarrow> LLONG_MIN \<le> v \<and> v < 0 \<and> p = dec (nat (- v))"
proof (cases p)
  case Nil
  with assms show ?thesis by (auto simp: string2ll_def)
next
  case (Cons c cs)
  show ?thesis
  proof (cases "is_digit c \<and> c \<noteq> CHR ''0''")
    case False
    then have "string2ll s = None" using assms Cons by (auto simp: string2ll_def)
    moreover have "v < 0 \<Longrightarrow> p \<noteq> dec (nat (- v))"
    proof
      assume "v < 0" and p: "p = dec (nat (- v))"
      then show False using False Cons dec_no_lead[of "nat (- v)" c cs] dec_0_iff[of "nat (- v)"]
        by auto
    qed
    ultimately show ?thesis by auto
  next
    case True
    have nat: "string2ll_loop cs (digit_val c) = Some (w, []) \<Longrightarrow> 0 < w" for w
    proof -
      assume *: "string2ll_loop cs (digit_val c) = Some (w, [])"
      then have "0 \<le> w \<and> c # cs = dec (nat w)"
        using string2ll_unsigned[of c w cs] True by simp
      then show "0 < w" using True by (cases "w = 0") auto
    qed
    have "string2ll s = Some v \<longleftrightarrow> LLONG_MIN \<le> v \<and> v < 0 \<and> (case string2ll_loop cs (digit_val c) of
        None \<Rightarrow> False | Some (w, rest) \<Rightarrow> rest = [] \<and> w = - v)"
      using True Cons assms nat by (auto simp: string2ll_def wrap_simps split: option.splits)
    then show ?thesis unfolding string2ll_unsigned[OF conjunct1[OF True] conjunct2[OF True]] Cons
      by auto
  qed
qed

lemma string2ll_iff: "string2ll s = Some v \<longleftrightarrow> in_ll v \<and> s = dec_int v"
proof (cases s)
  case Nil
  then show ?thesis by (simp add: string2ll_def dec_int_def)
next
  case (Cons c cs)
  show ?thesis
  proof (cases "c = CHR ''-''")
    case True
    have "dec (nat v) \<noteq> CHR ''-'' # cs"
      using dec_no_lead[of "nat v" "CHR ''-''" cs] by (auto simp: is_digit_def)
    with True Cons string2ll_neg[of s cs v] show ?thesis by (auto simp: dec_int_def)
  next
    case False
    with Cons string2ll_pos[of s v] show ?thesis by (auto simp: dec_int_def)
  qed
qed

lemma length_dec_le: "n < 10 ^ k \<Longrightarrow> 0 < k \<Longrightarrow> length (dec n) \<le> k"
proof (induction k arbitrary: n)
  case (Suc k)
  show ?case
  proof (cases "n < 10")
    case True
    then show ?thesis by (simp add: dec.simps[of n])
  next
    case False
    then have "0 < k" using Suc.prems(1) by (cases k) auto
    moreover have "n div 10 < 10 ^ k" using Suc.prems(1) by (simp add: less_mult_imp_div_less mult.commute)
    ultimately have "length (dec (n div 10)) \<le> k" by (rule Suc.IH[rotated])
    with False show ?thesis by (simp add: dec.simps[of n])
  qed
qed simp

lemma length_dec_int: "in_ll v \<Longrightarrow> length (dec_int v) \<le> 20"
  using length_dec_le[of "nat v" 19] length_dec_le[of "nat (- v)" 19] by (auto simp: dec_int_def nat_less_iff)

lemma dec_int_inj: "in_ll a \<Longrightarrow> in_ll b \<Longrightarrow> dec_int a = dec_int b \<longleftrightarrow> a = b"
  using string2ll_iff[of "dec_int a" a] string2ll_iff[of "dec_int a" b] by auto

section \<open>Properties\<close>

lemma dec_length_range: "10 ^ (length (dec v) - 1) \<le> max 1 v \<and> v < 10 ^ length (dec v)"
proof (induction v rule: dec.induct)
  case (1 n)
  show ?case
  proof (cases "n < 10")
    case True
    then show ?thesis by (simp add: dec.simps[of n])
  next
    case False
    let ?l = "length (dec (n div 10))"
    have l: "0 < ?l" by (cases "dec (n div 10)") (use dec_nonempty in auto)
    have "10 ^ (?l - 1) \<le> n div 10" "n div 10 < 10 ^ ?l" using "1.IH"[OF False] False by auto
    then have "10 ^ (?l - 1) * 10 \<le> n" "n < 10 ^ ?l * 10" by (auto simp: div_less_iff_less_mult less_eq_div_iff_mult_less_eq)
    moreover have "10 ^ (?l - 1) * 10 = (10 :: nat) ^ ?l" using l by (simp flip: power_Suc2)
    ultimately show ?thesis using False by (simp add: dec.simps[of n])
  qed
qed

text \<open>digits10 is the number of decimal digits of its argument.\<close>

theorem digits10_counts: "digits10 v = length (dec v) \<and> 10 ^ (digits10 v - 1) \<le> max 1 v \<and> v < 10 ^ digits10 v"
  using dec_length_range[of v] by (simp add: digits10_dec)

text \<open>C25: ll2string writes exactly the decimal notation of any 64-bit integer, terminated, and returns its
  length, when the buffer has room for it with the terminator; it writes nothing and
  returns 0 when it does not.\<close>

theorem ll2string_writes:
  assumes "in_ll v" "dstlen \<le> length dst"
  shows "if length (dec_int v) < dstlen
    then snd (ll2string dst dstlen v) = length (dec_int v) \<and>
      take (length (dec_int v) + 1) (fst (ll2string dst dstlen v)) = dec_int v @ [NUL] \<and>
      length (fst (ll2string dst dstlen v)) = length dst
    else ll2string dst dstlen v = (dst, 0)"
  using ll2string_fits[OF assms(1) _ assms(2)] ll2string_too_small[OF assms(1), of dstlen dst] by simp

theorem ll2string_writes_witness:
  "take 5 (fst (ll2string (replicate 8 NUL) 8 (-204))) = ''-204'' @ [NUL] \<and>
   ll2string ''abc'' 3 1234 = (''abc'', 0)"
proof -
  have "dec_int (-204) = ''-204''" "dec_int 1234 = ''1234''" by code_simp+
  then show ?thesis
    using ll2string_writes[of "-204" 8 "replicate 8 NUL"] ll2string_writes[of 1234 3 "''abc''"]
    by (simp add: numeral_eq_Suc)
qed

text \<open>C24: string2ll accepts a byte string exactly when it is the canonical decimal notation of a
  64-bit integer (no sign but a leading minus, no leading zero, no space, no overflow), and then
  yields that integer.\<close>

theorem string2ll_exact: "string2ll s = Some v \<longleftrightarrow> in_ll v \<and> s = dec_int v"
  by (rule string2ll_iff)

text \<open>C26: a number that was printed by ll2string is read back by string2ll, and string2l reads it
  back when it is in the range of the platform's long.\<close>

theorem ll2string_roundtrip:
  assumes "in_ll v" "length (dec_int v) < dstlen" "dstlen \<le> length dst"
  shows "string2ll (take (snd (ll2string dst dstlen v)) (fst (ll2string dst dstlen v))) = Some v \<and>
    string2l lo hi (take (snd (ll2string dst dstlen v)) (fst (ll2string dst dstlen v))) =
      (if lo \<le> v \<and> v \<le> hi then Some v else None)"
proof -
  obtain b n where ll: "ll2string dst dstlen v = (b, n)" by fastforce
  have "n = length (dec_int v)" "take (Suc (length (dec_int v))) b = dec_int v @ [NUL]"
    using ll2string_fits(1,2)[OF assms] by (simp_all add: ll)
  then have "take n (take (Suc n) b) = dec_int v" by simp
  then have "take n b = dec_int v" by (simp add: min_def)
  moreover have "string2ll (dec_int v) = Some v" using string2ll_iff assms(1) by simp
  ultimately show ?thesis by (auto simp: ll string2l_def)
qed

theorem ll2string_roundtrip_witness:
  "string2ll (take (snd (ll2string ''........'' 8 (-75))) (fst (ll2string ''........'' 8 (-75)))) = Some (-75)"
proof -
  have "length (dec_int (-75)) < 8" by code_simp
  then show ?thesis using ll2string_roundtrip[of "-75" 8 "''........''" 0 0] by simp
qed

end
