(* ===== verification/DictTypes.thy ===== *)
theory DictTypes
  imports DictScan Numstr
begin

text \<open>
  The hash functions of \<open>src/redis-3.0/src/dict.c\<close> and the dictionary types of
  \<open>src/redis-3.0/src/redis.c\<close> that Redis instantiates the hash table with: sds strings compared
  byte by byte (the keyspace and its expires), sds strings compared without case (commands,
  scripts), and string objects in either encoding (sets, hashes, sorted sets). The first and
  the last satisfy the laws of \<open>dict_keys\<close>; the second does on strings without NUL bytes.
\<close>

unbundle bit_operations_syntax

section \<open>Hash functions\<close>

definition dictIntHashFunction :: "32 word \<Rightarrow> 32 word" where
  "dictIntHashFunction key =
     (let key = key + NOT (push_bit 15 key);
          key = key XOR drop_bit 10 key;
          key = key + push_bit 3 key;
          key = key XOR drop_bit 6 key;
          key = key + NOT (push_bit 11 key);
          key = key XOR drop_bit 16 key
      in key)"

abbreviation byte32 :: "char \<Rightarrow> 32 word" where
  "byte32 c \<equiv> of_char c"

definition murmur_m :: "32 word" where
  "murmur_m = 0x5bd1e995"

fun murmur_loop :: "string \<Rightarrow> 32 word \<Rightarrow> 32 word \<times> string" where
  \<comment> \<open>\<open>while (len >= 4)\<close>: four bytes at a time, read as a little-endian word\<close>
  "murmur_loop (b0 # b1 # b2 # b3 # data) h =
     (let k = byte32 b0 OR push_bit 8 (byte32 b1) OR push_bit 16 (byte32 b2) OR push_bit 24 (byte32 b3);
          k = k * murmur_m;
          k = k XOR drop_bit 24 k;
          k = k * murmur_m;
          h = h * murmur_m;
          h = h XOR k
      in murmur_loop data h)"
| "murmur_loop data h = (h, data)"

fun murmur_tail :: "string \<Rightarrow> 32 word \<Rightarrow> 32 word" where
  \<comment> \<open>the \<open>switch(len)\<close> with its fall-through\<close>
  "murmur_tail [d0, d1, d2] h = (((h XOR push_bit 16 (byte32 d2)) XOR push_bit 8 (byte32 d1)) XOR byte32 d0) * murmur_m"
| "murmur_tail [d0, d1] h = ((h XOR push_bit 8 (byte32 d1)) XOR byte32 d0) * murmur_m"
| "murmur_tail [d0] h = (h XOR byte32 d0) * murmur_m"
| "murmur_tail _ h = h"

definition dictGenHashFunction :: "32 word \<Rightarrow> string \<Rightarrow> 32 word" where
  \<comment> \<open>the first argument is the global \<open>dict_hash_function_seed\<close>\<close>
  "dictGenHashFunction seed key =
     (let (h, data) = murmur_loop key (seed XOR of_nat (length key));
          h = murmur_tail data h;
          h = h XOR drop_bit 13 h;
          h = h * murmur_m;
          h = h XOR drop_bit 15 h
      in h)"

fun case_hash_loop :: "string \<Rightarrow> 32 word \<Rightarrow> 32 word" where
  "case_hash_loop [] hash = hash"
| "case_hash_loop (c # buf) hash =
     case_hash_loop buf ((push_bit 5 hash + hash) + of_int (c_tolower (of_char c)))"

definition dictGenCaseHashFunction :: "32 word \<Rightarrow> string \<Rightarrow> 32 word" where
  "dictGenCaseHashFunction seed buf = case_hash_loop buf seed"

section \<open>Sds keys\<close>

definition dictSdsHash :: "32 word \<Rightarrow> string \<Rightarrow> 32 word" where
  "dictSdsHash seed key = dictGenHashFunction seed key"

definition dictSdsKeyCompare :: "string \<Rightarrow> string \<Rightarrow> bool" where
  "dictSdsKeyCompare key1 key2 =
     (let l1 = length key1; l2 = length key2 in if l1 \<noteq> l2 then False else take l1 key1 = take l1 key2)"

definition dbDictType :: "32 word \<Rightarrow> (string, 'v) dictType" where
  "dbDictType seed = \<lparr>hashFunction = dictSdsHash seed, keyCompare = Some dictSdsKeyCompare\<rparr>"

definition keyptrDictType :: "32 word \<Rightarrow> (string, 'v) dictType" where
  "keyptrDictType seed = \<lparr>hashFunction = dictSdsHash seed, keyCompare = Some dictSdsKeyCompare\<rparr>"

lemma dictSdsKeyCompare_eq [simp]: "dictSdsKeyCompare a b \<longleftrightarrow> a = b"
  by (auto simp: dictSdsKeyCompare_def Let_def)

lemma key_eq_db [simp]: "key_eq (dbDictType seed) = (=)" "key_eq (keyptrDictType seed) = (=)"
  by (simp_all add: fun_eq_iff key_eq_def dbDictType_def keyptrDictType_def)

interpretation db_keys: dict_keys "dbDictType seed"
  by unfold_locales simp_all

interpretation ptr_keys: dict_keys "keyptrDictType seed"
  by unfold_locales simp_all

section \<open>Sds keys without case\<close>

fun strcasecmp0 :: "string \<Rightarrow> string \<Rightarrow> bool" where
  \<comment> \<open>\<open>strcasecmp(a, b) == 0\<close> on the buffers of two sds strings: it stops at the first NUL\<close>
  "strcasecmp0 [] [] = True"
| "strcasecmp0 [] (y # ys) = (y = NUL)"
| "strcasecmp0 (x # xs) [] = (x = NUL)"
| "strcasecmp0 (x # xs) (y # ys) =
     (if c_tolower (of_char x) \<noteq> c_tolower (of_char y) then False
      else if x = NUL then True else strcasecmp0 xs ys)"

definition dictSdsKeyCaseCompare :: "string \<Rightarrow> string \<Rightarrow> bool" where
  "dictSdsKeyCaseCompare key1 key2 = strcasecmp0 key1 key2"

definition dictSdsCaseHash :: "32 word \<Rightarrow> string \<Rightarrow> 32 word" where
  "dictSdsCaseHash seed key = dictGenCaseHashFunction seed key"

definition commandTableDictType :: "32 word \<Rightarrow> (string, 'v) dictType" where
  "commandTableDictType seed =
     \<lparr>hashFunction = dictSdsCaseHash seed, keyCompare = Some dictSdsKeyCaseCompare\<rparr>"

definition fold_case :: "string \<Rightarrow> int list" where
  "fold_case s = map (\<lambda>c. c_tolower (of_char c)) s"

lemma strcasecmp0_fold: "NUL \<notin> set a \<Longrightarrow> NUL \<notin> set b \<Longrightarrow> strcasecmp0 a b \<longleftrightarrow> fold_case a = fold_case b"
  by (induction a b rule: strcasecmp0.induct) (auto simp: fold_case_def)

lemma case_hash_fold: "fold_case a = fold_case b \<Longrightarrow> case_hash_loop a h = case_hash_loop b h"
proof (induction a arbitrary: b h)
  case Nil
  then show ?case by (simp add: fold_case_def)
next
  case (Cons x a)
  then obtain y b' where "b = y # b'" by (cases b) (auto simp: fold_case_def)
  with Cons show ?case by (simp add: fold_case_def)
qed

section \<open>String objects in either encoding\<close>

text \<open>A string object: an integer stored in the pointer, or the bytes of an sds.\<close>

datatype enc_obj = EncInt "64 word" | EncSds string

fun getDecoded :: "enc_obj \<Rightarrow> string" where
  "getDecoded (EncSds s) = s"
| "getDecoded (EncInt v) = (let (buf, len) = ll2string (replicate 32 NUL) 32 (sint v) in take len buf)"

fun dictEncObjKeyCompare :: "enc_obj \<Rightarrow> enc_obj \<Rightarrow> bool" where
  "dictEncObjKeyCompare (EncInt a) (EncInt b) = (a = b)"
| "dictEncObjKeyCompare o1 o2 = dictSdsKeyCompare (getDecoded o1) (getDecoded o2)"

fun dictEncObjHash :: "32 word \<Rightarrow> enc_obj \<Rightarrow> 32 word" where
  "dictEncObjHash seed (EncSds s) = dictGenHashFunction seed s"
| "dictEncObjHash seed (EncInt v) =
     (let (buf, len) = ll2string (replicate 32 NUL) 32 (sint v) in dictGenHashFunction seed (take len buf))"

definition setDictType :: "32 word \<Rightarrow> (enc_obj, 'v) dictType" where
  "setDictType seed = \<lparr>hashFunction = dictEncObjHash seed, keyCompare = Some dictEncObjKeyCompare\<rparr>"

lemma dictEncObjHash_decoded: "dictEncObjHash seed ob = dictGenHashFunction seed (getDecoded ob)"
  by (cases ob) (simp_all add: Let_def split: prod.split)

lemma sint_in_ll: "in_ll (sint (v :: 64 word))"
  using sint_greater_eq[of v] sint_less[of v] by simp

lemma getDecoded_int [simp]: "getDecoded (EncInt v) = dec_int (sint v)"
proof -
  note v = sint_in_ll[of v]
  obtain buf len where ll: "ll2string (replicate 32 NUL) 32 (sint v) = (buf, len)" by fastforce
  have "length (dec_int (sint v)) < 32" using length_dec_int[OF v] by simp
  from ll2string_fits(1,2)[OF v this, of "replicate 32 NUL"] ll
  have "take (Suc len) buf = dec_int (sint v) @ [NUL]" "len = length (dec_int (sint v))" by simp_all
  then have "take len (take (Suc len) buf) = dec_int (sint v)" by simp
  then show ?thesis by (simp add: ll)
qed

declare getDecoded.simps(2) [simp del]

text \<open>Two objects are the same key exactly when their bytes are, whatever the encodings.\<close>

lemma dictEncObjKeyCompare_decoded: "dictEncObjKeyCompare a b \<longleftrightarrow> getDecoded a = getDecoded b"
  by (induction a b rule: dictEncObjKeyCompare.induct) (simp_all add: dec_int_inj sint_in_ll word_eq_iff_signed)

lemma key_eq_set: "key_eq (setDictType seed) a b \<longleftrightarrow> getDecoded a = getDecoded b"
  by (simp add: key_eq_def setDictType_def dictEncObjKeyCompare_decoded)

interpretation set_keys: dict_keys "setDictType seed"
proof unfold_locales
  show "key_eq (setDictType seed) a b \<Longrightarrow> hashFunction (setDictType seed) a = hashFunction (setDictType seed) b"
    for a b
    unfolding key_eq_set by (simp add: setDictType_def dictEncObjHash_decoded)
qed (simp_all add: key_eq_set)

end
