(* ===== verification/DictHistory.thy ===== *)
theory DictHistory
  imports DictTypes
begin

text \<open>
  The contract of the hash table as a whole: whatever sequence of operations a client runs on a
  fresh dictionary, with whatever settings of the globals at each call, the answers are those of
  a finite map, and the dictionary that is left stands for that map. Below, the operations of
  \<open>Dict\<close> as commands, the map they are specified on, and the simulation, proved once for every
  dictionary type that satisfies \<open>dict_keys\<close>.
\<close>

section \<open>Resizing and clearing\<close>

lemma dictResize_spec:
  assumes "dict_inv d" "dictSize d \<le> 2 ^ 30" "dict_cap d \<le> 2 ^ 31"
  shows "\<exists>d' ok. dictResize g d = (d', ok) \<and> dict_inv d' \<and> dict_entries d' = dict_entries d \<and>
    dtype d' = dtype d \<and> iterators d' = iterators d \<and> dict_cap d' \<le> 2 ^ 31"
proof -
  let ?m = "if used (ht0 d) < DICT_HT_INITIAL_SIZE then DICT_HT_INITIAL_SIZE else used (ht0 d)"
  have le: "?m \<le> 2 ^ 31" "used (ht0 d) \<le> ?m" using assms(2) by (auto simp: dictSize_def)
  show ?thesis
  proof (cases "\<not> dict_can_resize g \<or> dictIsRehashing d \<or> dictNextPower ?m = size (ht0 d)")
    case True
    then have "dictResize g d = (d, False)"
      by (auto simp: dictResize_def dictExpand_def Let_def)
    with assms show ?thesis by (intro exI[of _ d] exI[of _ False]) simp
  next
    case False
    then have "dictResize g d = dictExpand d ?m" by (simp add: dictResize_def Let_def)
    with False dictExpand_spec[OF assms(1) le(1) _ le(2) _ assms(3)] show ?thesis by auto
  qed
qed

lemma dictClear_loop_all:
  "us = length (concat t) \<Longrightarrow> dictClear_loop t us = (0, concat t)"
  by (induction t arbitrary: us) (auto simp: Let_def)

lemma dictEmpty_spec:
  assumes "dict_inv d"
  shows "\<exists>d'. dictEmpty d = (d', dict_entries d) \<and> dict_inv d' \<and> dict_entries d' = [] \<and>
    dtype d' = dtype d \<and> dict_cap d' = 0"
proof -
  have "ht_inv (dtype d) (ht0 d)" "ht_inv (dtype d) (ht1 d)" using assms by (auto simp: dict_inv_def)
  then have "used (ht0 d) = length (concat (table (ht0 d)))" "used (ht1 d) = length (concat (table (ht1 d)))"
    using ht_inv_used by (force simp: ht_entries_def)+
  then show ?thesis
    by (simp add: dictEmpty_def dictClear_loop_all dict_entries_def ht_entries_def[symmetric]
        dict_inv_def dict_cap_def)
qed

lemma dictCreate_inv [simp]:
  "dict_inv (dictCreate ty)" "dtype (dictCreate ty) = ty" "dict_entries (dictCreate ty) = []"
  "dictSize (dictCreate ty) = 0" "dict_cap (dictCreate ty) = 0"
  by (simp_all add: dictCreate_def dict_inv_def dict_entries_def dictSize_def dict_cap_def)

section \<open>Histories\<close>

datatype ('k, 'v) dict_op =
    OpAdd 'k 'v | OpReplace 'k 'v | OpReplaceRaw 'k 'v | OpDelete 'k | OpFetch 'k | OpSize
  | OpRehash nat | OpResize | OpEmpty

datatype 'v dict_answer = AFlag bool | AValue "'v option" | ASize nat | ANone

fun run_op :: "dict_globals \<Rightarrow> ('k, 'v) dict \<Rightarrow> ('k, 'v) dict_op \<Rightarrow>
    (('k, 'v) dict \<times> 'v dict_answer) option" where
  "run_op g d (OpAdd k v) = map_option (map_prod id AFlag) (dictAdd g d k v)"
| "run_op g d (OpReplace k v) = map_option (map_prod id AFlag) (dictReplace g d k v)"
| "run_op g d (OpReplaceRaw k v) = map_option (\<lambda>d. (d, ANone)) (dictReplaceRaw g d k v)"
| "run_op g d (OpDelete k) = map_option (map_prod id AFlag) (dictDelete g d k)"
| "run_op g d (OpFetch k) = map_option (map_prod id AValue) (dictFetchValue g d k)"
| "run_op g d OpSize = Some (d, ASize (dictSize d))"
| "run_op g d (OpRehash n) = map_option (\<lambda>r. (fst r, ANone)) (dictRehash g d n)"
| "run_op g d OpResize = Some (fst (dictResize g d), ANone)"
| "run_op g d OpEmpty = Some (fst (dictEmpty d), ANone)"

fun run_ops :: "('k, 'v) dict \<Rightarrow> (dict_globals \<times> ('k, 'v) dict_op) list \<Rightarrow>
    (('k, 'v) dict \<times> 'v dict_answer list) option" where
  "run_ops d [] = Some (d, [])"
| "run_ops d ((g, x) # ops) =
     do {
       (d, a) \<leftarrow> run_op g d x;
       (d, as) \<leftarrow> run_ops d ops;
       Some (d, a # as)
     }"

text \<open>The specification: a map on representatives of the keys, \<open>rep\<close> being the identity for sds
  keys and the decoded bytes for string objects.\<close>

fun spec_op :: "('k \<Rightarrow> 'r) \<Rightarrow> ('r \<rightharpoonup> 'v) \<Rightarrow> ('k, 'v) dict_op \<Rightarrow> ('r \<rightharpoonup> 'v) \<times> 'v dict_answer" where
  "spec_op rep m (OpAdd k v) =
     (if m (rep k) = None then (m(rep k \<mapsto> v), AFlag True) else (m, AFlag False))"
| "spec_op rep m (OpReplace k v) = (m(rep k \<mapsto> v), AFlag (m (rep k) = None))"
| "spec_op rep m (OpReplaceRaw k v) = (m(rep k \<mapsto> v), ANone)"
| "spec_op rep m (OpDelete k) = (m(rep k := None), AFlag (m (rep k) \<noteq> None))"
| "spec_op rep m (OpFetch k) = (m, AValue (m (rep k)))"
| "spec_op rep m OpSize = (m, ASize (card (dom m)))"
| "spec_op rep m (OpRehash n) = (m, ANone)"
| "spec_op rep m OpResize = (m, ANone)"
| "spec_op rep m OpEmpty = (Map.empty, ANone)"

fun spec_ops :: "('k \<Rightarrow> 'r) \<Rightarrow> ('r \<rightharpoonup> 'v) \<Rightarrow> (dict_globals \<times> ('k, 'v) dict_op) list \<Rightarrow>
    ('r \<rightharpoonup> 'v) \<times> 'v dict_answer list" where
  "spec_ops rep m [] = (m, [])"
| "spec_ops rep m ((g, x) # ops) =
     (let (m, a) = spec_op rep m x; (m, as) = spec_ops rep m ops in (m, a # as))"

section \<open>The simulation\<close>

locale dict_rep =
  fixes ty :: "('k, 'v) dictType" and rep :: "'k \<Rightarrow> 'r"
  assumes rep_eq: "key_eq ty a b \<longleftrightarrow> rep a = rep b"
    and rep_hash: "rep a = rep b \<Longrightarrow> hashFunction ty a = hashFunction ty b"

sublocale dict_rep \<subseteq> dict_keys ty
  by unfold_locales (auto simp: rep_eq dest: rep_hash)

definition stands_for :: "('k \<Rightarrow> 'r) \<Rightarrow> ('k, 'v) dict \<Rightarrow> ('r \<rightharpoonup> 'v) \<Rightarrow> bool" where
  \<comment> \<open>the keys of the map are the representatives of the keys of the dictionary\<close>
  "stands_for rep d m \<longleftrightarrow> (\<forall>k. dict_map d k = m (rep k)) \<and> dom m \<subseteq> range rep"

definition sim :: "('k, 'v) dictType \<Rightarrow> ('k \<Rightarrow> 'r) \<Rightarrow> nat \<Rightarrow> ('k, 'v) dict \<Rightarrow> ('r \<rightharpoonup> 'v) \<Rightarrow> bool" where
  "sim ty rep n d m \<longleftrightarrow>
     dict_inv d \<and> dtype d = ty \<and> dictSize d \<le> n \<and> dict_cap d \<le> 2 ^ 31 \<and> stands_for rep d m"

context dict_rep
begin

lemma dictSize_card:
  assumes "dict_inv d" "dtype d = ty" "stands_for rep d m"
  shows "dictSize d = card (dom m)"
proof -
  have "dom m = (rep \<circ> fst) ` set (dict_entries d)"
  proof
    show "dom m \<subseteq> (rep \<circ> fst) ` set (dict_entries d)"
    proof
      fix r assume r: "r \<in> dom m"
      then obtain k where k: "r = rep k" using assms(3) by (auto simp: stands_for_def)
      with r obtain v where "dict_map d k = Some v" using assms(3) by (auto simp: stands_for_def)
      then obtain a where "(a, v) \<in> set (dict_entries d)" "rep k = rep a"
        using assms(1,2) by (auto simp: dict_map_Some rep_eq)
      with k show "r \<in> (rep \<circ> fst) ` set (dict_entries d)" by force
    qed
    show "(rep \<circ> fst) ` set (dict_entries d) \<subseteq> dom m"
    proof
      fix r assume "r \<in> (rep \<circ> fst) ` set (dict_entries d)"
      then obtain a v where "(a, v) \<in> set (dict_entries d)" "r = rep a" by auto
      moreover from this have "dict_map d a = Some v" using assms(1,2) by (auto simp: dict_map_Some rep_eq)
      ultimately show "r \<in> dom m" using assms(3) by (auto simp: stands_for_def)
    qed
  qed
  moreover have "distinct (map (rep \<circ> fst) (dict_entries d))"
  proof -
    have "distinct (map (key_class ty \<circ> fst) (dict_entries d))" using assms(1,2) by (simp add: dict_inv_def)
    moreover have "key_class ty a = key_class ty b \<longleftrightarrow> rep a = rep b" for a b
      using rep_eq[of a b] key_eq_iff[of a b] by simp
    ultimately show ?thesis by (simp add: distinct_map inj_on_def)
  qed
  then have "card ((rep \<circ> fst) ` set (dict_entries d)) = length (dict_entries d)"
    by (metis distinct_card length_map list.set_map)
  ultimately show ?thesis using dictSize_entries[OF assms(1)] by simp
qed

lemma stands_for_upd:
  "stands_for rep d m \<Longrightarrow> dict_map d' = (\<lambda>x. if key_eq ty k x then Some v else dict_map d x) \<Longrightarrow>
   stands_for rep d' (m(rep k \<mapsto> v))"
  by (auto simp: stands_for_def rep_eq)

lemma stands_for_del:
  "stands_for rep d m \<Longrightarrow> dict_map d' = (\<lambda>x. if key_eq ty k x then None else dict_map d x) \<Longrightarrow>
   stands_for rep d' (m(rep k := None))"
  by (auto simp: stands_for_def rep_eq)

lemma sim_same:
  assumes "sim ty rep n d m" "same_dict d d'"
  shows "sim ty rep n d' m"
proof -
  have "dict_inv d" "dtype d = ty" "dict_inv d'" "dtype d' = ty" "mset (dict_entries d') = mset (dict_entries d)"
    using assms by (auto simp: sim_def same_dict_def)
  then have "dict_map d' = dict_map d" by (intro dict_map_mset)
  with assms same_dict_size[of d d'] show ?thesis by (auto simp: sim_def same_dict_def stands_for_def)
qed

lemma sim_entries:
  assumes "sim ty rep n d m" "dict_inv d'" "dict_entries d' = dict_entries d" "dtype d' = dtype d"
    "dict_cap d' \<le> 2 ^ 31"
  shows "sim ty rep n d' m"
proof -
  have "dictSize d' = dictSize d" using assms dictSize_entries by (metis sim_def)
  moreover have "dict_map d' = dict_map d" using assms by (simp add: fun_eq_iff dict_map_def)
  ultimately show ?thesis using assms by (simp add: sim_def stands_for_def)
qed

end

context dict_rep
begin

lemma run_op_update:
  assumes "sim ty rep n d m" "n \<le> 2 ^ 30"
  shows "\<exists>d'. run_op g d (OpAdd k v) = Some (d', snd (spec_op rep m (OpAdd k v))) \<and>
      sim ty rep (Suc n) d' (fst (spec_op rep m (OpAdd k v)))"
    and "\<exists>d'. run_op g d (OpReplace k v) = Some (d', snd (spec_op rep m (OpReplace k v))) \<and>
      sim ty rep (Suc n) d' (fst (spec_op rep m (OpReplace k v)))"
    and "\<exists>d'. run_op g d (OpReplaceRaw k v) = Some (d', snd (spec_op rep m (OpReplaceRaw k v))) \<and>
      sim ty rep (Suc n) d' (fst (spec_op rep m (OpReplaceRaw k v)))"
proof -
  have inv: "dict_inv d" "dtype d = ty" "dictSize d \<le> 2 ^ 30" "dict_cap d \<le> 2 ^ 31" "dictSize d \<le> n"
    "stands_for rep d m" using assms by (auto simp: sim_def)
  have at: "dict_map d k = m (rep k)" using inv(6) by (simp add: stands_for_def)
  show "\<exists>d'. run_op g d (OpAdd k v) = Some (d', snd (spec_op rep m (OpAdd k v))) \<and>
      sim ty rep (Suc n) d' (fst (spec_op rep m (OpAdd k v)))"
  proof (cases "m (rep k)")
    case None
    with dictAddRaw_spec[OF inv(1-4), of g k v] at inv(5) stands_for_upd[OF inv(6)] show ?thesis
      by (auto simp: sim_def dictAdd_def)
  next
    case (Some w)
    with dictAddRaw_spec[OF inv(1-4), of g k v] at inv(5,6) show ?thesis
      by (auto simp: sim_def dictAdd_def stands_for_def)
  qed
  have size: "s = (if m (rep k) = None then dictSize d + 1 else dictSize d) \<Longrightarrow> s \<le> Suc n" for s
    using inv(5) by (auto split: if_splits)
  show "\<exists>d'. run_op g d (OpReplace k v) = Some (d', snd (spec_op rep m (OpReplace k v))) \<and>
      sim ty rep (Suc n) d' (fst (spec_op rep m (OpReplace k v)))"
    using dictReplace_spec[OF inv(1-4), of g k v] stands_for_upd[OF inv(6)] size
    by (auto simp: sim_def at)
  show "\<exists>d'. run_op g d (OpReplaceRaw k v) = Some (d', snd (spec_op rep m (OpReplaceRaw k v))) \<and>
      sim ty rep (Suc n) d' (fst (spec_op rep m (OpReplaceRaw k v)))"
    using dictReplaceRaw_spec[OF inv(1-4), of g k v] stands_for_upd[OF inv(6)] size
    by (auto simp: sim_def at)
qed

lemma run_op_sim:
  assumes s: "sim ty rep n d m" and n: "n \<le> 2 ^ 30"
  shows "\<exists>d'. run_op g d x = Some (d', snd (spec_op rep m x)) \<and> sim ty rep (Suc n) d' (fst (spec_op rep m x))"
proof (cases x)
  case (OpAdd k v)
  with run_op_update(1)[OF assms] show ?thesis by simp
next
  case (OpReplace k v)
  with run_op_update(2)[OF assms] show ?thesis by simp
next
  case (OpReplaceRaw k v)
  with run_op_update(3)[OF assms] show ?thesis by simp
next
  case (OpDelete k)
  have inv: "dict_inv d" "dtype d = ty" "stands_for rep d m" using s by (auto simp: sim_def)
  then have "dict_map d k = m (rep k)" by (simp add: stands_for_def)
  with dictGenericDelete_spec[OF inv(1,2), of g k] s stands_for_del[OF inv(3)] OpDelete show ?thesis
    by (auto simp: sim_def dictDelete_def)
next
  case (OpFetch k)
  have inv: "dict_inv d" "dtype d = ty" "dict_map d k = m (rep k)"
    using s by (auto simp: sim_def stands_for_def)
  obtain d' where "dictFetchValue g d k = Some (d', dict_map d k)" "same_dict d d'"
    using dictFetchValue_spec[OF inv(1,2), of g k] by blast
  with sim_same[OF s] inv(3) OpFetch show ?thesis by (fastforce simp: sim_def)
next
  case OpSize
  with s dictSize_card[of d m] show ?thesis by (auto simp: sim_def)
next
  case (OpRehash j)
  obtain d' more where "dictRehash g d j = Some (d', more)" "same_dict d d'"
    using dictRehash_spec[of d g j] s by (auto simp: sim_def)
  with sim_same[OF s] OpRehash show ?thesis by (fastforce simp: sim_def)
next
  case OpResize
  have "dict_inv d" "dictSize d \<le> 2 ^ 30" "dict_cap d \<le> 2 ^ 31" using s n by (auto simp: sim_def)
  then obtain d' ok where "dictResize g d = (d', ok)" "dict_inv d'" "dict_entries d' = dict_entries d"
    "dtype d' = dtype d" "dict_cap d' \<le> 2 ^ 31" using dictResize_spec by metis
  with sim_entries[OF s] OpResize show ?thesis by (fastforce simp: sim_def)
next
  case OpEmpty
  have "dict_inv d" using s by (simp add: sim_def)
  from dictEmpty_spec[OF this] s OpEmpty show ?thesis
    by (auto simp: sim_def stands_for_def dict_map_def dictSize_entries)
qed

lemma run_ops_sim:
  "sim ty rep n d m \<Longrightarrow> n + length ops \<le> 2 ^ 30 \<Longrightarrow>
   \<exists>d'. run_ops d ops = Some (d', snd (spec_ops rep m ops)) \<and>
     sim ty rep (n + length ops) d' (fst (spec_ops rep m ops))"
proof (induction ops arbitrary: n d m)
  case (Cons o' ops)
  obtain g x where o': "o' = (g, x)" by fastforce
  obtain d1 where d1: "run_op g d x = Some (d1, snd (spec_op rep m x))"
    "sim ty rep (Suc n) d1 (fst (spec_op rep m x))"
    using run_op_sim[OF Cons.prems(1), of g x] Cons.prems(2) by auto
  from Cons.IH[OF d1(2)] Cons.prems(2) d1(1) show ?case
    by (auto simp: o' Let_def split: prod.splits)
qed simp

lemma run_ops_fresh:
  "length ops \<le> 2 ^ 30 \<Longrightarrow>
   \<exists>d'. run_ops (dictCreate ty) ops = Some (d', snd (spec_ops rep Map.empty ops)) \<and>
     dict_inv d' \<and> stands_for rep d' (fst (spec_ops rep Map.empty ops))"
  using run_ops_sim[of 0 "dictCreate ty" Map.empty ops]
  by (auto simp: sim_def stands_for_def dict_map_def)

end

interpretation db_rep: dict_rep "dbDictType seed" id
  by unfold_locales simp_all

interpretation set_rep: dict_rep "setDictType seed" getDecoded
proof unfold_locales
  show "getDecoded a = getDecoded b \<Longrightarrow>
      hashFunction (setDictType seed) a = hashFunction (setDictType seed) b" for a b
    by (simp add: setDictType_def dictEncObjHash_decoded)
qed (rule key_eq_set)

section \<open>Progress of the rehashing\<close>

text \<open>\<open>further d d'\<close>: the rehashing of \<open>d\<close> is over in \<open>d'\<close>, or its index has moved on.\<close>

definition further :: "bool \<Rightarrow> ('k, 'v) dict \<Rightarrow> ('k, 'v) dict \<Rightarrow> bool" where
  "further strict d d' \<longleftrightarrow>
     \<not> dictIsRehashing d' \<or>
     (size (ht0 d') = size (ht0 d) \<and> rehashidx d \<le> rehashidx d' \<and> (strict \<longrightarrow> rehashidx d < rehashidx d'))"

lemma move_chain_keeps:
  "move_chain d chain = Some d' \<Longrightarrow> rehashidx d' = rehashidx d \<and> size (ht0 d') = size (ht0 d)"
  by (induction chain arbitrary: d) (auto simp: bind_eq_Some_conv move_entry_def Let_def)

lemma rehash_skip_further:
  "rehash_skip d ev = Some r \<Longrightarrow>
   case r of
     SkipReturn e \<Rightarrow> size (ht0 e) = size (ht0 d) \<and> rehashidx d < rehashidx e
   | SkipFound e _ \<Rightarrow> size (ht0 e) = size (ht0 d) \<and> rehashidx d \<le> rehashidx e"
proof (induction d ev arbitrary: r rule: rehash_skip.induct)
  case (1 d ev)
  show ?case using "1.prems" "1.IH"
    by (subst (asm) rehash_skip.simps)
      (fastforce simp: Let_def split: option.splits if_splits skip_result.splits)
qed

lemma rehash_loop_further:
  "rehash_loop d n ev = Some (d', b) \<Longrightarrow> 0 \<le> rehashidx d \<Longrightarrow> further (0 < n) d d'"
proof (induction n arbitrary: d ev)
  case 0
  then show ?case by (auto simp: rehash_finish_def further_def dictIsRehashing_def split: if_splits)
next
  case (Suc n)
  show ?case
  proof (cases "used (ht0 d) = 0")
    case True
    with Suc.prems show ?thesis
      by (auto simp: rehash_finish_def further_def dictIsRehashing_def split: if_splits)
  next
    case False
    with Suc.prems obtain r where r: "rehash_skip d ev = Some r"
      "(case r of SkipReturn d \<Rightarrow> Some (d, True)
        | SkipFound d ev \<Rightarrow> do { chain \<leftarrow> bucket (ht0 d) (nat (rehashidx d)); d' \<leftarrow> move_chain d chain;
            rehash_loop (d'\<lparr>ht0 := (ht0 d')\<lparr>table := (table (ht0 d'))[nat (rehashidx d') := []]\<rparr>,
              rehashidx := rehashidx d' + 1\<rparr>) n ev }) = Some (d', b)"
      by (auto simp: bind_eq_Some_conv split: if_splits)
    note far = rehash_skip_further[OF r(1)]
    show ?thesis
    proof (cases r)
      case (SkipReturn e)
      with r far show ?thesis by (simp add: further_def)
    next
      case (SkipFound e ev')
      with r(2) obtain chain f where f: "move_chain e chain = Some f"
        "rehash_loop (f\<lparr>ht0 := (ht0 f)\<lparr>table := (table (ht0 f))[nat (rehashidx f) := []]\<rparr>,
           rehashidx := rehashidx f + 1\<rparr>) n ev' = Some (d', b)"
        by (auto simp: bind_eq_Some_conv)
      show ?thesis
        using Suc.IH[OF f(2)] move_chain_keeps[OF f(1)] Suc.prems(2) far SkipFound
        by (auto simp: further_def)
    qed
  qed
qed

lemma dictRehash_further:
  "dictRehash g d n = Some (d', b) \<Longrightarrow> \<not> g_IsForkedProcess g \<Longrightarrow> dict_inv d \<Longrightarrow> further (0 < n) d d'"
  using rehash_loop_further[of d n "n * 10" d' b]
  by (auto simp: dictRehash_def further_def dictIsRehashing_def dict_inv_def split: if_splits)

lemma rehash_ms_loop_spec:
  assumes "dict_inv d" "dictIsRehashing d \<longrightarrow> size (ht0 d) < fuel + nat (rehashidx d)" "0 < fuel"
    and g: "\<not> g_IsForkedProcess g"
  shows "\<exists>d' n. rehash_ms_loop g clock ms d turns fuel = Some (d', n) \<and> same_dict d d' \<and>
    (dictIsRehashing d' \<longrightarrow> (\<exists>i. clock i - clock 0 > ms))"
  using assms(1-3)
proof (induction fuel arbitrary: d turns)
  case (Suc fuel)
  obtain e b where e: "dictRehash g d 100 = Some (e, b)" "same_dict d e" "b \<longleftrightarrow> dictIsRehashing e"
    using dictRehash_spec[OF Suc.prems(1), of g 100] g by blast
  have "dict_inv e" using e(2) by (simp add: same_dict_def)
  show ?case
  proof (cases "b \<and> \<not> clock (Suc turns) - clock 0 > ms")
    case True
    have f: "further True d e" using dictRehash_further[OF e(1) g Suc.prems(1)] by simp
    have reh: "dictIsRehashing d"
      using dictRehash_spec[OF Suc.prems(1), of g 100] e True by (auto simp: g)
    have "0 \<le> rehashidx d" "rehashidx e \<le> int (size (ht0 e))"
      using rehash_inv[OF Suc.prems(1)] rehash_inv[OF \<open>dict_inv e\<close>] reh True e(3)
      by (auto simp: dictIsRehashing_def)
    then have "size (ht0 e) < fuel + nat (rehashidx e)" "0 < fuel"
      using f Suc.prems(2) reh True e(3) by (auto simp: further_def)
    with Suc.IH[of e "Suc turns"] \<open>dict_inv e\<close> e True show ?thesis
      by (auto intro: same_dict_trans)
  next
    case False
    with e show ?thesis by auto
  qed
qed simp

lemma dictRehashMilliseconds_spec:
  "dict_inv d \<Longrightarrow> \<not> g_IsForkedProcess g \<Longrightarrow>
   \<exists>d' n. dictRehashMilliseconds g clock d ms = Some (d', n) \<and> same_dict d d' \<and>
    (dictIsRehashing d' \<longrightarrow> (\<exists>i. clock i - clock 0 > ms))"
  unfolding dictRehashMilliseconds_def by (rule rehash_ms_loop_spec) auto

end
