(* ===== verification/DictProps.thy ===== *)
theory DictProps
  imports DictHistory
begin

text \<open>
  The properties of the hash table, on the dictionary types Redis uses: the facts of
  \<open>DictHistory\<close> and \<open>DictInv\<close>, read through the interpretations of their locales.
\<close>

unbundle bit_operations_syntax

section \<open>Globals for the examples\<close>

definition can_resize :: dict_globals where
  "can_resize = \<lparr>dict_can_resize = True, g_IsForkedProcess = False\<rparr>"

section \<open>The hash table is a finite map\<close>

text \<open>C1: any history of adds, replaces, deletes, lookups, rehashing steps, resizes and clears on a
  fresh keyspace dictionary runs without a fault, gives the answers a finite map gives, and
  leaves a dictionary that satisfies the invariant and stands for that map.\<close>

theorem dict_implements_map:
  assumes "length ops \<le> 2 ^ 30"
  shows "\<exists>d. run_ops (dictCreate (dbDictType seed)) ops = Some (d, snd (spec_ops id Map.empty ops)) \<and>
    dict_inv d \<and> dict_map d = fst (spec_ops id Map.empty ops)"
  using db_rep.run_ops_fresh[OF assms, of seed] by (auto simp: stands_for_def fun_eq_iff)

theorem dict_implements_map_witness:
  "\<exists>d. run_ops (dictCreate (dbDictType 7))
     [(can_resize, OpAdd ''a'' (1 :: nat)), (can_resize, OpAdd ''a'' 2), (can_resize, OpReplace ''b'' 3),
      (can_resize, OpDelete ''a''), (can_resize, OpRehash 1), (can_resize, OpFetch ''b''), (can_resize, OpFetch ''a'')] =
     Some (d, [AFlag True, AFlag False, AFlag True, AFlag True, ANone, AValue (Some 3), AValue None]) \<and>
     dict_inv d \<and> dict_map d = [''b'' \<mapsto> 3]"
  using dict_implements_map[of "[(can_resize, OpAdd ''a'' (1 :: nat)), (can_resize, OpAdd ''a'' 2),
      (can_resize, OpReplace ''b'' 3), (can_resize, OpDelete ''a''), (can_resize, OpRehash 1),
      (can_resize, OpFetch ''b''), (can_resize, OpFetch ''a'')]" 7]
  by simp

text \<open>C2: the same for the dictionaries of sets, hashes and sorted sets, whose keys are string
  objects: the map is on the bytes of the objects, so that an integer object and an sds
  object that print alike are one key.\<close>

theorem set_dict_implements_map:
  assumes "length ops \<le> 2 ^ 30"
  shows "\<exists>d. run_ops (dictCreate (setDictType seed)) ops = Some (d, snd (spec_ops getDecoded Map.empty ops)) \<and>
    dict_inv d \<and> (\<forall>k. dict_map d k = fst (spec_ops getDecoded Map.empty ops) (getDecoded k))"
  using set_rep.run_ops_fresh[OF assms, of seed] by (auto simp: stands_for_def)

theorem set_dict_implements_map_witness:
  "\<exists>d. run_ops (dictCreate (setDictType 7))
     [(can_resize, OpAdd (EncInt 12) ()), (can_resize, OpAdd (EncSds ''12'') ()), (can_resize, OpSize)] =
     Some (d, [AFlag True, AFlag False, ASize 1])"
proof -
  have "dec_int 12 = ''12''" by code_simp
  then have "getDecoded (EncInt 12) = ''12''" by simp
  then show ?thesis
    using set_dict_implements_map[of "[(can_resize, OpAdd (EncInt 12) ()), (can_resize, OpAdd (EncSds ''12'') ()),
      (can_resize, OpSize)]" 7] by auto
qed

section \<open>Incremental rehashing\<close>

text \<open>C5: a call of dictRehash, at any moment and for any number of steps, never indexes a table
  out of bounds nor trips its assertion, loses or duplicates no entry, and answers whether
  work is left; in a forked child of the Windows build it does nothing.\<close>

theorem dictRehash_preserves:
  assumes "dict_inv d" "dtype d = dbDictType seed"
  shows "\<exists>d' left. dictRehash g d n = Some (d', left) \<and> dict_inv d' \<and>
    mset (dict_entries d') = mset (dict_entries d) \<and> dict_map d' = dict_map d \<and>
    (if g_IsForkedProcess g then d' = d \<and> \<not> left else left = dictIsRehashing d')"
proof -
  obtain d' left where d': "dictRehash g d n = Some (d', left)" "same_dict d d'"
    "\<not> g_IsForkedProcess g \<longrightarrow> (left \<longleftrightarrow> dictIsRehashing d')"
    using dictRehash_spec[OF assms(1), of g n] by blast
  have "dict_map d' = dict_map d"
    using d'(2) assms by (intro db_keys.dict_map_mset) (auto simp: same_dict_def)
  with d' show ?thesis by (auto simp: same_dict_def dictRehash_def)
qed

theorem dictRehash_preserves_witness:
  "\<exists>d' left. dictRehash can_resize (dictCreate (dbDictType 7) :: (string, nat) dict) 1 = Some (d', left) \<and>
     dict_map d' = Map.empty"
  using dictRehash_preserves[of "dictCreate (dbDictType 7) :: (string, nat) dict" 7 can_resize 1]
  by (auto simp: dict_map_def fun_eq_iff)

text \<open>C6: dictRehashMilliseconds always returns, within one turn per bucket of the table it empties,
  and it returns with the rehashing over unless the clock says that the time is up.\<close>

theorem dictRehashMilliseconds_ends:
  assumes "dict_inv d" "\<not> g_IsForkedProcess g"
  shows "\<exists>d' n. dictRehashMilliseconds g clock d ms = Some (d', n) \<and> dict_inv d' \<and>
    mset (dict_entries d') = mset (dict_entries d) \<and>
    (dictIsRehashing d' \<longrightarrow> (\<exists>i. clock i - clock 0 > ms))"
  using dictRehashMilliseconds_spec[OF assms, of clock ms] by (auto simp: same_dict_def)

definition full_dict :: "(string, nat) dict" where
  \<comment> \<open>five entries, added in turn: the fifth starts the move from four to eight buckets\<close>
  "full_dict = fst (the (run_ops (dictCreate (dbDictType 7))
     (map (\<lambda>k. (can_resize, OpAdd [k] 0)) ''abcde'')))"

lemma full_dict_inv: "dict_inv full_dict"
  using db_rep.run_ops_fresh[of "map (\<lambda>k. (can_resize, OpAdd [k] (0 :: nat))) ''abcde''" 7]
  by (auto simp: full_dict_def)

theorem dictRehashMilliseconds_ends_witness:
  "\<exists>d' n. dictRehashMilliseconds can_resize int full_dict 5 = Some (d', n) \<and> dict_inv d'"
  using dictRehashMilliseconds_ends[OF full_dict_inv, of can_resize int 5]
  by (auto simp: can_resize_def)

section \<open>Sizes and keys\<close>

text \<open>dictNextPower returns the least power of two, from 4 on, that holds the requested size.\<close>

theorem dictNextPower_least:
  assumes "sz < PORT_LONG_MAX"
  shows "\<exists>n \<ge> 2. dictNextPower sz = 2 ^ n \<and> sz \<le> dictNextPower sz \<and>
    (\<forall>m. 2 \<le> m \<and> sz \<le> 2 ^ m \<longrightarrow> dictNextPower sz \<le> 2 ^ m)"
proof -
  obtain n where n: "n \<ge> 2" "dictNextPower sz = 2 ^ n" "sz \<le> 2 ^ n" "n = 2 \<or> 2 ^ (n - 1) < sz"
    using dictNextPower_spec[OF assms] by blast
  have "n \<le> m" if "2 \<le> m" "sz \<le> 2 ^ m" for m
  proof (rule ccontr)
    assume "\<not> n \<le> m"
    then have "(2 :: nat) ^ m \<le> 2 ^ (n - 1)" by (intro power_increasing) auto
    with n(4) that \<open>\<not> n \<le> m\<close> have "sz \<le> 2 ^ (n - 1) \<and> 2 ^ (n - 1) < sz" by linarith
    then show False by linarith
  qed
  with n show ?thesis by (auto intro: power_increasing)
qed

theorem dictNextPower_least_witness: "\<exists>n \<ge> 2. dictNextPower 1025 = 2 ^ n \<and> 1025 \<le> dictNextPower 1025"
  using dictNextPower_least[of 1025] by auto

text \<open>the comparison and the hash of string objects see only their bytes, whichever of the two
  objects holds an integer: the fast path that compares two integers agrees with comparing
  their decimal strings, and the hash of an integer is the hash of its decimal string.\<close>

theorem enc_obj_compare_hash:
  "dictEncObjKeyCompare a b = (getDecoded a = getDecoded b) \<and>
   dictEncObjHash seed a = dictGenHashFunction seed (getDecoded a)"
  by (simp add: dictEncObjKeyCompare_decoded dictEncObjHash_decoded)

text \<open>the case-insensitive key type of the command table does not satisfy what the hash table
  relies on: its comparison stops at a NUL byte and its hash does not, so that two keys can
  be equal and have different hashes, whatever the seed.\<close>

theorem case_compare_breaks_hash:
  "\<exists>a b. dictSdsKeyCaseCompare a b \<and> dictSdsCaseHash seed a \<noteq> dictSdsCaseHash seed b"
proof (intro exI conjI)
  show "dictSdsKeyCaseCompare [CHR ''a'', NUL, CHR ''b''] [CHR ''a'', NUL, CHR ''c'']"
    by (simp add: dictSdsKeyCaseCompare_def)
  show "dictSdsCaseHash seed [CHR ''a'', NUL, CHR ''b''] \<noteq> dictSdsCaseHash seed [CHR ''a'', NUL, CHR ''c'']"
    by (simp add: dictSdsCaseHash_def dictGenCaseHashFunction_def c_tolower_def)
qed


section \<open>The cursor iteration\<close>

text \<open>C3: SCAN's guarantee. Whatever happens to the dictionary between the calls of an iteration
  from cursor 0 back to cursor 0 (insertions, deletions, rehashing steps, growth), a key that is
  there at every call is returned by one of them, provided that no call meets a table on its
  way to a smaller size than the cursor it resumes from.\<close>

theorem dictScan_guarantee:
  assumes "scan_calls ds 0 = Some (es, 0)" "ds \<noteq> []" "scan_fits ds 0"
    and "\<forall>d \<in> set ds. dict_inv d \<and> dtype d = dbDictType seed \<and> dict_cap d \<le> 2 ^ 31 \<and> dict_map d k \<noteq> None"
  shows "k \<in> fst ` set es"
  using db_keys.scan_calls_cover[of ds 0 es seed k] assms by auto

definition table16 :: "(string, nat) dict" where
  \<comment> \<open>sixteen buckets, one key, in bucket 4\<close>
  "table16 = \<lparr>dtype = dbDictType 7,
     ht0 = \<lparr>table = (replicate 16 [])[4 := [(''j'', 1)]], size = 16, sizemask = 15, used = 1\<rparr>,
     ht1 = dictReset, rehashidx = -1, iterators = 0\<rparr>"

lemma table16_inv: "dict_inv table16" "dict_cap table16 = 16" "small_size table16 = 16"
  "dict_map table16 = [''j'' \<mapsto> 1]" "dtype table16 = dbDictType 7"
proof -
  have "dictSdsHash 7 ''j'' AND 15 = 4" by code_simp
  then have "unat (dictSdsHash 7 ''j'' AND 15) = 4" by simp
  then have "slot (dbDictType 7) (ht0 table16) ''j'' = 4"
    by (simp add: slot_def table16_def dbDictType_def unsigned_and_eq)
  moreover have "(\<exists>n. 16 = (2 :: nat) ^ n)" by (rule exI[of _ 4]) simp
  moreover have ents: "ht_entries (ht0 table16) = [(''j'', 1)]"
    unfolding ht_entries_def table16_def by code_simp
  ultimately have "ht_inv (dbDictType 7) (ht0 table16)"
    by (auto simp: ht_inv_def table16_def nth_list_update split: if_splits)
  moreover have "dict_entries table16 = [(''j'', 1)]"
    unfolding dict_entries_def ents by (simp add: table16_def)
  moreover have "dtype table16 = dbDictType 7" "ht1 table16 = dictReset" "rehashidx table16 = -1"
    by (simp_all add: table16_def)
  ultimately show "dict_inv table16" "dict_map table16 = [''j'' \<mapsto> 1]"
    by (auto simp: dict_inv_def dict_map_def)
  show "dict_cap table16 = 16" "small_size table16 = 16" "dtype table16 = dbDictType 7"
    by (simp_all add: dict_cap_def small_size_def table16_def dictIsRehashing_def)
qed

text \<open>an iteration over a table that does not change ends, after exactly one call for each bucket
  of the table (of the smaller one during a rehashing).\<close>

theorem dictScan_ends:
  assumes "dict_inv d" "dict_cap d \<le> 2 ^ 31" "dictSize d > 0"
  shows "\<exists>es. scan_calls (replicate (small_size d) d) 0 = Some (es, 0) \<and> set es \<subseteq> set (dict_entries d)"
proof -
  obtain n es where n: "n \<le> 31" "small_size d = 2 ^ n"
    using dictScan_call[OF assms, of 0] by blast
  then obtain es where es: "scan_calls (replicate (small_size d) d) 0 = Some (es, 0)"
    using scan_calls_replicate[OF assms n(2,1), of 0 "2 ^ n" 0] by auto
  moreover have "set es \<subseteq> set (dict_entries d)"
    using scan_calls_sound[OF es] assms by auto
  ultimately show ?thesis by blast
qed

theorem dictScan_ends_witness:
  "\<exists>es. scan_calls (replicate 16 table16) 0 = Some (es, 0)"
  using dictScan_ends[of table16] table16_inv by (auto simp: dictSize_def table16_def)

theorem dictScan_guarantee_witness:
  "\<exists>es. scan_calls (replicate 16 table16) 0 = Some (es, 0) \<and> ''j'' \<in> fst ` set es"
proof -
  have "dictSize table16 > 0" by (simp add: dictSize_def table16_def)
  then obtain es where es: "scan_calls (replicate 16 table16) 0 = Some (es, 0)"
    using scan_calls_replicate[of table16 4 0 16 0] table16_inv by auto
  have "scan_fits (replicate 16 table16) 0"
    using table16_inv \<open>dictSize table16 > 0\<close> by (intro growing_scan_fits) (auto simp: sorted_replicate)
  with es show ?thesis
    using dictScan_guarantee[OF es, of 7 "''j''"] table16_inv by auto
qed

definition table16_shrinking :: "(string, nat) dict" where
  "table16_shrinking = table16
     \<lparr>ht1 := \<lparr>table = replicate 4 [], size = 4, sizemask = 3, used = 0\<rparr>, rehashidx := 0\<rparr>"

lemma table16_resize: "dictResize can_resize table16 = (table16_shrinking, True)"
proof -
  have "dictNextPower 4 = 4" by (simp add: dictNextPower_def dictNextPower_loop.simps)
  then show ?thesis
    by (simp add: dictResize_def dictExpand_def can_resize_def table16_def table16_shrinking_def
        dictIsRehashing_def Let_def)
qed

lemma shrink_cursors:
  "scan_next 15 0 = 8" "scan_next 3 16 = 2" "scan_next 3 18 = 1" "scan_next 3 17 = 3" "scan_next 3 19 = 0"
  by code_simp+

lemma scan_expand_pos:
  "0 < fuel \<Longrightarrow> scan_expand t m0 m1 v fuel =
     do {
       de \<leftarrow> bucket t (unat (v AND m1));
       let v = (((v OR m0) + 1) AND NOT m0) OR (v AND m0);
       if v AND (m0 XOR m1) \<noteq> 0 then
         do { (es, v') \<leftarrow> scan_expand t m0 m1 v (fuel - 1); Some (de @ es, v') }
       else Some (de, v)
     }"
proof (cases fuel)
  case (Suc n)
  then have "fuel - 1 = n" by simp
  then show ?thesis using Suc by (simp only: scan_expand.simps)
qed simp

lemma shrink_calls:
  "dictScan table16 0 = Some ([], 8)"
  "dictScan table16_shrinking 8 = Some ([], 2)"
  "dictScan table16_shrinking 2 = Some ([], 1)"
  "dictScan table16_shrinking 1 = Some ([], 3)"
  "dictScan table16_shrinking 3 = Some ([], 0)"
  by (simp_all add: dictScan_def table16_shrinking_def table16_def dictSize_def dictIsRehashing_def
      bucket_def Let_def shrink_cursors scan_expand_pos nth_list_update)

text \<open>C4: the guarantee fails when the table shrinks during the iteration: after one call on a table
  of sixteen buckets, the shrinking to four begins, and the iteration ends without the key,
  which was there all the time. The increment over the expansions of the cursor is not in
  the reversed order that the cursor itself follows.\<close>

theorem dictScan_shrink_misses:
  "let d = table16; d' = fst (dictResize can_resize d) in
   dict_inv d \<and> dict_map d ''j'' = Some 1 \<and> dict_inv d' \<and> dict_map d' ''j'' = Some 1 \<and>
   scan_calls [d, d', d', d', d'] 0 = Some ([], 0)"
proof -
  let ?d = "fst (dictResize can_resize table16)"
  have "dictSize table16 \<le> 2 ^ 30" by (simp add: dictSize_def table16_def)
  then have d': "dict_inv ?d" "dict_entries ?d = dict_entries table16" "dtype ?d = dtype table16"
    using dictResize_spec[OF table16_inv(1), of can_resize] table16_inv(2) by auto
  then have "dict_map ?d = dict_map table16" by (simp add: fun_eq_iff dict_map_def)
  moreover have "scan_calls [table16, ?d, ?d, ?d, ?d] 0 = Some ([], 0)"
    by (simp add: table16_resize shrink_calls)
  ultimately show ?thesis using table16_inv d' by (simp add: Let_def)
qed

end
