(* ===== verification/Bytes.thy ===== *)
theory Bytes
  imports Prelude "HOL-Library.Monad_Syntax"
begin

text \<open>
  Blocks of memory as lists of bytes: little-endian integers of a width, reads and writes of a
  part of a block that fail outside it, and arrays of entries of one width. The files under \<open>src/redis-3.0/src\<close> that
  lay out data by hand (\<open>intset.c\<close>) keep it little-endian on every target.
\<close>

type_synonym bytes = "8 word list"

section \<open>Little-endian integers\<close>

fun le_bytes :: "nat \<Rightarrow> int \<Rightarrow> bytes" where
  \<comment> \<open>the low \<open>n\<close> bytes of an integer, the lowest first\<close>
  "le_bytes 0 v = []"
| "le_bytes (Suc n) v = word_of_int v # le_bytes n (v div 256)"

fun le_uint :: "bytes \<Rightarrow> int" where
  "le_uint [] = 0"
| "le_uint (b # bs) = uint b + 256 * le_uint bs"

definition to_signed :: "nat \<Rightarrow> int \<Rightarrow> int" where
  \<comment> \<open>an unsigned integer of \<open>n\<close> bytes read in two's complement\<close>
  "to_signed n u = (if 2 * u < 2 ^ (8 * n) then u else u - 2 ^ (8 * n))"

definition fits :: "nat \<Rightarrow> int \<Rightarrow> bool" where
  "fits n v \<longleftrightarrow> - (2 ^ (8 * n)) \<le> 2 * v \<and> 2 * v < 2 ^ (8 * n)"

lemma length_le_bytes [simp]: "length (le_bytes n v) = n"
  by (induction n v rule: le_bytes.induct) simp_all

lemma le_uint_le_bytes: "le_uint (le_bytes n v) = v mod 2 ^ (8 * n)"
proof (induction n v rule: le_bytes.induct)
  case (2 n v)
  have "v mod (256 * 2 ^ (8 * n)) = 256 * (v div 256 mod 2 ^ (8 * n)) + v mod 256"
    by (rule zmod_zmult2_eq) simp
  moreover have "(2 :: int) ^ (8 * Suc n) = 256 * 2 ^ (8 * n)" by (simp add: power_add)
  ultimately show ?case using 2 by (simp add: uint_word_of_int)
qed simp

lemma to_signed_le_bytes [simp]: "fits n v \<Longrightarrow> to_signed n (le_uint (le_bytes n v)) = v"
proof -
  assume f: "fits n v"
  let ?m = "2 ^ (8 * n) :: int"
  have p: "0 < ?m" by simp
  show ?thesis
  proof (cases "0 \<le> v")
    case True
    then have "v mod ?m = v" using f unfolding fits_def by (intro mod_pos_pos_trivial) linarith+
    then show ?thesis using f by (simp add: le_uint_le_bytes to_signed_def fits_def)
  next
    case False
    have "v mod ?m = (v + ?m) mod ?m" by simp
    also have "\<dots> = v + ?m" using False f p unfolding fits_def by (intro mod_pos_pos_trivial) linarith+
    finally show ?thesis using False f by (auto simp: le_uint_le_bytes to_signed_def fits_def)
  qed
qed

lemma fits_mono: "fits n v \<Longrightarrow> n \<le> m \<Longrightarrow> fits m v"
proof -
  assume f: "fits n v" and "n \<le> m"
  then have "(2 :: int) ^ (8 * n) \<le> 2 ^ (8 * m)" by (intro power_increasing) simp_all
  then show ?thesis using f unfolding fits_def by linarith
qed

section \<open>Reads and writes\<close>

definition mem_read :: "nat \<Rightarrow> nat \<Rightarrow> bytes \<Rightarrow> bytes option" where
  \<comment> \<open>\<open>n\<close> bytes from offset \<open>i\<close>\<close>
  "mem_read i n xs = (if i + n \<le> length xs then Some (take n (drop i xs)) else None)"

definition mem_write :: "nat \<Rightarrow> bytes \<Rightarrow> bytes \<Rightarrow> bytes option" where
  "mem_write i ys xs = (if i + length ys \<le> length xs then Some (take i xs @ ys @ drop (i + length ys) xs) else None)"

lemma mem_read_Some: "i + n \<le> length xs \<Longrightarrow> mem_read i n xs = Some (take n (drop i xs))"
  by (simp add: mem_read_def)

lemma mem_write_Some: "i + length ys \<le> length xs \<Longrightarrow> mem_write i ys xs = Some (take i xs @ ys @ drop (i + length ys) xs)"
  by (simp add: mem_write_def)

section \<open>Arrays of entries of one width\<close>

definition int_array :: "nat \<Rightarrow> int list \<Rightarrow> bytes" where
  "int_array n vs = concat (map (le_bytes n) vs)"

lemma int_array_simps [simp]:
  "int_array n [] = []" "int_array n (v # vs) = le_bytes n v @ int_array n vs" "int_array n (vs @ ws) = int_array n vs @ int_array n ws"
  by (simp_all add: int_array_def)

lemma length_int_array [simp]: "length (int_array n vs) = length vs * n"
  by (induction vs) simp_all

lemma take_int_array [simp]: "take (i * n) (int_array n vs) = int_array n (take i vs)"
proof (induction vs arbitrary: i)
  case (Cons v vs)
  then show ?case by (cases i) simp_all
qed simp

lemma drop_int_array [simp]: "drop (i * n) (int_array n vs) = int_array n (drop i vs)"
proof (induction vs arbitrary: i)
  case (Cons v vs)
  then show ?case by (cases i) simp_all
qed simp

lemma int_array_nth: "i < length vs \<Longrightarrow> mem_read (i * n) n (int_array n vs @ ys) = Some (le_bytes n (vs ! i))"
proof -
  assume i: "i < length vs"
  have l: "i * n + n \<le> length vs * n" using i by (metis Suc_leI mult_Suc add.commute mult_le_mono1)
  have "take n (drop (i * n) (int_array n vs @ ys)) = take n (int_array n (drop i vs) @ drop (i * n - length vs * n) ys)"
    using l by simp
  also have "\<dots> = le_bytes n (vs ! i)" using i by (simp add: Cons_nth_drop_Suc[symmetric])
  finally show ?thesis using l by (simp add: mem_read_def)
qed

end
