(* ===== verification/Intset.thy ===== *)
theory Intset
  imports Bytes
begin

text \<open>
  Sets of integers in one block of memory (\<open>src/redis-3.0/src/intset.c\<close>): a sorted array whose entries have 2, 4
  or 8 bytes, as many as its largest member has ever needed. An operation gives \<open>None\<close>
  when it would read or write outside the block; the loop of the search gives \<open>None\<close> also if it does not
  end. \<open>zrealloc\<close> leaves the bytes that it adds undefined: they are the parameter \<open>junk\<close>.
\<close>

section \<open>The code\<close>

record intset =
  is_encoding :: nat
  is_length :: nat
  is_contents :: bytes

abbreviation (input) INTSET_ENC_INT16 :: nat where "INTSET_ENC_INT16 \<equiv> 2"
abbreviation (input) INTSET_ENC_INT32 :: nat where "INTSET_ENC_INT32 \<equiv> 4"
abbreviation (input) INTSET_ENC_INT64 :: nat where "INTSET_ENC_INT64 \<equiv> 8"

definition intsetValueEncoding :: "int \<Rightarrow> nat" where
  "intsetValueEncoding v =
     (if v < - 2147483648 \<or> v > 2147483647 then INTSET_ENC_INT64
      else if v < - 32768 \<or> v > 32767 then INTSET_ENC_INT32
      else INTSET_ENC_INT16)"

definition intsetGetEncoded :: "intset \<Rightarrow> int \<Rightarrow> nat \<Rightarrow> int option" where
  "intsetGetEncoded is pos enc =
     (if pos < 0 then None
      else do { bs \<leftarrow> mem_read (nat pos * enc) enc (is_contents is); Some (to_signed enc (le_uint bs)) })"

definition intsetGet_at :: "intset \<Rightarrow> int \<Rightarrow> int option" where
  "intsetGet_at is pos = intsetGetEncoded is pos (is_encoding is)"

definition intsetSet_at :: "intset \<Rightarrow> int \<Rightarrow> int \<Rightarrow> intset option" where
  "intsetSet_at is pos v =
     (if pos < 0 then None
      else do { xs \<leftarrow> mem_write (nat pos * is_encoding is) (le_bytes (is_encoding is) v) (is_contents is);
                Some (is\<lparr>is_contents := xs\<rparr>) })"

definition intsetNew :: intset where
  "intsetNew = \<lparr>is_encoding = INTSET_ENC_INT16, is_length = 0, is_contents = []\<rparr>"

definition intsetResize :: "(nat \<Rightarrow> 8 word) \<Rightarrow> intset \<Rightarrow> nat \<Rightarrow> intset" where
  "intsetResize junk is len =
     (let sz = nat (u32 (int (len * is_encoding is)))
      in is\<lparr>is_contents := take sz (is_contents is) @ map junk [length (is_contents is)..<sz]\<rparr>)"

partial_function (option) search_loop :: "intset \<Rightarrow> int \<Rightarrow> int \<Rightarrow> int \<Rightarrow> int \<Rightarrow> int \<Rightarrow> (int \<times> int \<times> int) option" where
  \<comment> \<open>the final values of \<open>min\<close>, \<open>mid\<close> and \<open>cur\<close>\<close>
  "search_loop is value mn mx mid cur =
     (if mx < mn then Some (mn, mid, cur)
      else
        let mid = s32 (u32 (u32 mn + u32 mx) div 2) in
        do { cur \<leftarrow> intsetGet_at is mid;
             if value > cur then search_loop is value (mid + 1) mx mid cur
             else if value < cur then search_loop is value mn (mid - 1) mid cur
             else Some (mn, mid, cur) })"

definition intsetSearch :: "intset \<Rightarrow> int \<Rightarrow> (bool \<times> nat) option" where
  \<comment> \<open>whether the value was found, and its position or the one where it can be inserted\<close>
  "intsetSearch is value =
     (if is_length is = 0 then Some (False, 0)
      else do {
        last \<leftarrow> intsetGet_at is (int (is_length is) - 1);
        if value > last then Some (False, is_length is)
        else do {
          first \<leftarrow> intsetGet_at is 0;
          if value < first then Some (False, 0)
          else do {
            (mn, mid, cur) \<leftarrow> search_loop is value 0 (int (is_length is) - 1) (-1) (-1);
            Some (if value = cur then (True, nat (u32 mid)) else (False, nat (u32 mn))) } } })"

fun upgrade_loop :: "nat \<Rightarrow> int \<Rightarrow> nat \<Rightarrow> intset \<Rightarrow> intset option" where
  \<comment> \<open>\<open>while(length--)\<close>\<close>
  "upgrade_loop curenc prepend 0 is = Some is"
| "upgrade_loop curenc prepend (Suc n) is =
     do { v \<leftarrow> intsetGetEncoded is (int n) curenc;
          is \<leftarrow> intsetSet_at is (int n + prepend) v;
          upgrade_loop curenc prepend n is }"

definition intsetUpgradeAndAdd :: "(nat \<Rightarrow> 8 word) \<Rightarrow> intset \<Rightarrow> int \<Rightarrow> intset option" where
  "intsetUpgradeAndAdd junk is value =
     (let curenc = is_encoding is;
          prepend = (if value < 0 then 1 else 0);
          is = is\<lparr>is_encoding := intsetValueEncoding value\<rparr>;
          is = intsetResize junk is (is_length is + 1)
      in do {
        is \<leftarrow> upgrade_loop curenc prepend (is_length is) is;
        is \<leftarrow> (if prepend = 1 then intsetSet_at is 0 value else intsetSet_at is (int (is_length is)) value);
        Some (is\<lparr>is_length := is_length is + 1\<rparr>) })"

definition intsetMoveTail :: "intset \<Rightarrow> nat \<Rightarrow> nat \<Rightarrow> intset option" where
  \<comment> \<open>\<open>memmove\<close> reads all of the source before it writes\<close>
  "intsetMoveTail is src dst =
     (let n = nat (u32 (int ((is_length is - src) * is_encoding is)))
      in do { bs \<leftarrow> mem_read (src * is_encoding is) n (is_contents is);
              xs \<leftarrow> mem_write (dst * is_encoding is) bs (is_contents is);
              Some (is\<lparr>is_contents := xs\<rparr>) })"

definition intsetAdd :: "(nat \<Rightarrow> 8 word) \<Rightarrow> intset \<Rightarrow> int \<Rightarrow> (intset \<times> bool) option" where
  "intsetAdd junk is value =
     (if intsetValueEncoding value > is_encoding is then
        do { is \<leftarrow> intsetUpgradeAndAdd junk is value; Some (is, True) }
      else do {
        (found, pos) \<leftarrow> intsetSearch is value;
        if found then Some (is, False)
        else
          let is = intsetResize junk is (is_length is + 1) in
          do { is \<leftarrow> (if pos < is_length is then intsetMoveTail is pos (pos + 1) else Some is);
               is \<leftarrow> intsetSet_at is (int pos) value;
               Some (is\<lparr>is_length := is_length is + 1\<rparr>, True) } })"

definition intsetRemove :: "(nat \<Rightarrow> 8 word) \<Rightarrow> intset \<Rightarrow> int \<Rightarrow> (intset \<times> bool) option" where
  "intsetRemove junk is value =
     (if intsetValueEncoding value \<le> is_encoding is then
        do {
          (found, pos) \<leftarrow> intsetSearch is value;
          if found then
            let len = is_length is in
            do { is \<leftarrow> (if pos < len - 1 then intsetMoveTail is (pos + 1) pos else Some is);
                 Some ((intsetResize junk is (len - 1))\<lparr>is_length := len - 1\<rparr>, True) }
          else Some (is, False) }
      else Some (is, False))"

definition intsetFind :: "intset \<Rightarrow> int \<Rightarrow> bool option" where
  "intsetFind is value =
     (if intsetValueEncoding value \<le> is_encoding is then do { (found, pos) \<leftarrow> intsetSearch is value; Some found }
      else Some False)"

definition intsetRandom :: "intset \<Rightarrow> nat \<Rightarrow> int option" where
  \<comment> \<open>with the number that \<open>rand()\<close> gives\<close>
  "intsetRandom is r = intsetGet_at is (int (r mod is_length is))"

definition intsetGet :: "intset \<Rightarrow> nat \<Rightarrow> int option option" where
  \<comment> \<open>\<open>Some None\<close> when the position is out of range\<close>
  "intsetGet is pos =
     (if pos < is_length is then do { v \<leftarrow> intsetGet_at is (int pos); Some (Some v) } else Some None)"

definition intsetLen :: "intset \<Rightarrow> nat" where
  "intsetLen is = is_length is"

definition intsetBlobLen :: "intset \<Rightarrow> nat" where
  "intsetBlobLen is = 8 + nat (u32 (int (is_length is * is_encoding is)))"

section \<open>What a block holds\<close>

definition intset_rep :: "intset \<Rightarrow> int list \<Rightarrow> bool" where
  "intset_rep is vs \<longleftrightarrow>
     is_encoding is \<in> {2, 4, 8} \<and> is_length is = length vs \<and> is_contents is = int_array (is_encoding is) vs \<and>
     sorted_wrt (<) vs \<and> (\<forall>v \<in> set vs. fits (is_encoding is) v) \<and> length vs < 2 ^ 29"

lemma intset_repD:
  assumes "intset_rep is vs"
  shows "is_encoding is \<in> {2, 4, 8}" "is_length is = length vs" "is_contents is = int_array (is_encoding is) vs"
    "sorted_wrt (<) vs" "v \<in> set vs \<Longrightarrow> fits (is_encoding is) v" "length vs < 2 ^ 29"
  using assms by (simp_all add: intset_rep_def)

lemma intset_rep_new [simp]: "intset_rep intsetNew []"
  by (simp add: intset_rep_def intsetNew_def)

lemma fits_encoding: "fits 8 v \<Longrightarrow> fits (intsetValueEncoding v) v"
  by (auto simp: fits_def intsetValueEncoding_def)

lemma not_fits_encoding: "n \<in> {2, 4, 8} \<Longrightarrow> n < intsetValueEncoding v \<Longrightarrow> \<not> fits n v"
  by (auto simp: fits_def intsetValueEncoding_def split: if_splits)

lemma fits_iff_encoding: "n \<in> {2, 4, 8} \<Longrightarrow> fits 8 v \<Longrightarrow> fits n v \<longleftrightarrow> intsetValueEncoding v \<le> n"
  by (auto simp: fits_def intsetValueEncoding_def split: if_splits)

lemma encoding_cases [simp]: "intsetValueEncoding v \<in> {2, 4, 8}"
  by (simp add: intsetValueEncoding_def)

lemma get_int_array:
  assumes "is_contents is = int_array enc vs @ ys" "i < length vs" "fits enc (vs ! i)"
  shows "intsetGetEncoded is (int i) enc = Some (vs ! i)"
  using int_array_nth[OF assms(2), of enc ys] assms by (simp add: intsetGetEncoded_def)

lemma get_at: "intset_rep is vs \<Longrightarrow> i < length vs \<Longrightarrow> intsetGet_at is (int i) = Some (vs ! i)"
  using get_int_array[of "is" _ vs "[]"] intset_repD[of "is" vs] by (simp add: intsetGet_at_def)

section \<open>Binary search\<close>

lemma mid_between:
  assumes "0 \<le> mn" "mn \<le> mx" "mx < 2 ^ 29"
  shows "s32 (u32 (u32 mn + u32 mx) div 2) = (mn + mx) div 2"
  using assms by (simp add: u32_def s32_id)

lemma search_loop_ok:
  assumes rep: "intset_rep is vs"
    and "0 \<le> mn" "mn \<le> mx + 1" "mx < int (length vs)" "mn \<le> mx \<or> cur \<noteq> value"
    and "\<forall>i < length vs. int i < mn \<longrightarrow> vs ! i < value" "\<forall>i < length vs. mx < int i \<longrightarrow> value < vs ! i"
  shows "\<exists>mn' mid' cur'. search_loop is value mn mx mid cur = Some (mn', mid', cur') \<and>
    (cur' = value \<and> 0 \<le> mid' \<and> mid' < int (length vs) \<and> vs ! nat mid' = value \<or>
     cur' \<noteq> value \<and> 0 \<le> mn' \<and> mn' \<le> int (length vs) \<and>
       (\<forall>i < length vs. (int i < mn' \<longrightarrow> vs ! i < value) \<and> (mn' \<le> int i \<longrightarrow> value < vs ! i)))"
  using assms(2-)
proof (induction "nat (mx - mn + 1)" arbitrary: mn mx mid cur rule: less_induct)
  case less
  show ?case
  proof (cases "mx < mn")
    case True
    then have "mx = mn - 1" using less.prems by simp
    then show ?thesis using less.prems by (subst search_loop.simps) auto
  next
    case False
    let ?mid = "(mn + mx) div 2"
    have m: "mn \<le> ?mid" "?mid \<le> mx" using False by simp_all
    have l: "length vs < 2 ^ 29" using intset_repD[OF rep] by simp
    have s: "s32 (u32 (u32 mn + u32 mx) div 2) = ?mid" using False less.prems l by (intro mid_between) simp_all
    have i: "nat ?mid < length vs" "0 \<le> ?mid" using m less.prems by simp_all
    then have g: "intsetGet_at is ?mid = Some (vs ! nat ?mid)" using get_at[OF rep i(1)] by simp
    have srt: "sorted_wrt (<) vs" using intset_repD[OF rep] by simp
    consider "value > vs ! nat ?mid" | "value < vs ! nat ?mid" | "value = vs ! nat ?mid" by linarith
    then show ?thesis
    proof cases
      case 1
      have "vs ! j < value" if "j < length vs" "int j < ?mid + 1" for j
        using 1 sorted_wrt_nth_less[OF srt, of j "nat ?mid"] that i by (cases "j = nat ?mid") fastforce+
      moreover have "search_loop is value mn mx mid cur = search_loop is value (?mid + 1) mx ?mid (vs ! nat ?mid)"
        using 1 False s g by (subst search_loop.simps) (simp add: Let_def)
      ultimately show ?thesis using less.hyps[of mx "?mid + 1" "vs ! nat ?mid" ?mid] 1 less.prems m by simp
    next
      case 2
      have "value < vs ! j" if "j < length vs" "?mid - 1 < int j" for j
        using 2 sorted_wrt_nth_less[OF srt, of "nat ?mid" j] that i by (cases "j = nat ?mid") fastforce+
      moreover have "search_loop is value mn mx mid cur = search_loop is value mn (?mid - 1) ?mid (vs ! nat ?mid)"
        using 2 False s g by (subst search_loop.simps) (simp add: Let_def)
      ultimately show ?thesis using less.hyps[of "?mid - 1" mn "vs ! nat ?mid" ?mid] 2 less.prems m by simp
    next
      case 3
      then show ?thesis using i g s False by (subst search_loop.simps) (auto simp: Let_def)
    qed
  qed
qed

lemma split_at:
  "p \<le> length vs \<Longrightarrow> (\<forall>i < length vs. (i < p \<longrightarrow> vs ! i < v) \<and> (p \<le> i \<longrightarrow> v < vs ! i)) \<Longrightarrow>
   (\<forall>x \<in> set (take p vs). x < v) \<and> (\<forall>x \<in> set (drop p vs). v < (x :: int))"
  by (auto simp: in_set_conv_nth)

lemma intsetSearch_ok:
  assumes rep: "intset_rep is vs"
  obtains p where "intsetSearch is value = Some (True, p)" "p < length vs" "vs ! p = value" "value \<in> set vs"
  | p where "intsetSearch is value = Some (False, p)" "p \<le> length vs" "value \<notin> set vs"
      "\<forall>v \<in> set (take p vs). v < value" "\<forall>v \<in> set (drop p vs). value < v"
proof (cases "vs = []")
  case True
  then show ?thesis using that(2)[of 0] intset_repD[OF rep] by (simp add: intsetSearch_def)
next
  case False
  let ?n = "length vs"
  have n: "0 < ?n" "is_length is = ?n" "?n < 2 ^ 29" using False intset_repD[OF rep] by simp_all
  have srt: "sorted_wrt (<) vs" using intset_repD[OF rep] by simp
  have g: "intsetGet_at is (int ?n - 1) = Some (vs ! (?n - 1))" "intsetGet_at is 0 = Some (vs ! 0)"
    using get_at[OF rep, of "?n - 1"] get_at[OF rep, of 0] n by (simp_all add: of_nat_diff)
  have last: "vs ! i \<le> vs ! (?n - 1)" if "i < ?n" for i
    using sorted_wrt_nth_less[OF srt, of i "?n - 1"] that by (cases "i = ?n - 1") fastforce+
  have first: "vs ! 0 \<le> vs ! i" if "i < ?n" for i
    using sorted_wrt_nth_less[OF srt, of 0 i] that by (cases "i = 0") fastforce+
  consider "value > vs ! (?n - 1)" | "value < vs ! 0" "\<not> value > vs ! (?n - 1)" | "\<not> value < vs ! 0" "\<not> value > vs ! (?n - 1)"
    by linarith
  then show ?thesis
  proof cases
    case 1
    then have "\<forall>v \<in> set vs. v < value" using last by (fastforce simp: in_set_conv_nth)
    then show ?thesis using that(2)[of ?n] 1 g n by (auto simp: intsetSearch_def)
  next
    case 2
    then have "\<forall>v \<in> set vs. value < v" using first by (fastforce simp: in_set_conv_nth)
    then show ?thesis using that(2)[of 0] 2 g n by (auto simp: intsetSearch_def)
  next
    case 3
    obtain mn mid cur where r: "search_loop is value 0 (int ?n - 1) (-1) (-1) = Some (mn, mid, cur)"
      and alt: "cur = value \<and> 0 \<le> mid \<and> mid < int ?n \<and> vs ! nat mid = value \<or>
       cur \<noteq> value \<and> 0 \<le> mn \<and> mn \<le> int ?n \<and>
       (\<forall>i < ?n. (int i < mn \<longrightarrow> vs ! i < value) \<and> (mn \<le> int i \<longrightarrow> value < vs ! i))"
      using search_loop_ok[OF rep, of 0 "int ?n - 1" "-1" "value" "-1"] n by auto
    have s: "intsetSearch is value = Some (if value = cur then (True, nat (u32 mid)) else (False, nat (u32 mn)))"
      using 3 g n r by (simp add: intsetSearch_def)
    show ?thesis
    proof (cases "cur = value")
      case True
      with alt have "nat mid < ?n" "vs ! nat mid = value" "u32 mid = mid" using n by (auto simp: u32_id)
      then show ?thesis using that(1)[of "nat mid"] s True by auto
    next
      case False
      with alt have m: "0 \<le> mn" "mn \<le> int ?n" "u32 mn = mn" using n by (auto simp: u32_id)
      have a: "\<forall>i < ?n. (i < nat mn \<longrightarrow> vs ! i < value) \<and> (nat mn \<le> i \<longrightarrow> value < vs ! i)" using alt False m by auto
      have "value \<notin> set vs" using a by (fastforce simp: in_set_conv_nth)
      then show ?thesis using that(2)[of "nat mn"] split_at[of "nat mn" vs "value", OF _ a] s False m by simp
    qed
  qed
qed

section \<open>Growing and shrinking\<close>

lemma u32_nat: "n < 2 ^ 32 \<Longrightarrow> nat (u32 (int n)) = n"
  by (simp add: u32_id)

lemma resize_grow:
  assumes "length (is_contents is) \<le> len * is_encoding is" "len * is_encoding is < 2 ^ 32"
  shows "\<exists>ys. intsetResize junk is len = is\<lparr>is_contents := is_contents is @ ys\<rparr> \<and>
    length ys = len * is_encoding is - length (is_contents is)"
  using assms unfolding intsetResize_def Let_def u32_nat[OF assms(2)]
  by (intro exI[of _ "map junk [length (is_contents is)..<len * is_encoding is]"]) simp

lemma resize_shrink:
  assumes "len * is_encoding is \<le> length (is_contents is)" "len * is_encoding is < 2 ^ 32"
  shows "intsetResize junk is len = is\<lparr>is_contents := take (len * is_encoding is) (is_contents is)\<rparr>"
  using assms unfolding intsetResize_def Let_def u32_nat[OF assms(2)] by simp

lemma set_at:
  assumes "is_contents is = xs @ ys @ zs" "length xs = i * is_encoding is" "length ys = is_encoding is"
  shows "intsetSet_at is (int i) v = Some (is\<lparr>is_contents := xs @ le_bytes (is_encoding is) v @ zs\<rparr>)"
  using assms by (simp add: intsetSet_at_def mem_write_def)

lemma upgrade_loop_ok:
  assumes "n \<le> length vs" "take (n * cur) (is_contents is) = int_array cur (take n vs)"
    and "drop ((n + p) * is_encoding is) (is_contents is) = int_array (is_encoding is) (drop n vs) @ rest"
    and "length (is_contents is) = Suc (length vs) * is_encoding is" "p \<le> 1" "cur \<le> is_encoding is"
    and "\<forall>v \<in> set vs. fits cur v"
  shows "\<exists>xs. upgrade_loop cur (int p) n is = Some (is\<lparr>is_contents := xs\<rparr>) \<and> length xs = length (is_contents is) \<and>
    drop (p * is_encoding is) xs = int_array (is_encoding is) vs @ rest"
  using assms
proof (induction n arbitrary: "is")
  case 0
  then show ?case by (intro exI[of _ "is_contents is"]) simp
next
  case (Suc n)
  let ?new = "is_encoding is" and ?C = "is_contents is" and ?v = "vs ! n"
  have n: "n < length vs" using Suc.prems by simp
  have "?C = int_array cur (take (Suc n) vs) @ drop (Suc n * cur) ?C" using Suc.prems(2) by (metis append_take_drop_id)
  then have g: "intsetGetEncoded is (int n) cur = Some ?v"
    using get_int_array[of "is" cur "take (Suc n) vs" _ n] n Suc.prems(7) by simp
  have fit: "(n + p) * ?new + ?new \<le> length ?C"
  proof -
    have "Suc (n + p) * ?new \<le> Suc (length vs) * ?new" using n Suc.prems(5) by (intro mult_le_mono1) simp
    then show ?thesis using Suc.prems(4) by simp
  qed
  define xs where "xs = take ((n + p) * ?new) ?C @ le_bytes ?new ?v @ drop ((n + p) * ?new + ?new) ?C"
  have "mem_write ((n + p) * ?new) (le_bytes ?new ?v) ?C = Some xs"
    using mem_write_Some[of "(n + p) * ?new" "le_bytes ?new ?v" ?C] fit by (simp add: xs_def)
  then have s: "intsetSet_at is (int n + int p) ?v = Some (is\<lparr>is_contents := xs\<rparr>)"
    by (simp add: intsetSet_at_def nat_add_distrib)
  have l: "length xs = length ?C" using fit by (simp add: xs_def)
  have "n * cur \<le> (n + p) * ?new" using Suc.prems(6) by (intro mult_le_mono) simp_all
  then have "take (n * cur) xs = take (n * cur) (take (Suc n * cur) ?C)" using fit by (simp add: xs_def min_def)
  also have "\<dots> = int_array cur (take n vs)" using n unfolding Suc.prems(2) by simp
  finally have t: "take (n * cur) xs = int_array cur (take n vs)" .
  have "drop ((n + p) * ?new) xs = le_bytes ?new ?v @ drop ((Suc n + p) * ?new) ?C"
    using fit by (simp add: xs_def add.commute)
  also have "\<dots> = int_array ?new (drop n vs) @ rest"
    using n unfolding Suc.prems(3) by (simp add: Cons_nth_drop_Suc[symmetric])
  finally have d: "drop ((n + p) * ?new) xs = int_array ?new (drop n vs) @ rest" .
  show ?case using Suc.IH[of "is\<lparr>is_contents := xs\<rparr>"] n t d l Suc.prems g s by simp
qed

lemma beyond_all:
  assumes "\<forall>v \<in> set vs. fits n v" "\<not> fits n x"
  shows "if x < 0 then \<forall>v \<in> set vs. x < v else \<forall>v \<in> set vs. v < x"
  using assms by (fastforce simp: fits_def)

lemma intsetUpgradeAndAdd_ok:
  assumes rep: "intset_rep is vs" and x: "fits 8 x" "is_encoding is < intsetValueEncoding x" and n: "Suc (length vs) < 2 ^ 29"
  shows "\<exists>is'. intsetUpgradeAndAdd junk is x = Some is' \<and> intset_rep is' (if x < 0 then x # vs else vs @ [x])"
proof -
  let ?new = "intsetValueEncoding x" 
  note r = intset_repD[OF rep]
  define p :: nat where "p = (if x < 0 then 1 else 0)"
  have p: "p \<le> 1" by (simp add: p_def)
  define js where "js = is\<lparr>is_encoding := ?new\<rparr>"
  have new: "?new \<in> {2, 4, 8}" by (rule encoding_cases)
  have "is_encoding is * length vs \<le> ?new * length vs" using x(2) by (intro mult_le_mono1) simp
  then have len: "length (is_contents js) \<le> Suc (length vs) * is_encoding js"
    unfolding js_def using r(3) by (simp add: mult.commute trans_le_add2)
  have "Suc (length vs) * is_encoding js < 2 ^ 32" using new n by (auto simp: js_def)
  then obtain ys where ys: "intsetResize junk js (Suc (length vs)) = js\<lparr>is_contents := is_contents is @ ys\<rparr>"
    and lys: "length (is_contents is @ ys) = Suc (length vs) * ?new"
    using resize_grow[OF len, of junk] len by (auto simp: js_def)
  define ks where "ks = js\<lparr>is_contents := is_contents is @ ys\<rparr>"
  have ks: "is_encoding ks = ?new" "is_length ks = length vs" "is_contents ks = is_contents is @ ys"
    using r(2) by (simp_all add: ks_def js_def)
  define rest where "rest = drop ((length vs + p) * ?new) (is_contents ks)"
  have "take (length vs * is_encoding is) (is_contents ks) = int_array (is_encoding is) vs" using r(3) by (simp add: ks)
  moreover have "drop ((length vs + p) * is_encoding ks) (is_contents ks) = int_array (is_encoding ks) (drop (length vs) vs) @ rest"
    by (simp add: rest_def ks(1))
  moreover have "length (is_contents ks) = Suc (length vs) * is_encoding ks" using lys by (simp add: ks)
  moreover have "is_encoding is \<le> is_encoding ks" using x(2) by (simp add: ks)
  ultimately obtain xs where u: "upgrade_loop (is_encoding is) (int p) (length vs) ks = Some (ks\<lparr>is_contents := xs\<rparr>)"
      and lxs: "length xs = Suc (length vs) * ?new" and d: "drop (p * ?new) xs = int_array ?new vs @ rest"
    using upgrade_loop_ok[of "length vs" vs "is_encoding is" ks p rest] r(5) p unfolding ks(1) by auto
  have lr: "length rest = (1 - p) * ?new" 
  proof -
    have "length rest = length (is_contents is @ ys) - (length vs + p) * ?new" by (simp only: rest_def ks length_drop)
    then show ?thesis unfolding lys by (simp flip: diff_mult_distrib del: mult_Suc)
  qed
  have old: "\<forall>v \<in> set vs. fits (is_encoding is) v" and nx: "\<not> fits (is_encoding is) x"
    using r(1,5) not_fits_encoding[OF r(1) x(2)] by blast+
  have new_fit: "\<forall>v \<in> set vs. fits ?new v" "fits ?new x"
    using old fits_mono[of "is_encoding is" _ ?new] x fits_encoding by auto
  have eq: "intsetUpgradeAndAdd junk is x = do {
      is \<leftarrow> upgrade_loop (is_encoding is) (int p) (length vs) ks;
      is \<leftarrow> (if x < 0 then intsetSet_at is 0 x else intsetSet_at is (int (is_length is)) x);
      Some (is\<lparr>is_length := is_length is + 1\<rparr>) }"
    using ys r(2) by (simp add: intsetUpgradeAndAdd_def Let_def js_def[symmetric] ks_def p_def ks(2)[unfolded ks_def])
      (simp add: js_def)
  show ?thesis
  proof (cases "x < 0")
    case True
    then have "drop ?new xs = int_array ?new vs" using d lr by (simp add: p_def)
    then have "xs = take ?new xs @ int_array ?new vs" by (metis append_take_drop_id)
    then have "intsetSet_at (ks\<lparr>is_contents := xs\<rparr>) 0 x = Some (ks\<lparr>is_contents := int_array ?new (x # vs)\<rparr>)"
      using set_at[of "ks\<lparr>is_contents := xs\<rparr>" "[]" "take ?new xs" "int_array ?new vs" 0 x] lxs ks by simp
    moreover have "\<forall>v \<in> set vs. x < v" using beyond_all[OF old nx] True by simp
    ultimately show ?thesis
      using eq u True ks r(4) new new_fit n by (simp add: intset_rep_def)
  next
    case False
    then have "xs = int_array ?new vs @ rest" using d by (simp add: p_def)
    then have "intsetSet_at (ks\<lparr>is_contents := xs\<rparr>) (int (length vs)) x = Some (ks\<lparr>is_contents := int_array ?new (vs @ [x])\<rparr>)"
      using set_at[of "ks\<lparr>is_contents := xs\<rparr>" "int_array ?new vs" rest "[]" "length vs" x] lr False ks by (simp add: p_def)
    moreover have "\<forall>v \<in> set vs. v < x" using beyond_all[OF old nx] False by simp
    ultimately show ?thesis
      using eq u False ks r(4) new new_fit n by (simp add: intset_rep_def sorted_wrt_append)
  qed
qed

lemma moveTail_up:
  \<comment> \<open>the block has room for one more entry\<close>
  assumes "is_contents is = int_array (is_encoding is) vs @ ys" "length ys = is_encoding is" "is_length is = length vs" "p \<le> length vs"
    and "length vs * is_encoding is < 2 ^ 32"
  shows "\<exists>zs. length zs = is_encoding is \<and>
    intsetMoveTail is p (p + 1) =
      Some (is\<lparr>is_contents := int_array (is_encoding is) (take p vs) @ zs @ int_array (is_encoding is) (drop p vs)\<rparr>)"
proof -
  let ?e = "is_encoding is"
  have sz: "(length vs - p) * ?e < 2 ^ 32"
    using assms(5) by (rule le_less_trans[rotated]) (intro mult_le_mono1, simp)
  have le: "p * ?e + (length vs - p) * ?e = length vs * ?e"
    using assms(4) by (metis add_mult_distrib le_add_diff_inverse)
  have sl: "mem_read (p * ?e) ((length vs - p) * ?e) (is_contents is) = Some (int_array ?e (drop p vs))"
    using le assms(1) by (simp add: mem_read_def)
  define zs where "zs = take ?e (drop (p * ?e) (is_contents is))"
  have lz: "length zs = ?e" using assms(1,2) le by (simp add: zs_def)
  have "take (Suc p * ?e) (is_contents is) = take (p * ?e) (is_contents is) @ zs"
    unfolding zs_def mult_Suc add.commute[of ?e] by (rule take_add)
  also have "take (p * ?e) (is_contents is) = int_array ?e (take p vs)" using assms(1,4) le by simp
  finally have tk: "take (Suc p * ?e) (is_contents is) = int_array ?e (take p vs) @ zs" .
  have "mem_write (Suc p * ?e) (int_array ?e (drop p vs)) (is_contents is) =
      Some (int_array ?e (take p vs) @ zs @ int_array ?e (drop p vs))"
    using tk le assms(1,2) by (simp add: mem_write_def)
  then show ?thesis using lz sl assms(3) unfolding intsetMoveTail_def Let_def assms(3) u32_nat[OF sz]
    by (intro exI[of _ zs]) simp
qed

lemma moveTail_down:
  assumes "is_contents is = int_array (is_encoding is) vs" "is_length is = length vs" "p < length vs" "length vs * is_encoding is < 2 ^ 32"
  shows "\<exists>zs. intsetMoveTail is (p + 1) p =
      Some (is\<lparr>is_contents := int_array (is_encoding is) (take p vs @ drop (Suc p) vs) @ zs\<rparr>)"
proof -
  let ?e = "is_encoding is"
  have sz: "(length vs - Suc p) * ?e < 2 ^ 32"
    using assms(4) by (rule le_less_trans[rotated]) (intro mult_le_mono1, simp)
  have le: "Suc p * ?e + (length vs - Suc p) * ?e = length vs * ?e"
    using assms(3) by (metis Suc_leI add_mult_distrib le_add_diff_inverse)
  have sl: "mem_read (Suc p * ?e) ((length vs - Suc p) * ?e) (is_contents is) = Some (int_array ?e (drop (Suc p) vs))"
    using le assms(1) drop_int_array[of "Suc p" ?e vs] by (simp add: mem_read_def del: drop_int_array)
  obtain zs where "mem_write (p * ?e) (int_array ?e (drop (Suc p) vs)) (is_contents is) =
      Some (int_array ?e (take p vs @ drop (Suc p) vs) @ zs)"
    using le assms(1) by (simp add: mem_write_def)
  then show ?thesis using sl unfolding intsetMoveTail_def Let_def assms(2) Suc_eq_plus1[symmetric] u32_nat[OF sz]
    by (intro exI[of _ zs]) simp
qed

section \<open>The operations implement a set\<close>

lemma sorted_insert_at:
  assumes "sorted_wrt (<) vs" "\<forall>v \<in> set (take p vs). v < x" "\<forall>v \<in> set (drop p vs). x < (v :: int)"
  shows "sorted_wrt (<) (take p vs @ x # drop p vs)"
proof -
  have "sorted_wrt (<) (take p vs @ drop p vs)" using assms(1) by simp
  then show ?thesis using assms(2,3) unfolding sorted_wrt_append by auto
qed

lemma sorted_remove_at:
  "sorted_wrt (<) (xs @ (x :: int) # ys) \<Longrightarrow> sorted_wrt (<) (xs @ ys) \<and> set (xs @ ys) = set (xs @ x # ys) - {x}"
  by (auto simp: sorted_wrt_append)

lemma rep_size: "intset_rep is vs \<Longrightarrow> length vs * is_encoding is < 2 ^ 32"
proof -
  assume r: "intset_rep is vs"
  have e: "is_encoding is \<le> 8" using intset_repD(1)[OF r] by auto
  have "length vs * is_encoding is \<le> length vs * 8" using e by (rule mult_le_mono2)
  moreover have "length vs * 8 < 2 ^ 32" using intset_repD(6)[OF r] by simp
  ultimately show ?thesis by (rule le_less_trans)
qed

lemma intsetAdd_present:
  assumes rep: "intset_rep is vs" and "x \<in> set vs"
  shows "intsetAdd junk is x = Some (is, False)"
proof -
  have "\<not> is_encoding is < intsetValueEncoding x"
    using intset_repD(1,5)[OF rep] not_fits_encoding assms(2) by blast
  then show ?thesis using assms(2) by (rule_tac intsetSearch_ok[OF rep, of x]) (simp_all add: intsetAdd_def)
qed

lemma intsetAdd_ok:
  assumes rep: "intset_rep is vs" and x: "fits 8 x" and n: "Suc (length vs) < 2 ^ 29"
  shows "\<exists>is' vs'. intsetAdd junk is x = Some (is', x \<notin> set vs) \<and> intset_rep is' vs' \<and> set vs' = insert x (set vs)"
proof (cases "is_encoding is < intsetValueEncoding x")
  case True
  have "x \<notin> set vs" using intset_repD(1,5)[OF rep] not_fits_encoding True by blast
  moreover obtain is' where "intsetUpgradeAndAdd junk is x = Some is'" "intset_rep is' (if x < 0 then x # vs else vs @ [x])"
    using intsetUpgradeAndAdd_ok[OF rep x True n] by blast
  ultimately show ?thesis using True
    by (intro exI[of _ is'] exI[of _ "if x < 0 then x # vs else vs @ [x]"]) (simp add: intsetAdd_def)
next
  case False
  note r = intset_repD[OF rep]
  let ?e = "is_encoding is"
  show ?thesis
  proof (rule intsetSearch_ok[OF rep, of x])
    fix p assume "x \<in> set vs"
    then show ?thesis using intsetAdd_present[OF rep] rep by (intro exI[of _ "is"] exI[of _ vs]) auto
  next
    fix p assume s: "intsetSearch is x = Some (False, p)" "p \<le> length vs" "x \<notin> set vs"
      and lo: "\<forall>v \<in> set (take p vs). v < x" and hi: "\<forall>v \<in> set (drop p vs). x < v"
    let ?vs = "take p vs @ x # drop p vs"
    have st: "set ?vs = insert x (set vs)" by (metis append_take_drop_id insert_def set_append set_simps(2) Un_insert_right)
    have "Suc (length vs) * ?e \<le> Suc (length vs) * 8" using r(1) by (intro mult_le_mono) auto
    then have "Suc (length vs) * ?e < 2 ^ 32" using n by simp
    then obtain ys where ys: "intsetResize junk is (Suc (length vs)) = is\<lparr>is_contents := is_contents is @ ys\<rparr>" "length ys = ?e"
      using resize_grow[of "is" "Suc (length vs)" junk] r(3) by auto
    define js where "js = is\<lparr>is_contents := is_contents is @ ys\<rparr>"
    have js: "is_contents js = int_array (is_encoding js) vs @ ys" "length ys = is_encoding js" "is_length js = length vs" "is_encoding js = ?e"
      using ys r by (simp_all add: js_def)
    have mv: "\<exists>zs. length zs = ?e \<and> (if p < is_length js then intsetMoveTail js p (p + 1) else Some js) =
        Some (js\<lparr>is_contents := int_array ?e (take p vs) @ zs @ int_array ?e (drop p vs)\<rparr>)"
    proof (cases "p < length vs")
      case True
      then show ?thesis using moveTail_up[OF js(1-3), of p] rep_size[OF rep] js(3,4) by auto
    next
      case False
      then show ?thesis using s(2) js by (intro exI[of _ ys]) (simp add: js_def)
    qed
    then obtain zs where zs: "length zs = ?e"
      "(if p < is_length js then intsetMoveTail js p (p + 1) else Some js) =
        Some (js\<lparr>is_contents := int_array ?e (take p vs) @ zs @ int_array ?e (drop p vs)\<rparr>)" by blast
    define ks where "ks = js\<lparr>is_contents := int_array ?e (take p vs) @ zs @ int_array ?e (drop p vs)\<rparr>"
    have "intsetSet_at ks (int p) x = Some (ks\<lparr>is_contents := int_array ?e ?vs\<rparr>)"
      using set_at[of ks "int_array ?e (take p vs)" zs "int_array ?e (drop p vs)" p x] s(2) zs(1) js by (simp add: ks_def)
    then have a: "intsetAdd junk is x = Some (ks\<lparr>is_contents := int_array ?e ?vs, is_length := Suc (length vs)\<rparr>, x \<notin> set vs)"
      using False s(1,3) ys(1) zs(2) js r(2)
      by (simp add: intsetAdd_def Let_def js_def[symmetric] ks_def[symmetric]) (simp add: ks_def)
    have "sorted_wrt (<) ?vs" using r(4) lo hi by (rule sorted_insert_at)
    moreover have "\<forall>v \<in> set ?vs. fits ?e v"
      unfolding st using r(5) False fits_iff_encoding[OF r(1) x] by auto
    ultimately have "intset_rep (ks\<lparr>is_contents := int_array ?e ?vs, is_length := Suc (length vs)\<rparr>) ?vs"
      using r(1) n s(2) js by (simp add: intset_rep_def ks_def)
    then show ?thesis using a st by blast
  qed
qed

lemma intsetRemove_ok:
  assumes rep: "intset_rep is vs" and x: "fits 8 x"
  shows "\<exists>is' vs'. intsetRemove junk is x = Some (is', x \<in> set vs) \<and> intset_rep is' vs' \<and> set vs' = set vs - {x}"
proof (cases "is_encoding is < intsetValueEncoding x")
  case True
  then have "x \<notin> set vs" using intset_repD(1,5)[OF rep] not_fits_encoding by blast
  then show ?thesis using True rep by (auto simp: intsetRemove_def)
next
  case False
  note r = intset_repD[OF rep]
  let ?e = "is_encoding is"
  show ?thesis
  proof (rule intsetSearch_ok[OF rep, of x])
    fix p assume "intsetSearch is x = Some (False, p)" "x \<notin> set vs"
    then show ?thesis using False rep by (auto simp: intsetRemove_def)
  next
    fix p assume s: "intsetSearch is x = Some (True, p)" "p < length vs" "vs ! p = x" "x \<in> set vs"
    let ?vs = "take p vs @ drop (Suc p) vs"
    have vs: "vs = take p vs @ x # drop (Suc p) vs" using s(2,3) id_take_nth_drop by blast
    have mv: "\<exists>zs. (if p < is_length is - 1 then intsetMoveTail is (p + 1) p else Some is) =
        Some (is\<lparr>is_contents := int_array ?e ?vs @ zs\<rparr>)"
    proof (cases "p < length vs - 1")
      case True
      then show ?thesis using moveTail_down[OF r(3,2) s(2) rep_size[OF rep]] r(2) by auto
    next
      case False
      then have "vs = take p vs @ [x]" using vs s(2) by simp
      then have "is_contents is = int_array ?e (take p vs) @ le_bytes ?e x"
        using r(3) by (metis int_array_simps(1-3) append_Nil2)
      then show ?thesis using False s(2) r(2) by (intro exI[of _ "le_bytes ?e x"]) simp
    qed
    then obtain zs where zs: "(if p < is_length is - 1 then intsetMoveTail is (p + 1) p else Some is) =
        Some (is\<lparr>is_contents := int_array ?e ?vs @ zs\<rparr>)" by blast
    have l: "length ?vs = length vs - 1" using s(2) by simp
    have "(length vs - 1) * ?e \<le> length vs * ?e" by (intro mult_le_mono1) simp
    then have sz: "(length vs - 1) * ?e < 2 ^ 32" using rep_size[OF rep] by linarith
    have "(length vs - 1) * ?e = length (int_array ?e ?vs)" unfolding length_int_array l by simp
    then have "intsetResize junk (is\<lparr>is_contents := int_array ?e ?vs @ zs\<rparr>) (length vs - 1) = is\<lparr>is_contents := int_array ?e ?vs\<rparr>"
      using resize_shrink[of "length vs - 1" "is\<lparr>is_contents := int_array ?e ?vs @ zs\<rparr>" junk] sz by simp
    then have a: "intsetRemove junk is x = Some (is\<lparr>is_contents := int_array ?e ?vs, is_length := length vs - 1\<rparr>, x \<in> set vs)"
      using False s(1,4) zs r(2) by (simp add: intsetRemove_def Let_def)
    have "sorted_wrt (<) (take p vs @ x # drop (Suc p) vs)" using r(4) vs by simp
    from sorted_remove_at[OF this] have "sorted_wrt (<) ?vs" and st: "set ?vs = set vs - {x}" by (simp_all flip: vs)
    then have "intset_rep (is\<lparr>is_contents := int_array ?e ?vs, is_length := length vs - 1\<rparr>) ?vs"
      using r(1,5,6) l st by (auto simp: intset_rep_def)
    then show ?thesis using a st by blast
  qed
qed

lemma intsetFind_ok:
  assumes rep: "intset_rep is vs"
  shows "intsetFind is x = Some (x \<in> set vs)"
proof (cases "is_encoding is < intsetValueEncoding x")
  case True
  then have "x \<notin> set vs" using intset_repD(1,5)[OF rep] not_fits_encoding by blast
  then show ?thesis using True by (simp add: intsetFind_def)
next
  case False
  then show ?thesis by (rule_tac intsetSearch_ok[OF rep, of x]) (simp_all add: intsetFind_def)
qed

lemma intsetGet_ok:
  "intset_rep is vs \<Longrightarrow> intsetGet is i = Some (if i < length vs then Some (vs ! i) else None)"
  using intset_repD(2)[of "is" vs] by (simp add: intsetGet_def get_at)

lemma intsetRandom_ok:
  "intset_rep is vs \<Longrightarrow> vs \<noteq> [] \<Longrightarrow> intsetRandom is r = Some (vs ! (r mod length vs))"
  using intset_repD(2)[of "is" vs] by (simp add: intsetRandom_def get_at)

lemma sorted_wrt_distinct: "sorted_wrt (<) (vs :: int list) \<Longrightarrow> distinct vs"
  by (induction vs) auto

lemma intsetLen_ok: "intset_rep is vs \<Longrightarrow> intsetLen is = card (set vs)"
  using intset_repD(2,4)[of "is" vs] by (simp add: intsetLen_def distinct_card sorted_wrt_distinct)

end
