(* ===== verification/Object.thy ===== *)
theory Object
  imports Numstr
begin

text \<open>
  String objects (\<open>src/redis-3.0/src/object.c\<close>): a 64-bit integer stored in the pointer, or
  the bytes of an sds embedded in the object or allocated apart. Reference counts are not part
  of the model: they decide when an object is freed and when an update is done in place, and
  two objects of one value cannot be told apart by a client. For the same reason the shared
  integers are the integer objects of their values, and the access time is left out.
\<close>

section \<open>Objects\<close>

datatype strobj = SInt int | SEmb string | SRaw string

fun sdsEncodedObject :: "strobj \<Rightarrow> bool" where
  "sdsEncodedObject (SInt _) = False"
| "sdsEncodedObject _ = True"

fun strobj_ok :: "strobj \<Rightarrow> bool" where
  \<comment> \<open>what the encodings can hold: a \<open>long\<close>, and short strings only when embedded\<close>
  "strobj_ok (SInt v) = in_ll v"
| "strobj_ok (SEmb s) = (length s \<le> 39)"
| "strobj_ok (SRaw s) = True"

abbreviation (input) REDIS_ENCODING_EMBSTR_SIZE_LIMIT :: nat where
  "REDIS_ENCODING_EMBSTR_SIZE_LIMIT \<equiv> 39"

definition ll_bytes :: "int \<Rightarrow> string" where
  \<comment> \<open>\<open>ll2string\<close> into a buffer of 32 bytes on the stack, read back up to its length\<close>
  "ll_bytes v = (let (buf, len) = ll2string (replicate 32 NUL) 32 v in take len buf)"

definition createRawStringObject :: "string \<Rightarrow> strobj" where
  "createRawStringObject s = SRaw s"

definition createEmbeddedStringObject :: "string \<Rightarrow> strobj" where
  "createEmbeddedStringObject s = SEmb s"

definition createStringObject :: "string \<Rightarrow> strobj" where
  "createStringObject s =
     (if length s \<le> REDIS_ENCODING_EMBSTR_SIZE_LIMIT then createEmbeddedStringObject s
      else createRawStringObject s)"

definition createStringObjectFromLongLong :: "int \<Rightarrow> strobj" where
  \<comment> \<open>a shared integer is the integer object of its value; \<open>PORT_LONG\<close> has 64 bits\<close>
  "createStringObjectFromLongLong value =
     (if 0 \<le> value \<and> value < 10000 then SInt value
      else if LLONG_MIN \<le> value \<and> value \<le> LLONG_MAX then SInt value
      else SRaw (ll_bytes value))"

fun getDecodedObject :: "strobj \<Rightarrow> strobj" where
  "getDecodedObject (SInt v) = createStringObject (ll_bytes v)"
| "getDecodedObject ob = ob"

fun str_bytes :: "strobj \<Rightarrow> string" where
  \<comment> \<open>the bytes of a decoded object\<close>
  "str_bytes (SInt v) = ll_bytes v"
| "str_bytes (SEmb s) = s"
| "str_bytes (SRaw s) = s"

fun isObjectRepresentableAsLongLong :: "strobj \<Rightarrow> int option" where
  "isObjectRepresentableAsLongLong (SInt v) = Some v"
| "isObjectRepresentableAsLongLong ob = string2ll (str_bytes ob)"

definition tryObjectEncoding :: "strobj \<Rightarrow> strobj" where
  "tryObjectEncoding ob =
     (if \<not> sdsEncodedObject ob then ob
      else
        let s = str_bytes ob; len = length s in
        case (if len \<le> 21 then string2l LLONG_MIN LLONG_MAX s else None) of
          Some value \<Rightarrow> SInt value
        | None \<Rightarrow>
            if len \<le> REDIS_ENCODING_EMBSTR_SIZE_LIMIT then
              (case ob of SEmb _ \<Rightarrow> ob | _ \<Rightarrow> createEmbeddedStringObject s)
            else ob)"

abbreviation arg_obj :: "string \<Rightarrow> strobj" where
  \<comment> \<open>an argument after \<open>tryObjectEncoding\<close>\<close>
  "arg_obj a \<equiv> tryObjectEncoding (createStringObject a)"

fun memcmp :: "string \<Rightarrow> string \<Rightarrow> int" where
  \<comment> \<open>the sign of the C function's result on two buffers of one length\<close>
  "memcmp (a # as) (b # bs) =
     (if a = b then memcmp as bs else if (of_char a :: nat) < of_char b then -1 else 1)"
| "memcmp _ _ = 0"

definition compareStringObjects :: "strobj \<Rightarrow> strobj \<Rightarrow> int" where
  "compareStringObjects a b =
     (let astr = str_bytes a; bstr = str_bytes b;
          alen = length astr; blen = length bstr;
          minlen = (if alen < blen then alen else blen);
          cmp = memcmp (take minlen astr) (take minlen bstr)
      in if cmp = 0 then s32 (int alen - int blen) else cmp)"

fun equalStringObjects :: "strobj \<Rightarrow> strobj \<Rightarrow> bool" where
  "equalStringObjects (SInt a) (SInt b) = (a = b)"
| "equalStringObjects a b = (compareStringObjects a b = 0)"

fun stringObjectLen :: "strobj \<Rightarrow> nat" where
  "stringObjectLen (SInt v) = snd (ll2string (replicate 32 NUL) 32 v)"
| "stringObjectLen ob = length (str_bytes ob)"

section \<open>Integers from arguments\<close>

definition c_isspace :: "char \<Rightarrow> bool" where
  "c_isspace c \<longleftrightarrow> c \<in> {CHR 0x20, CHR 0x09, CHR 0x0A, CHR 0x0B, CHR 0x0C, CHR 0x0D}"

definition strtoll :: "string \<Rightarrow> int \<times> string \<times> bool" where
  \<comment> \<open>\<open>strtoll(s, &eptr, 10)\<close>: the value, the bytes from \<open>eptr\<close> on, and \<open>errno == ERANGE\<close>\<close>
  "strtoll s =
     (let s1 = dropWhile c_isspace s;
          neg = (s1 \<noteq> [] \<and> hd s1 = CHR ''-'');
          s2 = (if s1 \<noteq> [] \<and> (hd s1 = CHR ''-'' \<or> hd s1 = CHR ''+'') then tl s1 else s1);
          ds = takeWhile is_digit s2;
          v = foldl (\<lambda>n c. n * 10 + digit_val c) 0 ds;
          v = (if neg then - v else v)
      in if ds = [] then (0, s, False)
         else if v < LLONG_MIN then (LLONG_MIN, dropWhile is_digit s2, True)
         else if v > LLONG_MAX then (LLONG_MAX, dropWhile is_digit s2, True)
         else (v, dropWhile is_digit s2, False))"

definition getLongLongFromSds :: "string \<Rightarrow> int option" where
  \<comment> \<open>the bytes are followed by the NUL of the sds\<close>
  "getLongLongFromSds s =
     (let (value, rest, erange) = strtoll s in
      if c_isspace (if s = [] then NUL else hd s) \<or> (rest \<noteq> [] \<and> hd rest \<noteq> NUL) \<or> erange then None
      else Some value)"

fun getLongLongFromObject :: "strobj option \<Rightarrow> int option" where
  \<comment> \<open>\<open>None\<close> is \<open>REDIS_ERR\<close>\<close>
  "getLongLongFromObject None = Some 0"
| "getLongLongFromObject (Some (SInt v)) = Some v"
| "getLongLongFromObject (Some ob) = getLongLongFromSds (str_bytes ob)"

section \<open>The encodings are transparent\<close>

lemma ll_bytes_dec [simp]: "in_ll v \<Longrightarrow> ll_bytes v = dec_int v"
proof -
  assume v: "in_ll v"
  obtain buf len where ll: "ll2string (replicate 32 NUL) 32 v = (buf, len)" by fastforce
  have "length (dec_int v) < 32" using length_dec_int[OF v] by simp
  from ll2string_fits(1,2)[OF v this, of "replicate 32 NUL"] ll
  have "take (Suc len) buf = dec_int v @ [NUL]" "len = length (dec_int v)" by simp_all
  then have "take len (take (Suc len) buf) = dec_int v" by simp
  then show ?thesis by (simp add: ll_bytes_def ll)
qed

lemma stringObjectLen_bytes: "strobj_ok ob \<Longrightarrow> stringObjectLen ob = length (str_bytes ob)"
proof (cases ob)
  case (SInt v)
  assume "strobj_ok ob"
  then have v: "in_ll v" by (simp add: SInt)
  then have "length (dec_int v) < 32" using length_dec_int[OF v] by simp
  then show ?thesis using ll2string_fits(1)[OF v, of 32 "replicate 32 NUL"] v by (simp add: SInt)
qed simp_all

lemma getDecodedObject_bytes: "strobj_ok ob \<Longrightarrow> str_bytes (getDecodedObject ob) = str_bytes ob"
  by (cases ob) (simp_all add: createStringObject_def createEmbeddedStringObject_def createRawStringObject_def)

lemma string2l_long [simp]: "string2l LLONG_MIN LLONG_MAX s = string2ll s"
proof (cases "string2ll s")
  case (Some v)
  then show ?thesis using string2ll_iff[of s v] by (simp add: string2l_def)
qed (simp add: string2l_def)

lemma dec_int_short: "in_ll v \<Longrightarrow> length (dec_int v) \<le> 21"
  using length_dec_int[of v] by simp

lemma encode_int: "length s \<le> 21 \<Longrightarrow> string2ll s = Some v \<longleftrightarrow> in_ll v \<and> s = dec_int v"
  by (simp add: string2ll_iff)

lemma memcmp_eq: "length a = length b \<Longrightarrow> memcmp a b = 0 \<longleftrightarrow> a = b"
  by (induction a b rule: memcmp.induct) auto

lemma compareStringObjects_eq:
  assumes "length (str_bytes a) < 2 ^ 31" "length (str_bytes b) < 2 ^ 31"
  shows "compareStringObjects a b = 0 \<longleftrightarrow> str_bytes a = str_bytes b"
proof -
  let ?a = "str_bytes a" and ?b = "str_bytes b"
  let ?m = "if length ?a < length ?b then length ?a else length ?b"
  have s: "s32 (int (length ?a) - int (length ?b)) = int (length ?a) - int (length ?b)"
    using assms by (intro s32_id) auto
  have "compareStringObjects a b = 0 \<longleftrightarrow> take ?m ?a = take ?m ?b \<and> length ?a = length ?b"
    using memcmp_eq[of "take ?m ?a" "take ?m ?b"] by (auto simp: compareStringObjects_def Let_def s)
  also have "\<dots> \<longleftrightarrow> ?a = ?b" by auto
  finally show ?thesis .
qed

lemma tryObjectEncoding_sound:
  assumes "strobj_ok ob"
  shows "str_bytes (tryObjectEncoding ob) = str_bytes ob \<and> strobj_ok (tryObjectEncoding ob) \<and>
    (tryObjectEncoding ob = SInt v \<longleftrightarrow> in_ll v \<and> str_bytes ob = dec_int v)"
proof (cases "sdsEncodedObject ob")
  case False
  then obtain w where "ob = SInt w" by (cases ob) auto
  with assms show ?thesis using dec_int_inj[of w v] by (auto simp: tryObjectEncoding_def)
next
  case True
  let ?s = "str_bytes ob"
  show ?thesis
  proof (cases "if length ?s \<le> 21 then string2ll ?s else None")
    case (Some w)
    then have w: "in_ll w" "?s = dec_int w" by (auto simp: string2ll_iff split: if_splits)
    then have "tryObjectEncoding ob = SInt w"
      using True Some by (auto simp: tryObjectEncoding_def Let_def split: if_splits)
    with w show ?thesis using dec_int_inj[of w v] by auto
  next
    case None
    then have no: "\<not> (in_ll v \<and> ?s = dec_int v)"
      using dec_int_short[of v] string2ll_iff[of ?s v] by (auto split: if_splits)
    have "tryObjectEncoding ob = (if length ?s \<le> 39 then
        (case ob of SEmb _ \<Rightarrow> ob | _ \<Rightarrow> SEmb ?s) else ob)"
      using True None by (auto simp: tryObjectEncoding_def Let_def createEmbeddedStringObject_def
          split: if_splits strobj.splits)
    with no assms True show ?thesis by (cases ob) auto
  qed
qed



text \<open>C37: two string objects compare equal exactly when their bytes are equal, in every combination of
  encodings: the shortcut on two integers and the comparison of a number's decimal notation
  with an sds agree with comparing bytes.\<close>

theorem equalStringObjects_bytes:
  assumes "strobj_ok a" "strobj_ok b" "length (str_bytes a) < 2 ^ 31" "length (str_bytes b) < 2 ^ 31"
  shows "equalStringObjects a b \<longleftrightarrow> str_bytes a = str_bytes b"
  using assms compareStringObjects_eq[OF assms(3,4)] dec_int_inj
  by (cases "(a, b)" rule: equalStringObjects.cases) auto

theorem equalStringObjects_bytes_witness:
  "equalStringObjects (SInt 12) (SEmb ''12'') \<and> \<not> equalStringObjects (SInt 12) (SRaw ''012'')"
proof -
  have "dec_int 12 = ''12''" by code_simp
  then show ?thesis
    using equalStringObjects_bytes[of "SInt 12" "SEmb ''12''"] equalStringObjects_bytes[of "SInt 12" "SRaw ''012''"]
    by simp
qed

text \<open>the integer arguments of commands are read more liberally than the encoding does: a byte
  string is cut at its first NUL byte, a plus sign and leading zeros are accepted, and the empty
  string is zero, although none of these is the notation of an integer.\<close>

theorem getLongLong_liberal:
  "getLongLongFromSds (''5'' @ [NUL] @ ''x'') = Some 5 \<and> getLongLongFromSds ''+05'' = Some 5 \<and>
   getLongLongFromSds [] = Some 0 \<and>
   isObjectRepresentableAsLongLong (SRaw (''5'' @ [NUL] @ ''x'')) = None"
  by code_simp

end
