(* ===== verification/SetObj.thy ===== *)
theory SetObj
  imports Intset Object
begin

text \<open>
  Set objects (the functions \<open>setType*\<close> of \<open>src/redis-3.0/src/t_set.c\<close>): a set is encoded as an intset, or as a
  hash table whose keys are string objects. A hash table is the set of the bytes of its keys; the object of a key is the
  encoding of its bytes (\<open>arg_obj\<close>), because members are encoded when they are added. \<open>None\<close> is a failed assertion or an
  access outside an intset.

  What the code does not determine is a record (\<open>set_env\<close>): the bytes that \<open>zrealloc\<close> adds, the
  numbers of \<open>rand()\<close>, the order in which an iterator visits a hash table, the key that \<open>dictGetRandomKey\<close> finds, and
  the order that \<open>qsort\<close> gives to sets that compare equal. Their first argument tells the calls within one command apart.
\<close>

section \<open>Set objects\<close>

datatype set_obj = IntSet intset | HashSet "string set"

record set_env =
  set_junk :: "nat \<Rightarrow> 8 word"
  set_rand :: "nat \<Rightarrow> nat"
  set_visit :: "nat \<Rightarrow> string set \<Rightarrow> string list"
  set_pick :: "nat \<Rightarrow> string set \<Rightarrow> string"
  set_qsort :: "(set_obj option \<Rightarrow> set_obj option \<Rightarrow> int) \<Rightarrow> (string \<times> set_obj option) list \<Rightarrow> (string \<times> set_obj option) list"

definition setTypeCreate :: "strobj \<Rightarrow> set_obj" where
  "setTypeCreate value =
     (if isObjectRepresentableAsLongLong value \<noteq> None then IntSet intsetNew else HashSet {})"

definition setTypeSize :: "set_obj \<Rightarrow> nat" where
  "setTypeSize subject = (case subject of HashSet A \<Rightarrow> card A | IntSet is \<Rightarrow> intsetLen is)"

datatype set_elem = EInt int | EObj strobj

definition setTypeNext_all :: "set_env \<Rightarrow> nat \<Rightarrow> set_obj \<Rightarrow> set_elem list option" where
  \<comment> \<open>all that \<open>setTypeNext\<close> gives until the end of the set\<close>
  "setTypeNext_all env n subject =
     (case subject of
        HashSet A \<Rightarrow> Some (map (\<lambda>b. EObj (arg_obj b)) (set_visit env n A))
      | IntSet is \<Rightarrow> map_option (map EInt) (those (map (\<lambda>i. intsetGet_at is (int i)) [0..<intsetLen is])))"

fun elem_obj :: "set_elem \<Rightarrow> strobj" where
  \<comment> \<open>\<open>setTypeNextObject\<close>\<close>
  "elem_obj (EInt v) = createStringObjectFromLongLong v"
| "elem_obj (EObj ob) = ob"

definition setTypeConvert :: "set_obj \<Rightarrow> set_obj option" where
  "setTypeConvert subject =
     (case subject of
        HashSet _ \<Rightarrow> None
      | IntSet is \<Rightarrow> do {
          vs \<leftarrow> those (map (\<lambda>i. intsetGet_at is (int i)) [0..<intsetLen is]);
          let bs = map (\<lambda>v. str_bytes (createStringObjectFromLongLong v)) vs;
          if distinct bs then Some (HashSet (set bs)) else None })"

definition setTypeAdd :: "set_env \<Rightarrow> nat \<Rightarrow> set_obj \<Rightarrow> strobj \<Rightarrow> (set_obj \<times> bool) option" where
  \<comment> \<open>with the setting \<open>set_max_intset_entries\<close>\<close>
  "setTypeAdd env max_entries subject value =
     (case subject of
        HashSet A \<Rightarrow>
          Some (if str_bytes value \<in> A then (HashSet A, False) else (HashSet (insert (str_bytes value) A), True))
      | IntSet is \<Rightarrow>
          (case isObjectRepresentableAsLongLong value of
             Some llval \<Rightarrow> do {
               (is, success) \<leftarrow> intsetAdd (set_junk env) is llval;
               if success then
                 if intsetLen is > max_entries then do { s \<leftarrow> setTypeConvert (IntSet is); Some (s, True) }
                 else Some (IntSet is, True)
               else Some (IntSet is, False) }
           | None \<Rightarrow> do {
               s \<leftarrow> setTypeConvert subject;
               (case s of
                  HashSet A \<Rightarrow>
                    if str_bytes value \<in> A then None else Some (HashSet (insert (str_bytes value) A), True)
                | IntSet _ \<Rightarrow> None) }))"

definition setTypeRemove :: "set_env \<Rightarrow> set_obj \<Rightarrow> strobj \<Rightarrow> (set_obj \<times> bool) option" where
  "setTypeRemove env setobj value =
     (case setobj of
        HashSet A \<Rightarrow>
          Some (if str_bytes value \<in> A then (HashSet (A - {str_bytes value}), True) else (HashSet A, False))
      | IntSet is \<Rightarrow>
          (case isObjectRepresentableAsLongLong value of
             Some llval \<Rightarrow> do { (is, success) \<leftarrow> intsetRemove (set_junk env) is llval; Some (IntSet is, success) }
           | None \<Rightarrow> Some (IntSet is, False)))"

definition setTypeIsMember :: "set_obj \<Rightarrow> strobj \<Rightarrow> bool option" where
  "setTypeIsMember subject value =
     (case subject of
        HashSet A \<Rightarrow> Some (str_bytes value \<in> A)
      | IntSet is \<Rightarrow>
          (case isObjectRepresentableAsLongLong value of
             Some llval \<Rightarrow> intsetFind is llval
           | None \<Rightarrow> Some False))"

definition setTypeRandomElement :: "set_env \<Rightarrow> nat \<Rightarrow> set_obj \<Rightarrow> set_elem option" where
  "setTypeRandomElement env n setobj =
     (case setobj of
        HashSet A \<Rightarrow> Some (EObj (arg_obj (set_pick env n A)))
      | IntSet is \<Rightarrow> map_option EInt (intsetRandom is (set_rand env n)))"

section \<open>Adding and removing one element after another\<close>

fun add_each :: "('s \<Rightarrow> 'e \<Rightarrow> ('s \<times> bool) option) \<Rightarrow> 'e list \<Rightarrow> 's \<Rightarrow> nat \<Rightarrow> ('s \<times> nat) option" where
  \<comment> \<open>the set and the number of elements that were new\<close>
  "add_each add [] s n = Some (s, n)"
| "add_each add (e # es) s n = do { (s, new) \<leftarrow> add s e; add_each add es s (if new then n + 1 else n) }"

fun remove_each :: "('s \<Rightarrow> 'e \<Rightarrow> ('s \<times> bool) option) \<Rightarrow> 'e list \<Rightarrow> 's \<Rightarrow> nat \<Rightarrow> ('s \<times> nat) option" where
  "remove_each rem [] s n = Some (s, n)"
| "remove_each rem (e # es) s n = do { (s, old) \<leftarrow> rem s e; remove_each rem es s (if old then n - 1 else n) }"

text \<open>A sequence of requests to a set, and its answers.\<close>

datatype 'e set_op = OpAdd 'e | OpRemove 'e | OpFind 'e

fun op_elem :: "'e set_op \<Rightarrow> 'e" where
  "op_elem (OpAdd e) = e"
| "op_elem (OpRemove e) = e"
| "op_elem (OpFind e) = e"

fun run_ops :: "('s \<Rightarrow> 'e \<Rightarrow> ('s \<times> bool) option) \<Rightarrow> ('s \<Rightarrow> 'e \<Rightarrow> ('s \<times> bool) option) \<Rightarrow> ('s \<Rightarrow> 'e \<Rightarrow> bool option) \<Rightarrow>
    'e set_op list \<Rightarrow> 's \<Rightarrow> ('s \<times> bool list) option" where
  "run_ops add rem mem [] s = Some (s, [])"
| "run_ops add rem mem (OpAdd e # ops) s =
     do { (s, b) \<leftarrow> add s e; (s, bs) \<leftarrow> run_ops add rem mem ops s; Some (s, b # bs) }"
| "run_ops add rem mem (OpRemove e # ops) s =
     do { (s, b) \<leftarrow> rem s e; (s, bs) \<leftarrow> run_ops add rem mem ops s; Some (s, b # bs) }"
| "run_ops add rem mem (OpFind e # ops) s =
     do { b \<leftarrow> mem s e; (s, bs) \<leftarrow> run_ops add rem mem ops s; Some (s, b # bs) }"

fun spec_ops :: "'a set_op list \<Rightarrow> 'a set \<Rightarrow> 'a set \<times> bool list" where
  \<comment> \<open>what a set answers\<close>
  "spec_ops [] A = (A, [])"
| "spec_ops (OpAdd x # ops) A = (case spec_ops ops (insert x A) of (B, bs) \<Rightarrow> (B, (x \<notin> A) # bs))"
| "spec_ops (OpRemove x # ops) A = (case spec_ops ops (A - {x}) of (B, bs) \<Rightarrow> (B, (x \<in> A) # bs))"
| "spec_ops (OpFind x # ops) A = (case spec_ops ops A of (B, bs) \<Rightarrow> (B, (x \<in> A) # bs))"

section \<open>The interface of a set\<close>

locale set_impl =
  fixes rep :: "'s \<Rightarrow> 'a set \<Rightarrow> bool" and good :: "'e \<Rightarrow> bool" and key :: "'e \<Rightarrow> 'a" and room :: "'a set \<Rightarrow> bool"
    and add rem :: "'s \<Rightarrow> 'e \<Rightarrow> ('s \<times> bool) option" and mem :: "'s \<Rightarrow> 'e \<Rightarrow> bool option"
  assumes rep_finite: "rep s A \<Longrightarrow> finite A"
    and room_subset: "room B \<Longrightarrow> A \<subseteq> B \<Longrightarrow> room A"
    and add: "rep s A \<Longrightarrow> good e \<Longrightarrow> room (insert (key e) A) \<Longrightarrow>
      \<exists>s'. add s e = Some (s', key e \<notin> A) \<and> rep s' (insert (key e) A)"
    and remove: "rep s A \<Longrightarrow> good e \<Longrightarrow> \<exists>s'. rem s e = Some (s', key e \<in> A) \<and> rep s' (A - {key e})"
    and member: "rep s A \<Longrightarrow> good e \<Longrightarrow> mem s e = Some (key e \<in> A)"
begin

lemma add_each_ok:
  assumes "rep s A" "\<forall>e \<in> set es. good e" "room (A \<union> key ` set es)" "n = card A"
  shows "\<exists>s'. add_each add es s n = Some (s', card (A \<union> key ` set es)) \<and> rep s' (A \<union> key ` set es)"
  using assms
proof (induction es arbitrary: s A n)
  case (Cons e es)
  have "room (insert (key e) A)" using room_subset[OF Cons.prems(3)] by auto
  then obtain s' where s': "add s e = Some (s', key e \<notin> A)" "rep s' (insert (key e) A)"
    using add[OF Cons.prems(1)] Cons.prems(2) by auto
  have "(if key e \<notin> A then n + 1 else n) = card (insert (key e) A)"
    using rep_finite[OF Cons.prems(1)] Cons.prems(4) by (simp add: insert_absorb)
  then show ?case using Cons.IH[OF s'(2), of "if key e \<notin> A then n + 1 else n"] Cons.prems(2,3) s'(1) by auto
qed simp

lemma remove_each_ok:
  assumes "rep s A" "\<forall>e \<in> set es. good e" "n = card A"
  shows "\<exists>s'. remove_each rem es s n = Some (s', card (A - key ` set es)) \<and> rep s' (A - key ` set es)"
  using assms
proof (induction es arbitrary: s A n)
  case (Cons e es)
  obtain s' where s': "rem s e = Some (s', key e \<in> A)" "rep s' (A - {key e})"
    using remove[OF Cons.prems(1)] Cons.prems(2) by auto
  have "(if key e \<in> A then n - 1 else n) = card (A - {key e})"
    using rep_finite[OF Cons.prems(1)] Cons.prems(3) by simp
  moreover have "A - {key e} - key ` set es = A - key ` set (e # es)" by auto
  ultimately show ?case using Cons.IH[OF s'(2)] Cons.prems(2) s'(1) by auto
qed simp

lemma run_ops_ok:
  assumes "rep s A" "\<forall>e \<in> op_elem ` set ops. good e" "room (A \<union> key ` op_elem ` set ops)"
  shows "\<exists>s'. run_ops add rem mem ops s = Some (s', snd (spec_ops (map (map_set_op key) ops) A)) \<and>
    rep s' (fst (spec_ops (map (map_set_op key) ops) A))"
  using assms
proof (induction ops arbitrary: s A)
  case (Cons p ops)
  have g: "good (op_elem p)" "\<forall>e \<in> op_elem ` set ops. good e" using Cons.prems(2) by simp_all
  show ?case
  proof (cases p)
    case (OpAdd e)
    have "room (insert (key e) A)" "room (insert (key e) A \<union> key ` op_elem ` set ops)"
      using room_subset[OF Cons.prems(3)] OpAdd by auto
    moreover from add[OF Cons.prems(1) _ this(1)] g(1) OpAdd
    obtain s' where "add s e = Some (s', key e \<notin> A)" "rep s' (insert (key e) A)" by auto
    ultimately show ?thesis using Cons.IH[OF _ g(2)] OpAdd by (fastforce split: prod.split)
  next
    case (OpRemove e)
    have "room (A - {key e} \<union> key ` op_elem ` set ops)"
      by (rule room_subset[OF Cons.prems(3)]) auto
    moreover from remove[OF Cons.prems(1)] g(1) OpRemove
    obtain s' where "rem s e = Some (s', key e \<in> A)" "rep s' (A - {key e})" by auto
    ultimately show ?thesis using Cons.IH[OF _ g(2)] OpRemove by (fastforce split: prod.split)
  next
    case (OpFind e)
    have "room (A \<union> key ` op_elem ` set ops)" by (rule room_subset[OF Cons.prems(3)]) auto
    then show ?thesis using Cons.IH[OF Cons.prems(1) g(2)] member[OF Cons.prems(1)] g(1) OpFind
      by (fastforce split: prod.split)
  qed
qed simp

end

section \<open>Intsets\<close>

definition intset_of :: "intset \<Rightarrow> int set \<Rightarrow> bool" where
  "intset_of is A \<longleftrightarrow> (\<exists>vs. intset_rep is vs \<and> A = set vs)"

lemma fits_8: "fits 8 v \<longleftrightarrow> in_ll v"
  by (auto simp: fits_def)

lemma intset_rep_card: "intset_rep is vs \<Longrightarrow> card (set vs) = length vs"
  using intset_repD(4)[of "is" vs] by (simp add: distinct_card sorted_wrt_distinct)

interpretation ints: set_impl intset_of "fits 8" id "\<lambda>A. finite A \<and> card A < 2 ^ 29" "intsetAdd junk" "intsetRemove junk" intsetFind
  for junk
proof
  fix s A and e :: int
  assume r: "intset_of s A"
  then show "finite A" by (auto simp: intset_of_def)
  obtain vs where vs: "intset_rep s vs" "A = set vs" using r by (auto simp: intset_of_def)
  show "intsetFind s e = Some (id e \<in> A)" using intsetFind_ok[OF vs(1)] vs(2) by simp
  assume e: "fits 8 e"
  show "\<exists>s'. intsetRemove junk s e = Some (s', id e \<in> A) \<and> intset_of s' (A - {id e})"
    using intsetRemove_ok[OF vs(1) e, of junk] vs(2) by (auto simp: intset_of_def)
  assume c: "finite (insert (id e) A) \<and> card (insert (id e) A) < 2 ^ 29"
  show "\<exists>s'. intsetAdd junk s e = Some (s', id e \<notin> A) \<and> intset_of s' (insert (id e) A)"
  proof (cases "e \<in> A")
    case True
    then show ?thesis using intsetAdd_present[OF vs(1), of e junk] vs(2) r by (auto simp: insert_absorb)
  next
    case False
    then have "Suc (length vs) < 2 ^ 29" using c vs(2) intset_rep_card[OF vs(1)] by simp
    then show ?thesis using intsetAdd_ok[OF vs(1) e, of junk] vs(2) by (auto simp: intset_of_def)
  qed
qed (auto intro: card_mono le_less_trans finite_subset)

section \<open>Set objects implement sets of strings\<close>

definition set_rep :: "set_obj \<Rightarrow> string set \<Rightarrow> bool" where
  "set_rep s A \<longleftrightarrow>
     (case s of
        IntSet is \<Rightarrow> \<exists>vs. intset_rep is vs \<and> length vs < 2 ^ 28 \<and> A = dec_int ` set vs
      | HashSet B \<Rightarrow> finite A \<and> A = B)"

definition set_good :: "nat \<Rightarrow> strobj \<Rightarrow> bool" where
  \<comment> \<open>a well-formed object, under a setting that intsets have room for\<close>
  "set_good max_entries e \<longleftrightarrow> strobj_ok e \<and> max_entries < 2 ^ 28"

lemma dec_inj: "dec m = dec n \<Longrightarrow> m = n"
proof (induction m arbitrary: n rule: dec.induct)
  case (1 m)
  consider "m < 10" "n < 10" | "m < 10" "\<not> n < 10" | "\<not> m < 10" "n < 10" | "\<not> m < 10" "\<not> n < 10" by blast
  then show ?case
  proof cases
    case 4
    then have "dec (m div 10) = dec (n div 10)" "digit_char (m mod 10) = digit_char (n mod 10)"
      using "1.prems" by (simp_all add: dec.simps[of m] dec.simps[of n])
    then have "m div 10 = n div 10" "m mod 10 = n mod 10" using "1.IH" 4(1) digit_char_inj by simp_all
    then show ?thesis by (metis div_mult_mod_eq)
  qed (use "1.prems" digit_char_inj in \<open>simp_all add: dec.simps[of m] dec.simps[of n]\<close>)
qed

lemma dec_not_minus: "dec n \<noteq> CHR ''-'' # s"
proof
  assume "dec n = CHR ''-'' # s"
  then have "is_digit CHR ''-''" using dec_digits[of "CHR ''-''" n] by simp
  then show False by (simp add: is_digit_def)
qed

lemma dec_int_eq [simp]: "dec_int v = dec_int w \<longleftrightarrow> v = w"
  using dec_inj[of "nat v" "nat w"] dec_inj[of "nat (- v)" "nat (- w)"] dec_not_minus[of "nat v"] dec_not_minus[of "nat w"]
  by (auto simp: dec_int_def) (metis)+

lemma representable_iff:
  assumes "strobj_ok ob"
  shows "isObjectRepresentableAsLongLong ob = Some v \<longleftrightarrow> in_ll v \<and> str_bytes ob = dec_int v"
  using assms string2ll_iff by (cases ob) auto

lemmas representableD = iffD1[OF representable_iff, THEN conjunct1] iffD1[OF representable_iff, THEN conjunct2]

lemma not_representable:
  assumes "strobj_ok ob" "isObjectRepresentableAsLongLong ob = None"
  shows "\<forall>v. in_ll v \<longrightarrow> str_bytes ob \<noteq> dec_int v"
  using representable_iff[OF assms(1)] assms(2) by (metis option.distinct(1))

lemma createLongLong_bytes [simp]: "in_ll v \<Longrightarrow> str_bytes (createStringObjectFromLongLong v) = dec_int v"
  by (auto simp: createStringObjectFromLongLong_def)

lemma those_map: "(\<And>x. x \<in> set xs \<Longrightarrow> f x = Some (g x)) \<Longrightarrow> those (map f xs) = Some (map g xs)"
  by (induction xs) simp_all

lemma intset_all:
  assumes "intset_rep is vs"
  shows "those (map (\<lambda>i. intsetGet_at is (int i)) [0..<intsetLen is]) = Some vs"
proof -
  have "those (map (\<lambda>i. intsetGet_at is (int i)) [0..<length vs]) = Some (map (nth vs) [0..<length vs])"
    by (rule those_map) (simp add: get_at[OF assms])
  then show ?thesis using intset_repD(2)[OF assms] by (simp add: intsetLen_def map_nth)
qed

lemma intset_in_ll: "intset_rep is vs \<Longrightarrow> v \<in> set vs \<Longrightarrow> in_ll v"
proof -
  assume r: "intset_rep is vs" and "v \<in> set vs"
  then have f: "fits (is_encoding is) v" using intset_repD(5) by blast
  have "is_encoding is \<le> 8" using intset_repD(1)[OF r] by auto
  then have "fits 8 v" by (rule fits_mono[OF f])
  then show ?thesis by (simp only: fits_8)
qed

lemma dec_int_image: "in_ll v \<Longrightarrow> dec_int v \<in> dec_int ` A \<longleftrightarrow> v \<in> A"
  by auto

lemma setTypeConvert_ok:
  assumes "intset_rep is vs"
  shows "setTypeConvert (IntSet is) = Some (HashSet (dec_int ` set vs))"
proof -
  have m: "map (\<lambda>v. str_bytes (createStringObjectFromLongLong v)) vs = map dec_int vs"
    using intset_in_ll[OF assms] by (intro map_cong refl createLongLong_bytes) auto
  have "distinct (map dec_int vs)"
    using sorted_wrt_distinct[OF intset_repD(4)[OF assms]] by (simp add: distinct_map inj_on_def)
  then show ?thesis by (simp add: setTypeConvert_def intset_all[OF assms] Let_def m)
qed

lemma setTypeAdd_ok:
  assumes "set_rep s A" "set_good mx e"
  shows "\<exists>s'. setTypeAdd env mx s e = Some (s', str_bytes e \<notin> A) \<and> set_rep s' (insert (str_bytes e) A)"
proof (cases s)
  case (HashSet B)
  then show ?thesis using assms(1) by (auto simp: setTypeAdd_def set_rep_def insert_absorb)
next
  case (IntSet "is")
  then obtain vs where vs: "intset_rep is vs" "length vs < 2 ^ 28" "A = dec_int ` set vs"
    using assms(1) by (auto simp: set_rep_def)
  have e: "strobj_ok e" "mx < 2 ^ 28" using assms(2) by (simp_all add: set_good_def)
  show ?thesis
  proof (cases "isObjectRepresentableAsLongLong e")
    case None
    have "str_bytes e \<notin> A" using not_representable[OF e(1) None] intset_in_ll[OF vs(1)] vs(3) by auto
    then show ?thesis using setTypeConvert_ok[OF vs(1)] None IntSet vs(3) by (simp add: setTypeAdd_def set_rep_def)
  next
    case (Some v)
    then have v: "in_ll v" "str_bytes e = dec_int v" using representableD[OF e(1) Some] by simp_all
    obtain is' ws where w: "intsetAdd (set_junk env) is v = Some (is', v \<notin> set vs)" "intset_rep is' ws" "set ws = insert v (set vs)"
      using intsetAdd_ok[OF vs(1), of v "set_junk env"] v(1) vs(2) fits_8 by auto
    have A: "str_bytes e \<in> A \<longleftrightarrow> v \<in> set vs" "insert (str_bytes e) A = dec_int ` set ws"
      using v vs(3) w(3) by (simp_all add: dec_int_image)
    have l: "intsetLen is' = length ws" using intset_repD(2)[OF w(2)] by (simp add: intsetLen_def)
    show ?thesis
    proof (cases "v \<in> set vs")
      case True
      then have "length ws = length vs" using w(3) intset_rep_card[OF w(2)] intset_rep_card[OF vs(1)] by (simp add: insert_absorb)
      then have "set_rep (IntSet is') (insert (str_bytes e) A)" unfolding A(2) using w(2) vs(2) by (auto simp: set_rep_def)
      then show ?thesis using w(1) A(1) True IntSet Some by (simp add: setTypeAdd_def)
    next
      case False
      have "set_rep (HashSet (dec_int ` set ws)) (insert (str_bytes e) A)"
        "length ws \<le> mx \<Longrightarrow> set_rep (IntSet is') (insert (str_bytes e) A)"
        unfolding A(2) using w(2) e(2) by (auto simp: set_rep_def)
      then show ?thesis using w(1) A(1) False IntSet Some setTypeConvert_ok[OF w(2)] l by (simp add: setTypeAdd_def)
    qed
  qed
qed

lemma setTypeRemove_ok:
  assumes "set_rep s A" "strobj_ok e"
  shows "\<exists>s'. setTypeRemove env s e = Some (s', str_bytes e \<in> A) \<and> set_rep s' (A - {str_bytes e})"
proof (cases s)
  case (HashSet B)
  then show ?thesis using assms(1) by (auto simp: setTypeRemove_def set_rep_def)
next
  case (IntSet "is")
  then obtain vs where vs: "intset_rep is vs" "length vs < 2 ^ 28" "A = dec_int ` set vs"
    using assms(1) by (auto simp: set_rep_def)
  show ?thesis
  proof (cases "isObjectRepresentableAsLongLong e")
    case None
    have "str_bytes e \<notin> A" using not_representable[OF assms(2) None] intset_in_ll[OF vs(1)] vs(3) by auto
    then show ?thesis using None IntSet assms(1) by (simp add: setTypeRemove_def)
  next
    case (Some v)
    then have v: "in_ll v" "str_bytes e = dec_int v" using representableD[OF assms(2) Some] by simp_all
    obtain is' ws where w: "intsetRemove (set_junk env) is v = Some (is', v \<in> set vs)" "intset_rep is' ws" "set ws = set vs - {v}"
      using intsetRemove_ok[OF vs(1), of v "set_junk env"] v(1) fits_8 by blast
    have "length ws \<le> length vs"
      using card_mono[of "set vs" "set ws"] w(3) intset_rep_card[OF w(2)] intset_rep_card[OF vs(1)] by simp
    moreover have "A - {str_bytes e} = dec_int ` set ws" unfolding vs(3) v(2) w(3) by auto
    moreover have "str_bytes e \<in> A \<longleftrightarrow> v \<in> set vs" using v vs(3) by (simp add: dec_int_image)
    moreover have "set_rep (IntSet is') (dec_int ` set ws)" using w(2) calculation(1) vs(2) by (auto simp: set_rep_def)
    ultimately show ?thesis using w(1) IntSet Some by (simp add: setTypeRemove_def)
  qed
qed

lemma setTypeIsMember_ok:
  assumes "set_rep s A" "strobj_ok e"
  shows "setTypeIsMember s e = Some (str_bytes e \<in> A)"
proof (cases s)
  case (HashSet B)
  then show ?thesis using assms(1) by (simp add: setTypeIsMember_def set_rep_def)
next
  case (IntSet "is")
  then obtain vs where vs: "intset_rep is vs" "A = dec_int ` set vs" using assms(1) by (auto simp: set_rep_def)
  show ?thesis
  proof (cases "isObjectRepresentableAsLongLong e")
    case None
    then show ?thesis using not_representable[OF assms(2) None] intset_in_ll[OF vs(1)] vs(2) IntSet
      by (auto simp: setTypeIsMember_def)
  next
    case (Some v)
    then have "in_ll v" "str_bytes e = dec_int v" using representableD[OF assms(2) Some] by simp_all
    then show ?thesis using intsetFind_ok[OF vs(1), of v] vs(2) Some IntSet by (simp add: setTypeIsMember_def dec_int_image)
  qed
qed

lemma set_rep_finite: "set_rep s A \<Longrightarrow> finite A"
  by (auto simp: set_rep_def split: set_obj.splits)

lemma set_rep_unique: "set_rep s A \<Longrightarrow> set_rep s B \<Longrightarrow> A = B"
proof (cases s)
  case (IntSet "is")
  assume "set_rep s A" "set_rep s B"
  then obtain vs ws where "intset_rep is vs" "intset_rep is ws" "A = dec_int ` set vs" "B = dec_int ` set ws"
    using IntSet by (auto simp: set_rep_def)
  then show ?thesis using intset_all[of "is" vs] intset_all[of "is" ws] by simp
qed (auto simp: set_rep_def)

lemma setTypeSize_ok: "set_rep s A \<Longrightarrow> setTypeSize s = card A"
proof (cases s)
  case (IntSet "is")
  assume "set_rep s A"
  then obtain vs where vs: "intset_rep is vs" "A = dec_int ` set vs" using IntSet by (auto simp: set_rep_def)
  have "inj_on dec_int (set vs)" by (simp add: inj_on_def)
  then show ?thesis using vs IntSet intset_repD(2)[OF vs(1)] intset_rep_card[OF vs(1)]
    by (simp add: setTypeSize_def intsetLen_def card_image)
qed (auto simp: set_rep_def setTypeSize_def)

lemma set_rep_empty [simp]: "set_rep (IntSet intsetNew) {}" "set_rep (HashSet {}) {}"
  by (auto simp: set_rep_def intro!: exI[of _ "[]"])

interpretation sets: set_impl set_rep "set_good max_entries" str_bytes "\<lambda>_. True" "setTypeAdd env max_entries"
    "setTypeRemove env" setTypeIsMember for env max_entries
  by unfold_locales
    (auto simp: setTypeAdd_ok setTypeRemove_ok setTypeIsMember_ok set_good_def set_rep_finite)

section \<open>Iteration\<close>

definition env_ok :: "set_env \<Rightarrow> bool" where
  \<comment> \<open>what the hash table and the C library promise\<close>
  "env_ok env \<longleftrightarrow>
     (\<forall>n A. finite A \<longrightarrow> set (set_visit env n A) = A \<and> distinct (set_visit env n A)) \<and>
     (\<forall>n A. finite A \<longrightarrow> A \<noteq> {} \<longrightarrow> set_pick env n A \<in> A) \<and>
     (\<forall>cmp xs x. count_list (set_qsort env cmp xs) x = count_list xs x)"

fun elem_good :: "set_elem \<Rightarrow> bool" where
  "elem_good (EInt v) = in_ll v"
| "elem_good (EObj ob) = strobj_ok ob"

lemma elem_good_obj [simp]: "elem_good e \<Longrightarrow> strobj_ok (elem_obj e)"
  by (cases e) (auto simp: createStringObjectFromLongLong_def)

lemma env_okD:
  assumes "env_ok env" "finite A"
  shows "set (set_visit env n A) = A" "distinct (set_visit env n A)" "A \<noteq> {} \<Longrightarrow> set_pick env n A \<in> A"
  using assms by (simp_all add: env_ok_def)

lemma env_ok_sort: "env_ok env \<Longrightarrow> set (set_qsort env cmp xs) = set xs"
proof -
  assume "env_ok env"
  then have "count_list (set_qsort env cmp xs) x = 0 \<longleftrightarrow> count_list xs x = 0" for x
    unfolding env_ok_def by metis
  then show ?thesis by (auto simp: count_list_0_iff)
qed

lemma arg_obj_good: "strobj_ok (arg_obj b)" "str_bytes (arg_obj b) = b"
  using tryObjectEncoding_sound[of "createStringObject b"]
  by (simp_all add: createStringObject_def createEmbeddedStringObject_def createRawStringObject_def)

lemma setTypeNext_all_ok:
  assumes "set_rep s A" "env_ok env"
  shows "\<exists>es. setTypeNext_all env n s = Some es \<and> set (map (str_bytes \<circ> elem_obj) es) = A \<and>
    distinct (map (str_bytes \<circ> elem_obj) es) \<and> (\<forall>e \<in> set es. elem_good e)"
proof (cases s)
  case (HashSet B)
  then have "finite B" "A = B" using assms(1) by (auto simp: set_rep_def)
  then have s: "s = HashSet A" "finite A" using HashSet by simp_all
  note this(1) moreover note env_okD[OF assms(2) s(2), of n]
  moreover have "map (str_bytes \<circ> elem_obj) (map (\<lambda>b. EObj (arg_obj b)) xs) = xs" for xs
    by (simp add: comp_def arg_obj_good)
  moreover have "setTypeNext_all env n (HashSet A) = Some (map (\<lambda>b. EObj (arg_obj b)) (set_visit env n A))"
    by (simp add: setTypeNext_all_def)
  moreover have "\<forall>e \<in> set (map (\<lambda>b. EObj (arg_obj b)) xs). elem_good e" for xs
    by (simp add: arg_obj_good)
  ultimately show ?thesis by (intro exI[of _ "map (\<lambda>b. EObj (arg_obj b)) (set_visit env n A)"]) (simp only: simp_thms)
next
  case (IntSet "is")
  then obtain vs where vs: "intset_rep is vs" "A = dec_int ` set vs" using assms(1) by (auto simp: set_rep_def)
  have i: "in_ll v" if "v \<in> set vs" for v using intset_in_ll[OF vs(1) that] .
  have m: "map (str_bytes \<circ> elem_obj) (map EInt vs) = map dec_int vs" using i by simp
  have "distinct (map dec_int vs)"
    using sorted_wrt_distinct[OF intset_repD(4)[OF vs(1)]] by (simp add: distinct_map inj_on_def)
  then show ?thesis using IntSet intset_all[OF vs(1)] vs(2) m i
    by (intro exI[of _ "map EInt vs"]) (simp add: setTypeNext_all_def del: map_map)
qed

lemma setTypeRandomElement_ok:
  assumes "set_rep s A" "env_ok env" "A \<noteq> {}"
  shows "\<exists>e. setTypeRandomElement env n s = Some e \<and> str_bytes (elem_obj e) \<in> A \<and> elem_good e"
proof (cases s)
  case (HashSet B)
  then show ?thesis using assms env_okD[OF assms(2), of A n] by (auto simp: setTypeRandomElement_def set_rep_def arg_obj_good)
next
  case (IntSet "is")
  then obtain vs where vs: "intset_rep is vs" "A = dec_int ` set vs" using assms(1) by (auto simp: set_rep_def)
  then have ne: "vs \<noteq> []" using assms(3) by auto
  let ?v = "vs ! (set_rand env n mod length vs)"
  have v: "?v \<in> set vs" using ne by simp
  have "in_ll ?v" by (rule intset_in_ll[OF vs(1) v])
  then show ?thesis using IntSet intsetRandom_ok[OF vs(1) ne, of "set_rand env n"] vs(2) v
    by (simp add: setTypeRandomElement_def)
qed

lemma setTypeCreate_ok [simp]: "set_rep (setTypeCreate v) {}"
  by (simp add: setTypeCreate_def)

end
