(* ===== verification/Server.thy ===== *)
theory Server
  imports SetObj
begin

text \<open>
  The state of the server that the commands work on: the parts of \<open>redisServer\<close>, \<open>redisDb\<close>
  and \<open>redisClient\<close> (\<open>src/redis-3.0/src/redis.h\<close>) that the modelled commands read or write, and
  the primitives they share. A dictionary is a map or a set: \<open>DictHistory\<close> shows that the
  hash table implements one. An adlist is a list. A client is named by a number.

  The clock is a stream of readings: each call of \<open>mstime()\<close> takes the next one. What a client
  is sent is the sequence of protocol elements its handlers add; what is fed to the append-only
  file and to the replicas is the sequence of commands, with the number of their database.
\<close>

section \<open>Values and databases\<close>

text \<open>The value of a key. A list has the bytes of its elements and one of two
  encodings; a set is an object of \<open>SetObj\<close>. A hash is the sequence of the fields and values of its
  ziplist, or a hash table. A sorted set is named by the address of its structure, which the modelled
  commands store and move but do not look into.\<close>

datatype list_encoding = ZIPLIST | LINKEDLIST

datatype hash_obj = HashZip "(string \<times> string) list" | HashTable "string \<rightharpoonup> string"

datatype robj = StrObj strobj | ListObj list_encoding "string list" | SetObj set_obj | ZsetObj nat | HashObj hash_obj

record redisDb =
  kv :: "string \<rightharpoonup> robj"
  expires :: "string \<rightharpoonup> int"
  blocking_keys :: "string \<rightharpoonup> nat list"
  db_ready_keys :: "string set"
  watched_keys :: "string \<rightharpoonup> nat list"

section \<open>Clients\<close>

datatype reply =
    RStatus string | RError string | RInt int | RBulk string | RNullBulk | RMulti int | RNullMulti

text \<open>The entry of the command table that a request resolves to. \<open>cmd_proc\<close> names the procedure that the
  entry points to, \<open>getkeys_proc\<close> the one that finds the keys among the arguments.\<close>

datatype btype = REDIS_BLOCKED_NONE | REDIS_BLOCKED_LIST | REDIS_BLOCKED_WAIT

datatype getkeys = zunionInterGetKeysProc | evalGetKeysProc | sortGetKeysProc

record command =
  cmd_name :: string
  cmd_proc :: string
  arity :: int
  cmd_write :: bool
  cmd_readonly :: bool
  cmd_denyoom :: bool
  cmd_admin :: bool
  cmd_pubsub :: bool
  cmd_noscript :: bool
  cmd_random :: bool
  cmd_sort_for_script :: bool
  cmd_loading :: bool
  cmd_stale :: bool
  cmd_skip_monitor :: bool
  cmd_asking :: bool
  cmd_fast :: bool
  getkeys_proc :: "getkeys option"
  firstkey :: int
  lastkey :: int
  keystep :: int

definition no_flags_command :: "string \<Rightarrow> string \<Rightarrow> int \<Rightarrow> getkeys option \<Rightarrow> int \<Rightarrow> int \<Rightarrow> int \<Rightarrow> command" where
  \<comment> \<open>an entry of the table whose flags have not been filled in yet\<close>
  "no_flags_command name prc ar gk fk lk step =
     \<lparr>cmd_name = name, cmd_proc = prc, arity = ar, cmd_write = False, cmd_readonly = False, cmd_denyoom = False,
      cmd_admin = False, cmd_pubsub = False, cmd_noscript = False, cmd_random = False, cmd_sort_for_script = False,
      cmd_loading = False, cmd_stale = False, cmd_skip_monitor = False, cmd_asking = False, cmd_fast = False,
      getkeys_proc = gk, firstkey = fk, lastkey = lk, keystep = step\<rparr>"

record client =
  cdb :: nat
  cargv :: "string list"
  ccmd :: command
  lastcmd :: "command option"
  authenticated :: bool
  f_multi :: bool
  f_dirty_cas :: bool
  f_dirty_exec :: bool
  f_pubsub :: bool
  f_blocked :: bool
  f_unblocked :: bool
  f_master :: bool
  f_force_aof :: bool
  f_force_repl :: bool
  f_close_after_reply :: bool
  f_readonly :: bool
  f_asking :: bool
  mcommands :: "(command \<times> string list) list"
  wkeys :: "(nat \<times> string) list"
  sub_channels :: "string set"
  sub_patterns :: "string list"
  btype :: btype
  bpop_keys :: "string list"
  bpop_timeout :: int
  bpop_target :: "string option"
  bpop_reploffset :: int
  bpop_numreplicas :: int
  woff :: int
  slave_online :: bool
  repl_ack_off :: int
  creply :: "reply list"

section \<open>The server\<close>

record server =
  dbs :: "redisDb list"
  clients :: "nat list"
  cl :: "nat \<Rightarrow> client"
  dirty :: int
  stat_expiredkeys :: int
  stat_hits :: int
  stat_misses :: int
  stat_numcommands :: int
  loading :: bool
  cluster_enabled :: bool
  masterhost :: "string option"
  in_lua :: bool
  lua_time_start :: int
  clk :: "nat \<Rightarrow> int"
  clk_reads :: nat
  aof_on :: bool
  aof_log :: "(nat \<times> string list) list"
  repl_log :: "(nat \<times> string list) list"
  notify_keyspace_events :: nat
  pubsub_channels :: "string \<rightharpoonup> nat list"
  pubsub_patterns :: "(nat \<times> string) list"
  slots_to_keys :: "(nat \<times> string) set"
  ready_keys :: "(nat \<times> string) list"
  bpop_blocked_clients :: int
  unblocked_clients :: "nat list"
  slaves :: "nat list"
  clients_waiting_acks :: "nat list"
  get_ack_from_slaves :: bool
  master_repl_offset :: int
  list_max_ziplist_entries :: nat
  list_max_ziplist_value :: nat
  set_max_intset_entries :: nat
  hash_max_ziplist_entries :: nat
  hash_max_ziplist_value :: nat
  monitors :: "nat list"
  monitor_log :: "(nat \<times> string list) list"
  bus_log :: "(string \<times> string) list"
  crashed :: bool

abbreviation the_db :: "server \<Rightarrow> nat \<Rightarrow> redisDb" where
  "the_db s j \<equiv> dbs s ! j"

definition upd_db :: "nat \<Rightarrow> (redisDb \<Rightarrow> redisDb) \<Rightarrow> server \<Rightarrow> server" where
  "upd_db j f s = s\<lparr>dbs := (dbs s)[j := f (the_db s j)]\<rparr>"

definition upd_client :: "nat \<Rightarrow> (client \<Rightarrow> client) \<Rightarrow> server \<Rightarrow> server" where
  "upd_client c f s = s\<lparr>cl := (cl s)(c := f (cl s c))\<rparr>"

definition addReply :: "nat \<Rightarrow> reply \<Rightarrow> server \<Rightarrow> server" where
  "addReply c r = upd_client c (\<lambda>x. x\<lparr>creply := creply x @ [r]\<rparr>)"

definition addReplies :: "nat \<Rightarrow> reply list \<Rightarrow> server \<Rightarrow> server" where
  "addReplies c rs s = fold (addReply c) rs s"

abbreviation argv :: "server \<Rightarrow> nat \<Rightarrow> string list" where
  "argv s c \<equiv> cargv (cl s c)"

abbreviation (input) shared_ok :: reply where "shared_ok \<equiv> RStatus ''OK''"
abbreviation (input) shared_czero :: reply where "shared_czero \<equiv> RInt 0"
abbreviation (input) shared_cone :: reply where "shared_cone \<equiv> RInt 1"
abbreviation (input) wrongtypeerr :: reply where
  "wrongtypeerr \<equiv> RError ''WRONGTYPE Operation against a key holding the wrong kind of value''"
abbreviation (input) nokeyerr :: reply where "nokeyerr \<equiv> RError ''ERR no such key''"
abbreviation (input) syntaxerr :: reply where "syntaxerr \<equiv> RError ''ERR syntax error''"
abbreviation (input) sameobjecterr :: reply where
  "sameobjecterr \<equiv> RError ''ERR source and destination objects are the same''"
abbreviation (input) outofrangeerr :: reply where "outofrangeerr \<equiv> RError ''ERR index out of range''"
abbreviation (input) notintegererr :: reply where
  "notintegererr \<equiv> RError ''ERR value is not an integer or out of range''"

definition redisAssert :: "bool \<Rightarrow> server \<Rightarrow> server" where
  \<comment> \<open>a failed assertion stops the server: nothing that follows it in the model is then meaningful\<close>
  "redisAssert b s = (if b then s else s\<lparr>crashed := True\<rparr>)"

lemma redisAssert_True [simp]: "redisAssert True s = s"
  by (simp add: redisAssert_def)

definition mstime :: "server \<Rightarrow> int \<times> server" where
  "mstime s = (clk s (clk_reads s), s\<lparr>clk_reads := Suc (clk_reads s)\<rparr>)"

definition feedAppendOnlyFile :: "nat \<Rightarrow> string list \<Rightarrow> server \<Rightarrow> server" where
  "feedAppendOnlyFile dbid av s = s\<lparr>aof_log := aof_log s @ [(dbid, av)]\<rparr>"

definition replicationFeedSlaves :: "nat \<Rightarrow> string list \<Rightarrow> server \<Rightarrow> server" where
  "replicationFeedSlaves dbid av s = s\<lparr>repl_log := repl_log s @ [(dbid, av)]\<rparr>"

definition propagate :: "nat \<Rightarrow> string list \<Rightarrow> bool \<Rightarrow> bool \<Rightarrow> server \<Rightarrow> server" where
  \<comment> \<open>the flags \<open>REDIS_PROPAGATE_AOF\<close> and \<open>REDIS_PROPAGATE_REPL\<close>\<close>
  "propagate dbid av aof repl s =
     (let s = (if aof_on s \<and> aof then feedAppendOnlyFile dbid av s else s)
      in if repl then replicationFeedSlaves dbid av s else s)"

lemma upd_db_sel [simp]:
  "clients (upd_db j f s) = clients s" "cl (upd_db j f s) = cl s" "dirty (upd_db j f s) = dirty s"
  "loading (upd_db j f s) = loading s" "cluster_enabled (upd_db j f s) = cluster_enabled s"
  "masterhost (upd_db j f s) = masterhost s" "in_lua (upd_db j f s) = in_lua s"
  "clk (upd_db j f s) = clk s" "clk_reads (upd_db j f s) = clk_reads s"
  "aof_log (upd_db j f s) = aof_log s" "repl_log (upd_db j f s) = repl_log s" "aof_on (upd_db j f s) = aof_on s"
  "pubsub_channels (upd_db j f s) = pubsub_channels s" "pubsub_patterns (upd_db j f s) = pubsub_patterns s"
  "slots_to_keys (upd_db j f s) = slots_to_keys s" "ready_keys (upd_db j f s) = ready_keys s"
  "notify_keyspace_events (upd_db j f s) = notify_keyspace_events s"
  "crashed (upd_db j f s) = crashed s" "lua_time_start (upd_db j f s) = lua_time_start s"
  "stat_hits (upd_db j f s) = stat_hits s" "stat_misses (upd_db j f s) = stat_misses s"
  "stat_expiredkeys (upd_db j f s) = stat_expiredkeys s" "set_max_intset_entries (upd_db j f s) = set_max_intset_entries s"
  "hash_max_ziplist_entries (upd_db j f s) = hash_max_ziplist_entries s" "hash_max_ziplist_value (upd_db j f s) = hash_max_ziplist_value s"
  "dbs (upd_db j f s) = (dbs s)[j := f (the_db s j)]"
  by (simp_all add: upd_db_def)

lemma upd_client_sel [simp]:
  "clients (upd_client c g s) = clients s" "dbs (upd_client c g s) = dbs s" "dirty (upd_client c g s) = dirty s"
  "loading (upd_client c g s) = loading s" "cluster_enabled (upd_client c g s) = cluster_enabled s"
  "masterhost (upd_client c g s) = masterhost s" "in_lua (upd_client c g s) = in_lua s"
  "clk (upd_client c g s) = clk s" "clk_reads (upd_client c g s) = clk_reads s"
  "aof_log (upd_client c g s) = aof_log s" "repl_log (upd_client c g s) = repl_log s" "aof_on (upd_client c g s) = aof_on s"
  "pubsub_channels (upd_client c g s) = pubsub_channels s" "pubsub_patterns (upd_client c g s) = pubsub_patterns s"
  "slots_to_keys (upd_client c g s) = slots_to_keys s" "ready_keys (upd_client c g s) = ready_keys s"
  "notify_keyspace_events (upd_client c g s) = notify_keyspace_events s"
  "crashed (upd_client c g s) = crashed s" "lua_time_start (upd_client c g s) = lua_time_start s"
  "stat_hits (upd_client c g s) = stat_hits s" "stat_misses (upd_client c g s) = stat_misses s"
  "stat_expiredkeys (upd_client c g s) = stat_expiredkeys s" "set_max_intset_entries (upd_client c g s) = set_max_intset_entries s"
  "hash_max_ziplist_entries (upd_client c g s) = hash_max_ziplist_entries s" "hash_max_ziplist_value (upd_client c g s) = hash_max_ziplist_value s"
  "cl (upd_client c g s) = (cl s)(c := g (cl s c))"
  by (simp_all add: upd_client_def)


section \<open>What replies do not change\<close>

text \<open>Two states that differ in what has been sent to clients only.\<close>

definition quiet :: "server \<Rightarrow> server" where
  "quiet s = s\<lparr>cl := (\<lambda>c. (cl s c)\<lparr>creply := []\<rparr>)\<rparr>"

definition same_but_replies :: "server \<Rightarrow> server \<Rightarrow> bool" where
  "same_but_replies s t \<longleftrightarrow> quiet s = quiet t"

lemma quiet_addReply [simp]: "quiet (addReply c r s) = quiet s"
  by (simp add: quiet_def addReply_def upd_client_def fun_eq_iff)

lemma quiet_addReplies [simp]: "quiet (addReplies c rs s) = quiet s"
  unfolding addReplies_def by (induction rs arbitrary: s) simp_all

lemma quiet_fold: "(\<And>x s. quiet (f x s) = quiet s) \<Longrightarrow> quiet (fold f xs s) = quiet s"
  by (induction xs arbitrary: s) simp_all

lemma quietD:
  assumes "quiet s = quiet t"
  shows "dbs s = dbs t" "clients s = clients t" "dirty s = dirty t" "loading s = loading t"
    "cluster_enabled s = cluster_enabled t" "masterhost s = masterhost t" "in_lua s = in_lua t"
    "lua_time_start s = lua_time_start t" "clk s = clk t" "clk_reads s = clk_reads t" "aof_on s = aof_on t"
    "aof_log s = aof_log t" "repl_log s = repl_log t" "notify_keyspace_events s = notify_keyspace_events t"
    "pubsub_channels s = pubsub_channels t" "pubsub_patterns s = pubsub_patterns t"
    "slots_to_keys s = slots_to_keys t" "ready_keys s = ready_keys t" "crashed s = crashed t"
    "stat_hits s = stat_hits t" "stat_misses s = stat_misses t" "stat_expiredkeys s = stat_expiredkeys t"
    "set_max_intset_entries s = set_max_intset_entries t" "hash_max_ziplist_entries s = hash_max_ziplist_entries t"
    "hash_max_ziplist_value s = hash_max_ziplist_value t"
  using arg_cong[OF assms, of set_max_intset_entries] arg_cong[OF assms, of hash_max_ziplist_entries]
    arg_cong[OF assms, of hash_max_ziplist_value] arg_cong[OF assms, of dbs] arg_cong[OF assms, of clients] arg_cong[OF assms, of dirty]
    arg_cong[OF assms, of loading] arg_cong[OF assms, of cluster_enabled] arg_cong[OF assms, of masterhost]
    arg_cong[OF assms, of in_lua] arg_cong[OF assms, of lua_time_start] arg_cong[OF assms, of clk]
    arg_cong[OF assms, of clk_reads] arg_cong[OF assms, of aof_on] arg_cong[OF assms, of aof_log]
    arg_cong[OF assms, of repl_log] arg_cong[OF assms, of notify_keyspace_events]
    arg_cong[OF assms, of pubsub_channels] arg_cong[OF assms, of pubsub_patterns]
    arg_cong[OF assms, of slots_to_keys] arg_cong[OF assms, of ready_keys] arg_cong[OF assms, of crashed]
    arg_cong[OF assms, of stat_hits] arg_cong[OF assms, of stat_misses] arg_cong[OF assms, of stat_expiredkeys]
  by (simp_all add: quiet_def)

lemma quiet_client:
  assumes "quiet s = quiet t"
  shows "(cl s c)\<lparr>creply := []\<rparr> = (cl t c)\<lparr>creply := []\<rparr>"
  using arg_cong[OF assms, of "\<lambda>s. cl s c"] by (simp add: quiet_def)

lemma quiet_clientD:
  assumes "quiet s = quiet t"
  shows "cdb (cl s c) = cdb (cl t c)" "cargv (cl s c) = cargv (cl t c)" "ccmd (cl s c) = ccmd (cl t c)"
    "f_multi (cl s c) = f_multi (cl t c)" "f_dirty_cas (cl s c) = f_dirty_cas (cl t c)"
    "f_dirty_exec (cl s c) = f_dirty_exec (cl t c)" "f_pubsub (cl s c) = f_pubsub (cl t c)"
    "f_blocked (cl s c) = f_blocked (cl t c)" "f_master (cl s c) = f_master (cl t c)"
    "mcommands (cl s c) = mcommands (cl t c)" "wkeys (cl s c) = wkeys (cl t c)"
    "sub_channels (cl s c) = sub_channels (cl t c)" "sub_patterns (cl s c) = sub_patterns (cl t c)"
    "bpop_keys (cl s c) = bpop_keys (cl t c)" "bpop_timeout (cl s c) = bpop_timeout (cl t c)"
    "bpop_target (cl s c) = bpop_target (cl t c)"
  using arg_cong[OF quiet_client[OF assms, of c], of cdb] arg_cong[OF quiet_client[OF assms, of c], of cargv]
    arg_cong[OF quiet_client[OF assms, of c], of ccmd] arg_cong[OF quiet_client[OF assms, of c], of f_multi]
    arg_cong[OF quiet_client[OF assms, of c], of f_dirty_cas] arg_cong[OF quiet_client[OF assms, of c], of f_dirty_exec]
    arg_cong[OF quiet_client[OF assms, of c], of f_pubsub] arg_cong[OF quiet_client[OF assms, of c], of f_blocked]
    arg_cong[OF quiet_client[OF assms, of c], of f_master] arg_cong[OF quiet_client[OF assms, of c], of mcommands]
    arg_cong[OF quiet_client[OF assms, of c], of wkeys] arg_cong[OF quiet_client[OF assms, of c], of sub_channels]
    arg_cong[OF quiet_client[OF assms, of c], of sub_patterns] arg_cong[OF quiet_client[OF assms, of c], of bpop_keys]
    arg_cong[OF quiet_client[OF assms, of c], of bpop_timeout] arg_cong[OF quiet_client[OF assms, of c], of bpop_target]
  by simp_all

lemmas addReply_sel [simp] = quietD[OF quiet_addReply] quiet_clientD[OF quiet_addReply]
lemmas addReplies_sel [simp] = quietD[OF quiet_addReplies] quiet_clientD[OF quiet_addReplies]

end
