(* ===== verification/Glob.thy ===== *)
theory Glob
  imports Prelude
begin

text \<open>
  \<open>stringmatchlen\<close> of \<open>src/redis-3.0/src/util.c\<close>, the glob matcher behind \<open>KEYS\<close>, \<open>SCAN MATCH\<close>,
  \<open>PSUBSCRIBE\<close> and \<open>CONFIG GET\<close>. It works on NUL-terminated buffers through pointers; the
  model uses indices, so that a read outside a buffer is a value (\<open>None\<close>). The lemmas give
  its meaning on patterns without classes by a denotation of pattern tokens, and show where
  it leaves its buffers.
\<close>

section \<open>Glob-style matching\<close>

text \<open>
  A pointer into a buffer is an index. A read outside the buffer (the string and its NUL),
  or a string pointer moved beyond one past the buffer, gives \<open>None\<close>: it is undefined
  behaviour of the C code.
\<close>

definition eq_nocase :: "bool \<Rightarrow> char \<Rightarrow> char \<Rightarrow> bool" where
  "eq_nocase nocase a b =
     (if \<not> nocase then a = b else c_tolower (char_int a) = c_tolower (char_int b))"

function skip_stars :: "string \<Rightarrow> nat \<Rightarrow> int \<Rightarrow> (nat \<times> int) option" where
  \<comment> \<open>\<open>while (*pattern == '*')\<close>\<close>
  "skip_stars p pi plen =
     (case rd p pi of
        None \<Rightarrow> None
      | Some c \<Rightarrow> if c = CHR ''*'' then skip_stars p (pi + 1) (plen - 1) else Some (pi, plen))"
  by pat_completeness auto
termination
  by (relation "measure (\<lambda>(p, pi, plen). length p + 1 - pi)") (auto dest: rd_Some_le)

function collapse_stars :: "string \<Rightarrow> nat \<Rightarrow> int \<Rightarrow> (nat \<times> int) option" where
  \<comment> \<open>\<open>while (pattern[1] == '*')\<close>\<close>
  "collapse_stars p pi plen =
     (case rd p (pi + 1) of
        None \<Rightarrow> None
      | Some c \<Rightarrow> if c = CHR ''*'' then collapse_stars p (pi + 1) (plen - 1) else Some (pi, plen))"
  by pat_completeness auto
termination
  by (relation "measure (\<lambda>(p, pi, plen). length p + 1 - pi)") (auto dest: rd_Some_le)

function glob_class :: "string \<Rightarrow> nat \<Rightarrow> int \<Rightarrow> string \<Rightarrow> nat \<Rightarrow> bool \<Rightarrow> bool \<Rightarrow>
    (nat \<times> int \<times> bool) option" where
  \<comment> \<open>the \<open>while(1)\<close> of a character class: pattern position and length, and \<open>match\<close>\<close>
  "glob_class p pi plen s si nocase m =
     (case rd p pi of
        None \<Rightarrow> None
      | Some c0 \<Rightarrow>
          if c0 = CHR 0x5C then
            (case (rd p (pi + 1), rd s si) of
               (Some c1, Some x) \<Rightarrow>
                 glob_class p (pi + 2) (plen - 2) s si nocase (m \<or> c1 = x)
             | _ \<Rightarrow> None)
          else if c0 = CHR '']'' then Some (pi, plen, m)
          else if plen = 0 then Some (pi - 1, plen + 1, m)
          else
            (case rd p (pi + 1) of
               None \<Rightarrow> None
             | Some c1 \<Rightarrow>
                 if c1 = CHR ''-'' \<and> plen \<ge> 3 then
                   (case (rd p (pi + 2), rd s si) of
                      (Some c2, Some x) \<Rightarrow>
                        (let a = char_int c0; b = char_int c2;
                             (start, stop) = (if a > b then (b, a) else (a, b));
                             (start, stop, c) =
                               (if nocase
                                then (c_tolower start, c_tolower stop, c_tolower (char_int x))
                                else (start, stop, char_int x))
                         in glob_class p (pi + 3) (plen - 3) s si nocase
                              (m \<or> (c \<ge> start \<and> c \<le> stop)))
                    | _ \<Rightarrow> None)
                 else
                   (case rd s si of
                      None \<Rightarrow> None
                    | Some x \<Rightarrow>
                        glob_class p (pi + 1) (plen - 1) s si nocase (m \<or> eq_nocase nocase c0 x))))"
  by pat_completeness auto
termination
  by (relation "measure (\<lambda>(p, pi, plen, s, si, nocase, m). length p + 1 - pi)")
    (auto dest: rd_Some_le)

declare skip_stars.simps [simp del] collapse_stars.simps [simp del] glob_class.simps [simp del]

text \<open>
  One pass of the \<open>switch\<close>: how it leaves the loop body. \<open>GNext\<close> carries the pattern and
  string pointers after the \<open>pattern++\<close> that follows the switch, \<open>GStar\<close> the pattern
  pointer \<open>pattern+1\<close> that the star loop matches with.
\<close>

datatype glob_step =
    GOut | GNo | GYes | GStar nat int | GNext nat int nat int

definition glob_switch :: "string \<Rightarrow> nat \<Rightarrow> int \<Rightarrow> string \<Rightarrow> nat \<Rightarrow> int \<Rightarrow> bool \<Rightarrow> glob_step" where
  "glob_switch p pi plen s si slen nocase =
     (case rd p pi of
        None \<Rightarrow> GOut
      | Some c0 \<Rightarrow>
          if c0 = CHR ''*'' then
            (case collapse_stars p pi plen of
               None \<Rightarrow> GOut
             | Some (pi, plen) \<Rightarrow> if plen = 1 then GYes else GStar (pi + 1) (plen - 1))
          else if c0 = CHR ''?'' then
            (if slen = 0 then GNo
             else if si > length s then GOut
             else GNext (pi + 1) (plen - 1) (si + 1) (slen - 1))
          else if c0 = CHR ''['' then
            (case rd p (pi + 1) of
               None \<Rightarrow> GOut
             | Some c1 \<Rightarrow>
                 (let neg = (c1 = CHR ''^'');
                      (pi, plen) = (if neg then (pi + 2, plen - 2) else (pi + 1, plen - 1))
                  in case glob_class p pi plen s si nocase False of
                       None \<Rightarrow> GOut
                     | Some (pi, plen, m) \<Rightarrow>
                         if \<not> (if neg then \<not> m else m) then GNo
                         else if si > length s then GOut
                         else GNext (pi + 1) (plen - 1) (si + 1) (slen - 1)))
          else
            (let (pi, plen) = (if c0 = CHR 0x5C \<and> plen \<ge> 2 then (pi + 1, plen - 1) else (pi, plen))
             in case (rd p pi, rd s si) of
                  (Some a, Some b) \<Rightarrow>
                    if \<not> eq_nocase nocase a b then GNo
                    else GNext (pi + 1) (plen - 1) (si + 1) (slen - 1)
                | _ \<Rightarrow> GOut))"

lemma glob_class_progress: "glob_class p pi plen s si nocase m = Some (pi', r) \<Longrightarrow> pi - 1 \<le> pi'"
proof (induction "length p + 1 - pi" arbitrary: pi plen nocase m rule: less_induct)
  case less
  show ?case
  proof (cases "rd p pi")
    case None
    with less.prems show ?thesis by (simp add: glob_class.simps[of p pi])
  next
    case (Some c)
    then have le: "pi \<le> length p" by (rule rd_Some_le)
    have IH: "glob_class p (pi + Suc k) plen2 s si nc2 m2 = Some (pi', r) \<Longrightarrow> pi \<le> pi'" for k plen2 nc2 m2
    proof -
      assume *: "glob_class p (pi + Suc k) plen2 s si nc2 m2 = Some (pi', r)"
      have "length p + 1 - (pi + Suc k) < length p + 1 - pi" using le by linarith
      from less.hyps[OF this *] show "pi \<le> pi'" by linarith
    qed
    have IH3: "glob_class p (pi + 3) plen2 s si nc2 m2 = Some (pi', r) \<Longrightarrow> pi \<le> pi'" for plen2 nc2 m2
      using IH[of 2 plen2 nc2 m2] by (simp add: eval_nat_numeral)
    from less.prems Some show ?thesis
      by (subst (asm) glob_class.simps)
        (auto split: option.splits if_splits simp: Let_def
          dest: IH[of 0, simplified] IH[of 1, simplified] IH3)
  qed
qed

lemma collapse_stars_progress: "collapse_stars p pi plen = Some (pi', r) \<Longrightarrow> pi \<le> pi'"
proof (induction p pi plen rule: collapse_stars.induct)
  case (1 p pi plen)
  from 1 show ?case
    by (auto simp: collapse_stars.simps[of p pi plen] split: option.splits if_splits)
qed

lemma glob_switch_progress:
  "glob_switch p pi plen s si slen nocase = GNext pi' plen' si' slen' \<Longrightarrow> pi < pi' \<and> pi \<le> length p"
  "glob_switch p pi plen s si slen nocase = GStar pi' plen' \<Longrightarrow> pi < pi' \<and> pi \<le> length p"
  by (auto simp: glob_switch_def Let_def split: option.splits if_splits
      dest!: glob_class_progress collapse_stars_progress dest: rd_Some_le)

function stringmatchlen :: "string \<Rightarrow> nat \<Rightarrow> int \<Rightarrow> string \<Rightarrow> nat \<Rightarrow> int \<Rightarrow> bool \<Rightarrow> bool option"
  and star_loop :: "string \<Rightarrow> nat \<Rightarrow> int \<Rightarrow> string \<Rightarrow> nat \<Rightarrow> int \<Rightarrow> bool \<Rightarrow> bool option"
where
  "stringmatchlen p pi plen s si slen nocase =
     (if plen = 0 then Some (slen = 0)
      else case glob_switch p pi plen s si slen nocase of
        GOut \<Rightarrow> None
      | GNo \<Rightarrow> Some False
      | GYes \<Rightarrow> Some True
      | GStar pi' plen' \<Rightarrow> star_loop p pi' plen' s si slen nocase
      | GNext pi' plen' si' slen' \<Rightarrow>
          if slen' = 0 then
            (case skip_stars p pi' plen' of
               None \<Rightarrow> None
             | Some (_, plen'') \<Rightarrow> Some (plen'' = 0))
          else stringmatchlen p pi' plen' s si' slen' nocase)"
| "star_loop p pi plen s si slen nocase =
     (if slen = 0 then Some False
      else case stringmatchlen p pi plen s si slen nocase of
        None \<Rightarrow> None
      | Some True \<Rightarrow> Some True
      | Some False \<Rightarrow>
          if si > length s then None
          else star_loop p pi plen s (si + 1) (slen - 1) nocase)"
  by pat_completeness auto
termination
  by (relation "measures [
      case_sum (\<lambda>(p, pi, _). length p + 1 - pi) (\<lambda>(p, pi, _). length p + 1 - pi),
      case_sum (\<lambda>_. 0) (\<lambda>(p, pi, plen, s, si, _). Suc (2 + length s - si))]")
    (auto dest!: glob_switch_progress simp: less_diff_conv)

declare stringmatchlen.simps [simp del] star_loop.simps [simp del]

definition stringmatch :: "string \<Rightarrow> string \<Rightarrow> bool \<Rightarrow> bool option" where
  "stringmatch pattern s nocase =
     stringmatchlen pattern 0 (int (length pattern)) s 0 (int (length s)) nocase"

section \<open>What a pattern means\<close>

datatype glob_token = Lit char | AnyChar | Star

fun print_glob :: "glob_token list \<Rightarrow> string" where
  "print_glob [] = []"
| "print_glob (Lit c # ts) =
     (if c \<in> {CHR ''*'', CHR ''?'', CHR ''['', CHR 0x5C} then [CHR 0x5C, c] else [c]) @ print_glob ts"
| "print_glob (AnyChar # ts) = CHR ''?'' # print_glob ts"
| "print_glob (Star # ts) = CHR ''*'' # print_glob ts"

fun glob_denote :: "bool \<Rightarrow> glob_token list \<Rightarrow> string \<Rightarrow> bool" where
  "glob_denote nc [] s \<longleftrightarrow> s = []"
| "glob_denote nc (Lit c # ts) s \<longleftrightarrow>
     (case s of [] \<Rightarrow> False | x # xs \<Rightarrow> eq_nocase nc c x \<and> glob_denote nc ts xs)"
| "glob_denote nc (AnyChar # ts) s \<longleftrightarrow> (case s of [] \<Rightarrow> False | x # xs \<Rightarrow> glob_denote nc ts xs)"
| "glob_denote nc (Star # ts) s \<longleftrightarrow>
     glob_denote nc ts s \<or> (case s of [] \<Rightarrow> False | x # xs \<Rightarrow> glob_denote nc (Star # ts) xs)"

lemma glob_denote_star_star: "glob_denote nc (Star # Star # ts) s = glob_denote nc (Star # ts) s"
  by (induction s) auto

lemma glob_denote_star_end [simp]: "glob_denote nc [Star] s"
  by (induction s) auto

lemma eq_nocase_NUL: "c \<noteq> NUL \<Longrightarrow> \<not> eq_nocase nc c NUL"
proof -
  assume c: "c \<noteq> NUL"
  have "char_int NUL = 0" by (simp add: char_int_def)
  moreover have "c_tolower x = 0 \<longleftrightarrow> x = 0" for x by (auto simp: c_tolower_def)
  moreover have "char_int c \<noteq> 0" using c char_int_inj[of c NUL] \<open>char_int NUL = 0\<close> by simp
  ultimately show ?thesis using c by (auto simp: eq_nocase_def c_tolower_def)
qed

abbreviation no_nul :: "glob_token list \<Rightarrow> bool" where
  "no_nul ts \<equiv> Lit NUL \<notin> set ts"

subsection \<open>The trailing stars\<close>

lemma skip_stars_print:
  "\<exists>pi' plen'. skip_stars (pre @ print_glob ts) (length pre) (int (length (print_glob ts))) =
     Some (pi', plen') \<and> (plen' = 0 \<longleftrightarrow> glob_denote nc ts [])"
proof (induction ts arbitrary: pre rule: print_glob.induct)
  case (4 ts)
  from 4[of "pre @ [CHR ''*'']"] show ?case
    by (simp add: skip_stars.simps[of "pre @ CHR ''*'' # print_glob ts" "length pre"])
qed (subst skip_stars.simps, simp)+

subsection \<open>One token\<close>

lemma glob_switch_lit:
  assumes "c \<noteq> NUL" "no_nul ts"
  shows "glob_switch (pre @ print_glob (Lit c # ts)) (length pre) (int (length (print_glob (Lit c # ts))))
      (spre @ s) (length spre) (int (length s)) nc =
    (case s of [] \<Rightarrow> GNo
     | x # xs \<Rightarrow>
         if eq_nocase nc c x
         then GNext (length pre + length (print_glob [Lit c])) (int (length (print_glob ts)))
                (length spre + 1) (int (length xs))
         else GNo)"
proof -
  have nul: "\<not> eq_nocase nc c NUL" by (rule eq_nocase_NUL[OF assms(1)])
  have rd1: "rd (a @ b # b' # d) (Suc (length a)) = Some b'" for a b b' d
    using rd_append[of a "b # b' # d" 1] by simp
  show ?thesis
    using nul by (cases s) (auto simp: glob_switch_def Let_def rd1 simp del: rd_append)
qed

lemma glob_switch_any:
  "glob_switch (pre @ print_glob (AnyChar # ts)) (length pre) plen
      (spre @ s) (length spre) (int (length s)) nc =
    (case s of [] \<Rightarrow> GNo
     | x # xs \<Rightarrow> GNext (length pre + 1) (plen - 1) (length spre + 1) (int (length xs)))"
  by (cases s) (auto simp: glob_switch_def Let_def)

lemma glob_switch_star_star:
  "glob_switch (pre @ CHR ''*'' # CHR ''*'' # q) (length pre) plen s si slen nc =
   glob_switch ((pre @ [CHR ''*'']) @ CHR ''*'' # q) (length (pre @ [CHR ''*''])) (plen - 1) s si slen nc"
proof -
  have "collapse_stars (pre @ CHR ''*'' # CHR ''*'' # q) (length pre) plen =
      collapse_stars (pre @ CHR ''*'' # CHR ''*'' # q) (length pre + 1) (plen - 1)"
    by (subst collapse_stars.simps) (simp add: rd_def nth_append)
  then show ?thesis by (simp add: glob_switch_def rd_def nth_append)
qed

lemma glob_switch_star:
  assumes "q \<noteq> [] \<longrightarrow> hd q \<noteq> CHR ''*''"
  shows "glob_switch (pre @ CHR ''*'' # q) (length pre) (int (Suc (length q))) s si slen nc =
    (if q = [] then GYes else GStar (length pre + 1) (int (length q)))"
proof -
  have "collapse_stars (pre @ CHR ''*'' # q) (length pre) (int (Suc (length q))) =
      Some (length pre, int (Suc (length q)))"
    using assms by (subst collapse_stars.simps) (cases q; simp add: rd_def nth_append)
  then show ?thesis by (auto simp: glob_switch_def)
qed

subsection \<open>The matcher computes the meaning\<close>

lemma print_glob_hd:
  "ts \<noteq> [] \<Longrightarrow> hd ts \<noteq> Star \<Longrightarrow> print_glob ts \<noteq> [] \<and> hd (print_glob ts) \<noteq> CHR ''*'' \<and>
   \<not> glob_denote nc ts []"
  by (cases ts rule: print_glob.cases) auto

lemma star_loop_print:
  assumes IH: "\<And>spre s. stringmatchlen p pi plen (spre @ s) (length spre) (int (length s)) nc =
      Some (glob_denote nc ts s)"
    and "\<not> glob_denote nc ts []"
  shows "star_loop p pi plen (spre @ s) (length spre) (int (length s)) nc =
    Some (glob_denote nc (Star # ts) s)"
proof (induction s arbitrary: spre)
  case Nil
  then show ?case using assms(2) by (subst star_loop.simps) simp
next
  case (Cons x xs)
  from Cons.IH[of "spre @ [x]"] IH[of spre "x # xs"] show ?case
    by (subst star_loop.simps) (auto split: bool.split)
qed

text \<open>What follows a token that consumed one character.\<close>

lemma after_char:
  assumes "\<And>pre spre s. stringmatchlen (pre @ print_glob ts) (length pre) (int (length (print_glob ts)))
      (spre @ s) (length spre) (int (length s)) nc = Some (glob_denote nc ts s)"
  shows "(if int (length xs) = 0 then
      (case skip_stars (pre @ print_glob ts) (length pre) (int (length (print_glob ts))) of
        None \<Rightarrow> None | Some (_, plen'') \<Rightarrow> Some (plen'' = 0))
    else stringmatchlen (pre @ print_glob ts) (length pre) (int (length (print_glob ts)))
      ((spre @ [x]) @ xs) (length (spre @ [x])) (int (length xs)) nc) = Some (glob_denote nc ts xs)"
proof (cases xs)
  case Nil
  from skip_stars_print[of pre ts nc] Nil show ?thesis by auto
next
  case Cons
  with assms[of pre "spre @ [x]" xs] show ?thesis by simp
qed

lemma stringmatchlen_GNext:
  "plen \<noteq> 0 \<Longrightarrow> glob_switch p pi plen s si slen nc = GNext pi' plen' si' slen' \<Longrightarrow>
   stringmatchlen p pi plen s si slen nc =
     (if slen' = 0 then
        (case skip_stars p pi' plen' of None \<Rightarrow> None | Some (_, plen'') \<Rightarrow> Some (plen'' = 0))
      else stringmatchlen p pi' plen' s si' slen' nc)"
  by (subst stringmatchlen.simps) simp

lemma stringmatchlen_print:
  "no_nul ts \<Longrightarrow>
   stringmatchlen (pre @ print_glob ts) (length pre) (int (length (print_glob ts)))
     (spre @ s) (length spre) (int (length s)) nc = Some (glob_denote nc ts s)"
proof (induction ts arbitrary: pre spre s rule: print_glob.induct)
  case 1
  then show ?case by (subst stringmatchlen.simps) simp
next
  case (2 c ts)
  let ?pre = "pre @ print_glob [Lit c]"
  have nn: "c \<noteq> NUL" "no_nul ts" using "2.prems" by auto
  have pr: "pre @ print_glob (Lit c # ts) = ?pre @ print_glob ts" by simp
  have nz: "int (length (print_glob (Lit c # ts))) \<noteq> 0" by simp
  note sw = glob_switch_lit[OF nn, of pre spre s nc]
  show ?case
  proof (cases s)
    case Nil
    with sw nz show ?thesis by (subst stringmatchlen.simps) simp
  next
    case (Cons x xs)
    show ?thesis
    proof (cases "eq_nocase nc c x")
      case False
      with sw nz Cons show ?thesis by (subst stringmatchlen.simps) simp
    next
      case True
      have e: "spre @ s = (spre @ [x]) @ xs" using Cons by simp
      have d: "glob_denote nc (Lit c # ts) s = glob_denote nc ts xs" using True Cons by simp
      from sw True Cons have sw': "glob_switch (?pre @ print_glob ts) (length pre)
          (int (length (print_glob (Lit c # ts)))) (spre @ s) (length spre) (int (length s)) nc =
          GNext (length ?pre) (int (length (print_glob ts))) (length (spre @ [x])) (int (length xs))"
        unfolding pr by simp
      show ?thesis
        unfolding pr unfolding stringmatchlen_GNext[OF nz sw'] unfolding e d by (rule after_char[OF "2.IH"[OF nn(2)]])
    qed
  qed
next
  case (3 ts)
  then have nn: "no_nul ts" by auto
  let ?pre = "pre @ [CHR ''?'']"
  have pr: "pre @ print_glob (AnyChar # ts) = ?pre @ print_glob ts" by simp
  have nz: "int (length (print_glob (AnyChar # ts))) \<noteq> 0" by simp
  note sw = glob_switch_any[of pre ts "int (length (print_glob (AnyChar # ts)))" spre s nc]
  show ?case
  proof (cases s)
    case Nil
    with sw nz show ?thesis by (subst stringmatchlen.simps) simp
  next
    case (Cons x xs)
    then have e: "spre @ s = (spre @ [x]) @ xs" by simp
    have d: "glob_denote nc (AnyChar # ts) s = glob_denote nc ts xs" using Cons by simp
    from sw Cons have sw': "glob_switch (?pre @ print_glob ts) (length pre)
        (int (length (print_glob (AnyChar # ts)))) (spre @ s) (length spre) (int (length s)) nc =
        GNext (length ?pre) (int (length (print_glob ts))) (length (spre @ [x])) (int (length xs))"
      unfolding pr by simp
    show ?thesis
      unfolding pr unfolding stringmatchlen_GNext[OF nz sw'] unfolding e d by (rule after_char[OF "3.IH"[OF nn]])
  qed
next
  case (4 ts)
  then have nn: "no_nul ts" by auto
  show ?case
  proof (cases "ts \<noteq> [] \<and> hd ts = Star")
    case True
    then obtain ts' where ts: "ts = Star # ts'" by (cases ts) auto
    have "stringmatchlen (pre @ print_glob (Star # ts)) (length pre) (int (length (print_glob (Star # ts))))
        (spre @ s) (length spre) (int (length s)) nc =
      stringmatchlen ((pre @ [CHR ''*'']) @ print_glob ts) (length (pre @ [CHR ''*'']))
        (int (length (print_glob ts))) (spre @ s) (length spre) (int (length s)) nc"
    proof -
      have pr: "pre @ print_glob (Star # ts) = (pre @ [CHR ''*'']) @ print_glob ts" by simp
      show ?thesis
        unfolding pr by (subst stringmatchlen.simps, subst (2) stringmatchlen.simps)
          (simp add: ts glob_switch_star_star[simplified])
    qed
    also have "\<dots> = Some (glob_denote nc ts s)" by (rule "4.IH"[OF nn])
    finally show ?thesis by (simp only: ts glob_denote_star_star)
  next
    case False
    let ?q = "print_glob ts"
    have q: "?q \<noteq> [] \<longrightarrow> hd ?q \<noteq> CHR ''*''" using False print_glob_hd[of ts nc] by (cases ts) auto
    show ?thesis
    proof (cases "ts = []")
      case True
      then show ?thesis
        using glob_switch_star[of "[]" pre "spre @ s" "length spre" "int (length s)" nc]
          glob_denote_star_end[of nc s]
        by (subst stringmatchlen.simps) (simp del: glob_denote.simps)
    next
      case ne: False
      then have "?q \<noteq> []" "\<not> glob_denote nc ts []" using False print_glob_hd[of ts nc] by auto
      moreover have "star_loop (pre @ CHR ''*'' # ?q) (length pre + 1) (int (length ?q))
          (spre @ s) (length spre) (int (length s)) nc = Some (glob_denote nc (Star # ts) s)"
        using star_loop_print[OF _ \<open>\<not> glob_denote nc ts []\<close>] "4.IH"[OF nn, of "pre @ [CHR ''*'']"] by simp
      ultimately show ?thesis
        using glob_switch_star[OF q, of pre "spre @ s" "length spre" "int (length s)" nc]
        by (subst stringmatchlen.simps) simp
    qed
  qed
qed

section \<open>Properties\<close>

text \<open>
  C38: on a pattern written from literals (special characters escaped by a backslash),
  \<open>?\<close> and \<open>*\<close>, the matcher stays inside both buffers and returns exactly the meaning of
  the pattern, with and without case folding.
\<close>

theorem glob_match_meaning:
  assumes "no_nul ts"
  shows "stringmatch (print_glob ts) s nocase = Some (glob_denote nocase ts s)"
  using stringmatchlen_print[OF assms, of "[]" "[]" s nocase] by (simp add: stringmatch_def)

theorem glob_match_meaning_witness:
  "stringmatch (print_glob [Lit CHR ''h'', Star, Lit CHR ''*'', AnyChar]) ''hello*x'' False = Some True"
  using glob_match_meaning[of "[Lit CHR ''h'', Star, Lit CHR ''*'', AnyChar]" "''hello*x''" False]
  by (simp add: eq_nocase_def)

text \<open>
  C39: a class is tested before the end of the string is: an inverted class followed by a
  star accepts the empty string, and a pattern that ends inside a class after a backslash
  makes the matcher read beyond the pattern's terminating NUL, whatever the string.
\<close>

theorem glob_class_ignores_ends:
  "stringmatch ''[^a]*'' [] nocase = Some True \<and> stringmatch [CHR ''['', CHR 0x5C] s nocase = None"
proof
  have cl: "glob_class ''[^a]*'' 2 3 [] 0 nocase False = Some (3, 2, False)"
  proof -
    have "\<not> eq_nocase nocase CHR ''a'' NUL" by (rule eq_nocase_NUL) simp
    then show ?thesis
      by (subst glob_class.simps, subst glob_class.simps) (simp add: rd_def)
  qed
  have st: "collapse_stars ''[^a]*'' 4 1 = Some (4, 1)"
    by (subst collapse_stars.simps) (simp add: rd_def)
  have "glob_switch ''[^a]*'' 0 5 [] 0 0 nocase = GNext 4 1 1 (- 1)"
    by (simp add: glob_switch_def cl[unfolded numeral_2_eq_2] rd_def)
  moreover have "stringmatchlen ''[^a]*'' 4 1 [] 1 (- 1) nocase = Some True"
    by (subst stringmatchlen.simps) (simp add: glob_switch_def st rd_def)
  ultimately show "stringmatch ''[^a]*'' [] nocase = Some True"
    by (simp add: stringmatch_def stringmatchlen_GNext)
  have "glob_class [CHR ''['', CHR 0x5C] 1 1 s 0 nocase False = None"
    by (subst glob_class.simps, subst glob_class.simps) (simp add: rd_def split: option.splits)
  then have "glob_switch [CHR ''['', CHR 0x5C] 0 2 s 0 (int (length s)) nocase = GOut"
    by (simp add: glob_switch_def rd_def)
  then show "stringmatch [CHR ''['', CHR 0x5C] s nocase = None"
    by (subst stringmatch_def, subst stringmatchlen.simps) simp
qed

end
