(* ===== verification/Pubsub.thy ===== *)
theory Pubsub
  imports Server Glob "HOL-Library.Monad_Syntax"
begin

text \<open>
  Publish/subscribe (\<open>src/redis-3.0/src/pubsub.c\<close>) and the keyspace notifications built on it
  (\<open>notify.c\<close>). The subscriptions of a client are kept twice, in the client and in the tables
  of the server; \<open>pubsub_inv\<close> says that the two agree, and every operation keeps it, so that
  the assertions of the code never fail. An operation is \<open>None\<close> where an assertion fails.
\<close>

unbundle bit_operations_syntax

section \<open>Classes of notifications\<close>

abbreviation (input) REDIS_NOTIFY_KEYSPACE :: nat where "REDIS_NOTIFY_KEYSPACE \<equiv> 1"
abbreviation (input) REDIS_NOTIFY_KEYEVENT :: nat where "REDIS_NOTIFY_KEYEVENT \<equiv> 2"
abbreviation (input) REDIS_NOTIFY_GENERIC :: nat where "REDIS_NOTIFY_GENERIC \<equiv> 4"
abbreviation (input) REDIS_NOTIFY_STRING :: nat where "REDIS_NOTIFY_STRING \<equiv> 8"
abbreviation (input) REDIS_NOTIFY_LIST :: nat where "REDIS_NOTIFY_LIST \<equiv> 16"
abbreviation (input) REDIS_NOTIFY_SET :: nat where "REDIS_NOTIFY_SET \<equiv> 32"
abbreviation (input) REDIS_NOTIFY_HASH :: nat where "REDIS_NOTIFY_HASH \<equiv> 64"
abbreviation (input) REDIS_NOTIFY_ZSET :: nat where "REDIS_NOTIFY_ZSET \<equiv> 128"
abbreviation (input) REDIS_NOTIFY_EXPIRED :: nat where "REDIS_NOTIFY_EXPIRED \<equiv> 256"
abbreviation (input) REDIS_NOTIFY_EVICTED :: nat where "REDIS_NOTIFY_EVICTED \<equiv> 512"
abbreviation (input) REDIS_NOTIFY_ALL :: nat where "REDIS_NOTIFY_ALL \<equiv> 1020"

definition notify_class :: "char \<Rightarrow> nat option" where
  "notify_class c =
     (if c = CHR ''A'' then Some REDIS_NOTIFY_ALL
      else if c = CHR ''g'' then Some REDIS_NOTIFY_GENERIC
      else if c = CHR ''$'' then Some REDIS_NOTIFY_STRING
      else if c = CHR ''l'' then Some REDIS_NOTIFY_LIST
      else if c = CHR ''s'' then Some REDIS_NOTIFY_SET
      else if c = CHR ''h'' then Some REDIS_NOTIFY_HASH
      else if c = CHR ''z'' then Some REDIS_NOTIFY_ZSET
      else if c = CHR ''x'' then Some REDIS_NOTIFY_EXPIRED
      else if c = CHR ''e'' then Some REDIS_NOTIFY_EVICTED
      else if c = CHR ''K'' then Some REDIS_NOTIFY_KEYSPACE
      else if c = CHR ''E'' then Some REDIS_NOTIFY_KEYEVENT
      else None)"

fun notify_loop :: "string \<Rightarrow> nat \<Rightarrow> nat option" where
  "notify_loop [] flags = Some flags"
| "notify_loop (c # p) flags =
     (if c = NUL then Some flags
      else case notify_class c of None \<Rightarrow> None | Some f \<Rightarrow> notify_loop p (flags OR f))"

definition keyspaceEventsStringToFlags :: "string \<Rightarrow> nat option" where
  \<comment> \<open>\<open>None\<close> is the return value -1\<close>
  "keyspaceEventsStringToFlags classes = notify_loop classes 0"

definition keyspaceEventsFlagsToString :: "nat \<Rightarrow> string" where
  "keyspaceEventsFlagsToString flags =
     (if flags AND REDIS_NOTIFY_ALL = REDIS_NOTIFY_ALL then ''A''
      else
        (if flags AND REDIS_NOTIFY_GENERIC \<noteq> 0 then ''g'' else []) @
        (if flags AND REDIS_NOTIFY_STRING \<noteq> 0 then ''$'' else []) @
        (if flags AND REDIS_NOTIFY_LIST \<noteq> 0 then ''l'' else []) @
        (if flags AND REDIS_NOTIFY_SET \<noteq> 0 then ''s'' else []) @
        (if flags AND REDIS_NOTIFY_HASH \<noteq> 0 then ''h'' else []) @
        (if flags AND REDIS_NOTIFY_ZSET \<noteq> 0 then ''z'' else []) @
        (if flags AND REDIS_NOTIFY_EXPIRED \<noteq> 0 then ''x'' else []) @
        (if flags AND REDIS_NOTIFY_EVICTED \<noteq> 0 then ''e'' else [])) @
     (if flags AND REDIS_NOTIFY_KEYSPACE \<noteq> 0 then ''K'' else []) @
     (if flags AND REDIS_NOTIFY_KEYEVENT \<noteq> 0 then ''E'' else [])"

section \<open>Subscriptions\<close>

definition clientSubscriptionsCount :: "server \<Rightarrow> nat \<Rightarrow> nat" where
  "clientSubscriptionsCount s c = card (sub_channels (cl s c)) + length (sub_patterns (cl s c))"

definition sub_reply :: "string \<Rightarrow> nat \<Rightarrow> reply \<Rightarrow> server \<Rightarrow> server" where
  \<comment> \<open>the confirmation sent for a change of subscriptions\<close>
  "sub_reply kind c name s =
     addReplies c [RMulti 3, RBulk kind, name, RInt (int (clientSubscriptionsCount s c))] s"

definition pubsubSubscribeChannel :: "nat \<Rightarrow> string \<Rightarrow> server \<Rightarrow> server \<times> nat" where
  "pubsubSubscribeChannel c channel s =
     (let (s, retval) =
        (if channel \<notin> sub_channels (cl s c) then
           (let s = upd_client c (\<lambda>x. x\<lparr>sub_channels := insert channel (sub_channels x)\<rparr>) s;
                cs = (case pubsub_channels s channel of None \<Rightarrow> [] | Some cs \<Rightarrow> cs)
            in (s\<lparr>pubsub_channels := (pubsub_channels s)(channel \<mapsto> cs @ [c])\<rparr>, 1))
         else (s, 0))
      in (sub_reply ''subscribe'' c (RBulk channel) s, retval))"

definition pubsubUnsubscribeChannel :: "nat \<Rightarrow> string \<Rightarrow> bool \<Rightarrow> server \<Rightarrow> (server \<times> nat) option" where
  "pubsubUnsubscribeChannel c channel notify s =
     do {
       (s, retval) \<leftarrow>
         (if channel \<in> sub_channels (cl s c) then
            do {
              let s = upd_client c (\<lambda>x. x\<lparr>sub_channels := sub_channels x - {channel}\<rparr>) s;
              cs \<leftarrow> pubsub_channels s channel;
              if c \<notin> set cs then None
              else
                (let cs = remove1 c cs in
                 Some (s\<lparr>pubsub_channels := (pubsub_channels s)(channel := if cs = [] then None else Some cs)\<rparr>, 1))
            }
          else Some (s, 0));
       Some (if notify then sub_reply ''unsubscribe'' c (RBulk channel) s else s, retval)
     }"

definition pubsubSubscribePattern :: "nat \<Rightarrow> string \<Rightarrow> server \<Rightarrow> server \<times> nat" where
  "pubsubSubscribePattern c pattern s =
     (let (s, retval) =
        (if pattern \<notin> set (sub_patterns (cl s c)) then
           (let s = upd_client c (\<lambda>x. x\<lparr>sub_patterns := sub_patterns x @ [pattern]\<rparr>) s
            in (s\<lparr>pubsub_patterns := pubsub_patterns s @ [(c, pattern)]\<rparr>, 1))
         else (s, 0))
      in (sub_reply ''psubscribe'' c (RBulk pattern) s, retval))"

definition pubsubUnsubscribePattern :: "nat \<Rightarrow> string \<Rightarrow> bool \<Rightarrow> server \<Rightarrow> (server \<times> nat) option" where
  "pubsubUnsubscribePattern c pattern notify s =
     do {
       (s, retval) \<leftarrow>
         (if pattern \<in> set (sub_patterns (cl s c)) then
            (let s = upd_client c (\<lambda>x. x\<lparr>sub_patterns := remove1 pattern (sub_patterns x)\<rparr>) s in
             if (c, pattern) \<notin> set (pubsub_patterns s) then None
             else Some (s\<lparr>pubsub_patterns := remove1 (c, pattern) (pubsub_patterns s)\<rparr>, 1))
          else Some (s, 0));
       Some (if notify then sub_reply ''punsubscribe'' c (RBulk pattern) s else s, retval)
     }"

fun unsub_loop :: "(string \<Rightarrow> server \<Rightarrow> (server \<times> nat) option) \<Rightarrow> string list \<Rightarrow> server \<Rightarrow> nat \<Rightarrow>
    (server \<times> nat) option" where
  "unsub_loop f [] s count = Some (s, count)"
| "unsub_loop f (x # xs) s count =
     do { (s, n) \<leftarrow> f x s; unsub_loop f xs s (count + n) }"

definition pubsubUnsubscribeAllChannels :: "nat \<Rightarrow> string list \<Rightarrow> bool \<Rightarrow> server \<Rightarrow> (server \<times> nat) option" where
  \<comment> \<open>\<open>visit\<close>: the channels in the order in which the iterator of the dictionary meets them\<close>
  "pubsubUnsubscribeAllChannels c visit notify s =
     do {
       (s, count) \<leftarrow> unsub_loop (\<lambda>ch. pubsubUnsubscribeChannel c ch notify) visit s 0;
       Some (if notify \<and> count = 0 then sub_reply ''unsubscribe'' c RNullBulk s else s, count)
     }"

definition pubsubUnsubscribeAllPatterns :: "nat \<Rightarrow> bool \<Rightarrow> server \<Rightarrow> (server \<times> nat) option" where
  "pubsubUnsubscribeAllPatterns c notify s =
     do {
       (s, count) \<leftarrow>
         unsub_loop (\<lambda>p. pubsubUnsubscribePattern c p notify) (sub_patterns (cl s c)) s 0;
       Some (if notify \<and> count = 0 then sub_reply ''punsubscribe'' c RNullBulk s else s, count)
     }"

section \<open>Publishing\<close>

definition message_to :: "string \<Rightarrow> string \<Rightarrow> reply list" where
  "message_to channel message = [RMulti 3, RBulk ''message'', RBulk channel, RBulk message]"

definition pmessage_to :: "string \<Rightarrow> string \<Rightarrow> string \<Rightarrow> reply list" where
  "pmessage_to pattern channel message =
     [RMulti 4, RBulk ''pmessage'', RBulk pattern, RBulk channel, RBulk message]"

definition pattern_matches :: "string \<Rightarrow> string \<Rightarrow> bool" where
  \<comment> \<open>false where the matcher would read outside the pattern\<close>
  "pattern_matches pattern channel \<longleftrightarrow> stringmatch pattern channel False = Some True"

definition pubsubPublishMessage :: "string \<Rightarrow> string \<Rightarrow> server \<Rightarrow> server \<times> nat" where
  "pubsubPublishMessage channel message s =
     (let cs = (case pubsub_channels s channel of None \<Rightarrow> [] | Some cs \<Rightarrow> cs);
          s = fold (\<lambda>c. addReplies c (message_to channel message)) cs s;
          ps = filter (\<lambda>(c, p). pattern_matches p channel) (pubsub_patterns s);
          s = fold (\<lambda>(c, p). addReplies c (pmessage_to p channel message)) ps s
      in (s, length cs + length ps))"

definition notifyKeyspaceEvent :: "nat \<Rightarrow> string \<Rightarrow> string \<Rightarrow> nat \<Rightarrow> server \<Rightarrow> server" where
  "notifyKeyspaceEvent class event key dbid s =
     (if notify_keyspace_events s AND class = 0 then s
      else
        let (buf, len) = ll2string (replicate 24 NUL) 24 (int dbid);
            db = take len buf;
            s = (if notify_keyspace_events s AND REDIS_NOTIFY_KEYSPACE \<noteq> 0
                 then fst (pubsubPublishMessage (''__keyspace@'' @ db @ ''__:'' @ key) event s) else s);
            s = (if notify_keyspace_events s AND REDIS_NOTIFY_KEYEVENT \<noteq> 0
                 then fst (pubsubPublishMessage (''__keyevent@'' @ db @ ''__:'' @ event) key s) else s)
        in s)"

section \<open>Commands\<close>

definition subscribeCommand :: "nat \<Rightarrow> server \<Rightarrow> server" where
  "subscribeCommand c s =
     upd_client c (\<lambda>x. x\<lparr>f_pubsub := True\<rparr>)
       (fold (\<lambda>ch s. fst (pubsubSubscribeChannel c ch s)) (tl (argv s c)) s)"

definition clear_pubsub :: "nat \<Rightarrow> server \<Rightarrow> server" where
  \<comment> \<open>\<open>if (clientSubscriptionsCount(c) == 0) c->flags &= ~REDIS_PUBSUB\<close>\<close>
  "clear_pubsub c s =
     (if clientSubscriptionsCount s c = 0 then upd_client c (\<lambda>x. x\<lparr>f_pubsub := False\<rparr>) s else s)"

definition unsubscribeCommand :: "nat \<Rightarrow> string list \<Rightarrow> server \<Rightarrow> server option" where
  "unsubscribeCommand c visit s =
     do {
       (s, _) \<leftarrow>
         (if length (argv s c) = 1 then pubsubUnsubscribeAllChannels c visit True s
          else unsub_loop (\<lambda>ch. pubsubUnsubscribeChannel c ch True) (tl (argv s c)) s 0);
       Some (clear_pubsub c s)
     }"

definition psubscribeCommand :: "nat \<Rightarrow> server \<Rightarrow> server" where
  "psubscribeCommand c s =
     upd_client c (\<lambda>x. x\<lparr>f_pubsub := True\<rparr>)
       (fold (\<lambda>p s. fst (pubsubSubscribePattern c p s)) (tl (argv s c)) s)"

definition punsubscribeCommand :: "nat \<Rightarrow> server \<Rightarrow> server option" where
  "punsubscribeCommand c s =
     do {
       (s, _) \<leftarrow>
         (if length (argv s c) = 1 then pubsubUnsubscribeAllPatterns c True s
          else unsub_loop (\<lambda>p. pubsubUnsubscribePattern c p True) (tl (argv s c)) s 0);
       Some (clear_pubsub c s)
     }"

definition publishCommand :: "nat \<Rightarrow> server \<Rightarrow> server" where
  \<comment> \<open>\<open>bus_log\<close>: what \<open>clusterPropagatePublish\<close> sends on the cluster bus\<close>
  "publishCommand c s =
     (let channel = argv s c ! 1; message = argv s c ! 2;
          (s, receivers) = pubsubPublishMessage channel message s;
          s = (if cluster_enabled s then s\<lparr>bus_log := bus_log s @ [(channel, message)]\<rparr>
               else upd_client c (\<lambda>x. x\<lparr>f_force_repl := True\<rparr>) s)
      in addReply c (RInt (int receivers)) s)"

definition quoted :: "string \<Rightarrow> string" where
  \<comment> \<open>\<open>'%s'\<close>, which stops at a NUL byte\<close>
  "quoted s = [CHR 0x27] @ takeWhile (\<lambda>c. c \<noteq> NUL) s @ [CHR 0x27]"

definition err_text :: "string \<Rightarrow> string" where
  \<comment> \<open>\<open>addReplyErrorFormat\<close>: the prefix, and line breaks turned into spaces\<close>
  "err_text s = ''ERR '' @ map (\<lambda>c. if c = CHR 0x0D \<or> c = CHR 0x0A then CHR '' '' else c) s"

definition pubsubCommand :: "nat \<Rightarrow> string list \<Rightarrow> server \<Rightarrow> server" where
  \<comment> \<open>\<open>visit\<close>: the channels in the order of the iterator over \<open>server.pubsub_channels\<close>\<close>
  "pubsubCommand c visit s =
     (let av = argv s c; argc = length av in
      if eq_nocase_str (av ! 1) ''channels'' \<and> (argc = 2 \<or> argc = 3) then
        (let chs = filter (\<lambda>ch. argc = 2 \<or> pattern_matches (av ! 2) ch) visit
         in addReplies c (RMulti (int (length chs)) # map RBulk chs) s)
      else if eq_nocase_str (av ! 1) ''numsub'' \<and> argc \<ge> 2 then
        addReplies c (RMulti (int ((argc - 2) * 2)) #
          concat (map (\<lambda>ch. [RBulk ch, RInt (int (case pubsub_channels s ch of None \<Rightarrow> 0 | Some cs \<Rightarrow> length cs))])
            (drop 2 av))) s
      else if eq_nocase_str (av ! 1) ''numpat'' \<and> argc = 2 then
        addReply c (RInt (int (length (pubsub_patterns s)))) s
      else addReply c (RError (err_text
        (''Unknown PUBSUB subcommand or wrong number of arguments for '' @ quoted (av ! 1)))) s)"

section \<open>The invariant\<close>

lemma addReplies_eq: "addReplies c rs s = upd_client c (\<lambda>x. x\<lparr>creply := creply x @ rs\<rparr>) s"
proof (induction rs arbitrary: s)
  case Nil
  then show ?case by (simp add: addReplies_def upd_client_def)
next
  case (Cons r rs)
  have "addReplies c (r # rs) s = addReplies c rs (addReply c r s)" by (simp add: addReplies_def)
  then show ?case unfolding Cons by (simp add: addReply_def upd_client_def)
qed

definition pubsub_inv :: "server \<Rightarrow> bool" where
  "pubsub_inv s \<longleftrightarrow>
     (\<forall>c ch. ch \<in> sub_channels (cl s c) \<longleftrightarrow> (\<exists>cs. pubsub_channels s ch = Some cs \<and> c \<in> set cs)) \<and>
     (\<forall>ch cs. pubsub_channels s ch = Some cs \<longrightarrow> distinct cs \<and> cs \<noteq> []) \<and>
     (\<forall>c p. p \<in> set (sub_patterns (cl s c)) \<longleftrightarrow> (c, p) \<in> set (pubsub_patterns s)) \<and>
     (\<forall>c. distinct (sub_patterns (cl s c))) \<and> distinct (pubsub_patterns s)"

lemma pubsub_inv_cong:
  "pubsub_channels s' = pubsub_channels s \<Longrightarrow> pubsub_patterns s' = pubsub_patterns s \<Longrightarrow>
   (\<And>c. sub_channels (cl s' c) = sub_channels (cl s c)) \<Longrightarrow>
   (\<And>c. sub_patterns (cl s' c) = sub_patterns (cl s c)) \<Longrightarrow> pubsub_inv s' = pubsub_inv s"
  by (simp add: pubsub_inv_def)

lemma pubsub_inv_replies [simp]: "pubsub_inv (addReplies c rs s) = pubsub_inv s"
  by (rule pubsub_inv_cong) (simp_all add: addReplies_eq)

lemma pubsub_inv_sub_reply [simp]: "pubsub_inv (sub_reply k c x s) = pubsub_inv s"
  by (simp add: sub_reply_def)

lemma subs_replies [simp]:
  "pubsub_channels (addReplies c rs s) = pubsub_channels s"
  "pubsub_patterns (addReplies c rs s) = pubsub_patterns s"
  "sub_channels (cl (addReplies c rs s) d) = sub_channels (cl s d)"
  "sub_patterns (cl (addReplies c rs s) d) = sub_patterns (cl s d)"
  "sub_channels (cl (sub_reply k c x s) d) = sub_channels (cl s d)"
  "sub_patterns (cl (sub_reply k c x s) d) = sub_patterns (cl s d)"
  by (simp_all add: sub_reply_def addReplies_eq)

lemma subscribe_inv: "pubsub_inv s \<Longrightarrow> pubsub_inv (fst (pubsubSubscribeChannel c ch s))"
  by (simp add: pubsubSubscribeChannel_def Let_def) (auto simp: pubsub_inv_def split: option.splits)

lemma unsubscribe_inv:
  assumes "pubsub_inv s"
  shows "\<exists>s' n. pubsubUnsubscribeChannel c ch notify s = Some (s', n) \<and> pubsub_inv s' \<and>
    sub_channels (cl s' c) = sub_channels (cl s c) - {ch} \<and> sub_patterns (cl s' c) = sub_patterns (cl s c) \<and>
    n = (if ch \<in> sub_channels (cl s c) then 1 else 0)"
proof (cases "ch \<in> sub_channels (cl s c)")
  case False
  with assms show ?thesis by (simp add: pubsubUnsubscribeChannel_def)
next
  case True
  then obtain cs where cs: "pubsub_channels s ch = Some cs" "c \<in> set cs" "distinct cs"
    using assms by (auto simp: pubsub_inv_def)
  let ?s = "upd_client c (\<lambda>x. x\<lparr>sub_channels := sub_channels x - {ch}\<rparr>) s"
  let ?t = "?s\<lparr>pubsub_channels := (pubsub_channels s)(ch := if remove1 c cs = [] then None else Some (remove1 c cs))\<rparr>"
  have "remove1 c cs = [] \<longleftrightarrow> set cs = {c}"
    using cs(2) set_remove1_eq[OF cs(3), of c] by (metis Diff_eq_empty_iff empty_iff list.set(1) set_empty subset_singleton_iff)
  with assms cs have "pubsub_inv ?t" by (auto simp: pubsub_inv_def split: if_splits)
  with True cs show ?thesis
    by (simp add: pubsubUnsubscribeChannel_def Let_def)
qed

lemma psubscribe_inv: "pubsub_inv s \<Longrightarrow> pubsub_inv (fst (pubsubSubscribePattern c p s))"
  by (simp add: pubsubSubscribePattern_def Let_def) (auto simp: pubsub_inv_def)

lemma punsubscribe_inv:
  assumes "pubsub_inv s"
  shows "\<exists>s' n. pubsubUnsubscribePattern c p notify s = Some (s', n) \<and> pubsub_inv s' \<and>
    sub_patterns (cl s' c) = remove1 p (sub_patterns (cl s c)) \<and> sub_channels (cl s' c) = sub_channels (cl s c) \<and>
    n = (if p \<in> set (sub_patterns (cl s c)) then 1 else 0)"
proof (cases "p \<in> set (sub_patterns (cl s c))")
  case False
  with assms show ?thesis by (simp add: pubsubUnsubscribePattern_def remove1_idem)
next
  case True
  then have "(c, p) \<in> set (pubsub_patterns s)" using assms by (auto simp: pubsub_inv_def)
  let ?s = "upd_client c (\<lambda>x. x\<lparr>sub_patterns := remove1 p (sub_patterns x)\<rparr>) s"
  have "pubsub_inv (?s\<lparr>pubsub_patterns := remove1 (c, p) (pubsub_patterns s)\<rparr>)"
    using assms by (auto simp: pubsub_inv_def)
  with True \<open>(c, p) \<in> set (pubsub_patterns s)\<close> show ?thesis
    by (simp add: pubsubUnsubscribePattern_def Let_def)
qed

section \<open>Delivery\<close>

lemma creply_replies [simp]:
  "creply (cl (addReplies c rs s) d) = creply (cl s d) @ (if c = d then rs else [])"
  by (simp add: addReplies_eq)

lemma fold_replies_channel:
  "distinct cs \<Longrightarrow> creply (cl (fold (\<lambda>c. addReplies c rs) cs s) d) =
     creply (cl s d) @ (if d \<in> set cs then rs else [])"
  by (induction cs arbitrary: s) auto

lemma fold_replies_patterns:
  "creply (cl (fold (\<lambda>(c, p). addReplies c (f p)) ps s) d) =
     creply (cl s d) @ concat (map (\<lambda>(c, p). f p) (filter (\<lambda>(c, p). c = d) ps))"
  by (induction ps arbitrary: s) auto

lemma fold_replies_tables [simp]:
  "pubsub_channels (fold (\<lambda>c. addReplies c rs) cs s) = pubsub_channels s"
  "pubsub_patterns (fold (\<lambda>c. addReplies c rs) cs s) = pubsub_patterns s"
  "pubsub_inv (fold (\<lambda>c. addReplies c rs) cs s) = pubsub_inv s"
  by (induction cs arbitrary: s) simp_all

lemma fold_replies_inv [simp]:
  "pubsub_inv (fold (\<lambda>(c, p). addReplies c (f p)) ps s) = pubsub_inv s"
  by (induction ps arbitrary: s) (simp_all add: case_prod_beta)

lemma publish_inv: "pubsub_inv (fst (pubsubPublishMessage ch msg s)) = pubsub_inv s"
  by (simp add: pubsubPublishMessage_def Let_def)

lemma notify_inv: "pubsub_inv (notifyKeyspaceEvent class event key dbid s) = pubsub_inv s"
  by (simp add: notifyKeyspaceEvent_def Let_def publish_inv split: prod.split)

lemma quiet_publish [simp]: "quiet (fst (pubsubPublishMessage ch msg s)) = quiet s"
proof -
  have "quiet (fold (\<lambda>c. addReplies c rs) cs s) = quiet s" for cs rs s by (rule quiet_fold) simp
  moreover have "quiet (fold (\<lambda>(c, p). addReplies c (f p)) ps s) = quiet s" for ps s and f :: "string \<Rightarrow> reply list"
    by (rule quiet_fold) (simp add: case_prod_beta)
  ultimately show ?thesis by (simp add: pubsubPublishMessage_def Let_def)
qed

lemma quiet_notify [simp]: "quiet (notifyKeyspaceEvent class event key dbid s) = quiet s"
  by (simp add: notifyKeyspaceEvent_def Let_def split: prod.split)

lemmas notify_sel [simp] = quietD[OF quiet_notify] quiet_clientD[OF quiet_notify]

section \<open>All subscriptions of a client\<close>

lemma unsub_channels_loop:
  "pubsub_inv s \<Longrightarrow>
   \<exists>s' k. unsub_loop (\<lambda>ch. pubsubUnsubscribeChannel c ch notify) chs s n = Some (s', k) \<and> pubsub_inv s' \<and>
     sub_channels (cl s' c) = sub_channels (cl s c) - set chs \<and>
     sub_patterns (cl s' c) = sub_patterns (cl s c)"
proof (induction chs arbitrary: s n)
  case (Cons ch chs)
  obtain s1 k where s1: "pubsubUnsubscribeChannel c ch notify s = Some (s1, k)" "pubsub_inv s1"
    "sub_channels (cl s1 c) = sub_channels (cl s c) - {ch}" "sub_patterns (cl s1 c) = sub_patterns (cl s c)"
    using unsubscribe_inv[OF Cons.prems, of c ch notify] by blast
  from Cons.IH[OF s1(2), of "n + k"] s1 show ?case by auto
qed simp

lemma unsub_patterns_loop:
  "pubsub_inv s \<Longrightarrow>
   \<exists>s' k. unsub_loop (\<lambda>p. pubsubUnsubscribePattern c p notify) ps s n = Some (s', k) \<and> pubsub_inv s' \<and>
     set (sub_patterns (cl s' c)) = set (sub_patterns (cl s c)) - set ps \<and>
     sub_channels (cl s' c) = sub_channels (cl s c)"
proof (induction ps arbitrary: s n)
  case (Cons p ps)
  obtain s1 k where s1: "pubsubUnsubscribePattern c p notify s = Some (s1, k)" "pubsub_inv s1"
    "sub_patterns (cl s1 c) = remove1 p (sub_patterns (cl s c))" "sub_channels (cl s1 c) = sub_channels (cl s c)"
    using punsubscribe_inv[OF Cons.prems, of c p notify] by blast
  have "distinct (sub_patterns (cl s c))" using Cons.prems by (simp add: pubsub_inv_def)
  then have "set (sub_patterns (cl s1 c)) = set (sub_patterns (cl s c)) - {p}" by (simp add: s1(3))
  with Cons.IH[OF s1(2), of "n + k"] s1 show ?case by auto
qed simp

section \<open>Properties\<close>

text \<open>A server without subscriptions, for the examples.\<close>

definition no_client :: client where
  "no_client = \<lparr>cdb = 0, cargv = [], ccmd = no_flags_command [] [] 0 None 0 0 0,
     lastcmd = None, authenticated = True, f_multi = False, f_dirty_cas = False, f_dirty_exec = False, f_pubsub = False,
     f_blocked = False, f_unblocked = False, f_master = False, f_force_aof = False, f_force_repl = False, f_close_after_reply = False, f_readonly = False, f_asking = False,
     mcommands = [], wkeys = [], sub_channels = {}, sub_patterns = [], btype = REDIS_BLOCKED_NONE, bpop_keys = [],
     bpop_timeout = 0, bpop_target = None, bpop_reploffset = 0, bpop_numreplicas = 0, woff = 0, slave_online = False,
     repl_ack_off = 0, creply = []\<rparr>"

definition empty_db :: redisDb where
  "empty_db = \<lparr>kv = Map.empty, expires = Map.empty, blocking_keys = Map.empty, db_ready_keys = {}, watched_keys = Map.empty\<rparr>"

definition start_server :: server where
  "start_server = \<lparr>dbs = replicate 16 empty_db, clients = [0, 1, 2], cl = (\<lambda>_. no_client), dirty = 0,
     stat_expiredkeys = 0, stat_hits = 0, stat_misses = 0, stat_numcommands = 0, loading = False, cluster_enabled = False,
     masterhost = None, in_lua = False, lua_time_start = 0, clk = int, clk_reads = 0, aof_on = True, aof_log = [],
     repl_log = [], notify_keyspace_events = 0, pubsub_channels = Map.empty, pubsub_patterns = [],
     slots_to_keys = {}, ready_keys = [], bpop_blocked_clients = 0,
     unblocked_clients = [], slaves = [], clients_waiting_acks = [], get_ack_from_slaves = False, master_repl_offset = 0,
     list_max_ziplist_entries = 512, list_max_ziplist_value = 64, set_max_intset_entries = 512,
     hash_max_ziplist_entries = 512, hash_max_ziplist_value = 64, monitors = [], monitor_log = [], bus_log = [], crashed = False\<rparr>"

lemma start_pubsub_inv [simp]: "pubsub_inv start_server"
  by (simp add: pubsub_inv_def start_server_def no_client_def)

lemma start_subs: "sub_channels (cl start_server c) = {}" "sub_patterns (cl start_server c) = []"
  "pubsub_patterns start_server = []" "pubsub_channels start_server = Map.empty" "creply (cl start_server c) = []"
  by (simp_all add: start_server_def no_client_def)



text \<open>C34: a published message goes once to every client subscribed to the channel, and once more for
  each pattern of a client that matches the channel; nobody else is sent anything, and the count
  returned is the number of deliveries.\<close>

theorem publish_delivers:
  assumes "pubsub_inv s"
  shows "creply (cl (fst (pubsubPublishMessage ch msg s)) c) =
      creply (cl s c) @ (if ch \<in> sub_channels (cl s c) then message_to ch msg else []) @
      concat (map (\<lambda>(c, p). pmessage_to p ch msg)
        (filter (\<lambda>(d, p). d = c \<and> pattern_matches p ch) (pubsub_patterns s))) \<and>
    snd (pubsubPublishMessage ch msg s) =
      card {d. ch \<in> sub_channels (cl s d)} +
      card {(d, p). p \<in> set (sub_patterns (cl s d)) \<and> pattern_matches p ch}"
proof -
  let ?cs = "case pubsub_channels s ch of None \<Rightarrow> [] | Some cs \<Rightarrow> cs"
  have cs: "distinct ?cs" "d \<in> set ?cs \<longleftrightarrow> ch \<in> sub_channels (cl s d)" for d
    using assms by (cases "pubsub_channels s ch"; simp add: pubsub_inv_def)+
  then have "set ?cs = {d. ch \<in> sub_channels (cl s d)}" by blast
  with cs(1) have n1: "length ?cs = card {d. ch \<in> sub_channels (cl s d)}" using distinct_card by fastforce
  let ?ps = "filter (\<lambda>(c, p). pattern_matches p ch) (pubsub_patterns s)"
  have "distinct ?ps" "set ?ps = {(d, p). p \<in> set (sub_patterns (cl s d)) \<and> pattern_matches p ch}"
    using assms by (auto simp: pubsub_inv_def)
  then have n2: "length ?ps = card {(d, p). p \<in> set (sub_patterns (cl s d)) \<and> pattern_matches p ch}"
    using distinct_card by metis
  have "filter (\<lambda>(d, p). d = c) ?ps = filter (\<lambda>(d, p). d = c \<and> pattern_matches p ch) (pubsub_patterns s)"
    by (auto intro!: filter_cong simp: case_prod_beta)
  with n1 n2 cs(2)[of c] show ?thesis
    by (simp add: pubsubPublishMessage_def Let_def fold_replies_channel[OF cs(1)] fold_replies_patterns)
qed

theorem publish_delivers_witness:
  "creply (cl (fst (pubsubPublishMessage ''news'' ''hi'' (fst (pubsubSubscribeChannel 1 ''news'' start_server)))) 2) = []"
proof -
  have s: "pubsub_inv (fst (pubsubSubscribeChannel 1 ''news'' start_server))" by (rule subscribe_inv) simp
  have "pubsub_patterns (fst (pubsubSubscribeChannel 1 ''news'' start_server)) = []"
    "sub_channels (cl (fst (pubsubSubscribeChannel 1 ''news'' start_server)) 2) = {}"
    "creply (cl (fst (pubsubSubscribeChannel 1 ''news'' start_server)) 2) = []"
    by (simp_all add: pubsubSubscribeChannel_def start_subs sub_reply_def Let_def addReplies_eq)
  then show ?thesis using publish_delivers[OF s, of "''news''" "''hi''" 2] by simp
qed

lemma notify_loop_opt:
  "c \<noteq> NUL \<Longrightarrow> notify_class c = Some x \<Longrightarrow>
   notify_loop ((if b then [c] else []) @ rest) acc = notify_loop rest (acc OR (if b then x else 0))"
  by simp

lemma and_pow2: "(if flags AND 2 ^ i \<noteq> 0 then 2 ^ i else 0) = flags AND (2 :: nat) ^ i"
  by (rule bit_eqI) (auto simp: bit_simps and_exp_eq_0_iff_not_bit)

lemma pows: "(2 :: nat) ^ 0 = 1" "(2 :: nat) ^ 1 = 2" "(2 :: nat) ^ 2 = 4" "(2 :: nat) ^ 3 = 8"
  "(2 :: nat) ^ 4 = 16" "(2 :: nat) ^ 5 = 32" "(2 :: nat) ^ 6 = 64" "(2 :: nat) ^ 7 = 128"
  "(2 :: nat) ^ 8 = 256" "(2 :: nat) ^ 9 = 512"
  by simp_all

lemmas and_masks =
  and_pow2[of _ 0, unfolded pows] and_pow2[of _ 1, unfolded pows] and_pow2[of _ 2, unfolded pows]
  and_pow2[of _ 3, unfolded pows] and_pow2[of _ 4, unfolded pows] and_pow2[of _ 5, unfolded pows]
  and_pow2[of _ 6, unfolded pows] and_pow2[of _ 7, unfolded pows] and_pow2[of _ 8, unfolded pows]
  and_pow2[of _ 9, unfolded pows]

lemma and_or_merge: "(f AND a) OR (f AND b) = f AND (a OR b :: nat)"
  by (rule bit_eqI) (auto simp: bit_simps)

text \<open>the notification classes are printed and parsed consistently: the classes of any flags are
  recovered from their string.\<close>

theorem notify_flags_roundtrip:
  "keyspaceEventsStringToFlags (keyspaceEventsFlagsToString flags) = Some (flags AND 1023)"
proof -
  have opt: "notify_loop ((if b then [c] else []) @ rest) acc = notify_loop rest (acc OR (if b then x else 0))"
    if "c \<noteq> NUL" "notify_class c = Some x" for b c rest acc x
    by (rule notify_loop_opt[OF that])
  have classes: "notify_class CHR ''g'' = Some 4" "notify_class CHR ''$'' = Some 8"
    "notify_class CHR ''l'' = Some 16" "notify_class CHR ''s'' = Some 32" "notify_class CHR ''h'' = Some 64"
    "notify_class CHR ''z'' = Some 128" "notify_class CHR ''x'' = Some 256" "notify_class CHR ''e'' = Some 512"
    "notify_class CHR ''K'' = Some 1" "notify_class CHR ''E'' = Some 2" "notify_class CHR ''A'' = Some 1020"
    by (simp_all add: notify_class_def)
  have nn: "CHR ''g'' \<noteq> NUL" "CHR ''$'' \<noteq> NUL" "CHR ''l'' \<noteq> NUL" "CHR ''s'' \<noteq> NUL"
    "CHR ''h'' \<noteq> NUL" "CHR ''z'' \<noteq> NUL" "CHR ''x'' \<noteq> NUL" "CHR ''e'' \<noteq> NUL" by simp_all
  have tail: "notify_loop ((if flags AND 1 \<noteq> 0 then ''K'' else []) @ (if flags AND 2 \<noteq> 0 then ''E'' else [])) acc =
      Some ((acc OR (flags AND 1)) OR (flags AND 2))" for acc
    using opt[of "CHR ''K''" 1 "flags AND 1 \<noteq> 0" "if flags AND 2 \<noteq> 0 then ''E'' else []" acc]
      opt[of "CHR ''E''" 2 "flags AND 2 \<noteq> 0" "[]" "acc OR (flags AND 1)"] classes
    by (simp only: and_masks append_Nil2) simp
  have merge: "((flags AND 1020) OR (flags AND 1)) OR (flags AND 2) = flags AND 1023"
    unfolding and_or_merge by simp
  show ?thesis
  proof (cases "flags AND 1020 = 1020")
    case True
    then show ?thesis
      using tail[of 1020] merge
      by (simp add: keyspaceEventsStringToFlags_def keyspaceEventsFlagsToString_def classes)
  next
    case False
    have "(((((((flags AND 4) OR (flags AND 8)) OR (flags AND 16)) OR (flags AND 32)) OR (flags AND 64)) OR
        (flags AND 128)) OR (flags AND 256)) OR (flags AND 512) = flags AND 1020"
      unfolding and_or_merge by simp
    with False tail[of "flags AND 1020"] merge show ?thesis
      unfolding keyspaceEventsStringToFlags_def keyspaceEventsFlagsToString_def
      by (simp only: if_False append_assoc opt[OF nn(1) classes(1)] opt[OF nn(2) classes(2)] opt[OF nn(3) classes(3)]
          opt[OF nn(4) classes(4)] opt[OF nn(5) classes(5)] opt[OF nn(6) classes(6)] opt[OF nn(7) classes(7)] opt[OF nn(8) classes(8)]
          and_masks or.left_neutral)
  qed
qed

end
