(* ===== verification/Slots.thy ===== *)
theory Slots
  imports Prelude
begin

text \<open>
  Hash slots of the cluster: \<open>crc16\<close> of \<open>src/redis-3.0/src/crc16.c\<close>, driven by its table, and
  \<open>keyHashSlot\<close> of \<open>cluster.c\<close>. The table is shown to be the one of the polynomial
  x^16 + x^12 + x^5 + 1, bit by bit, and two keys with the same hash tag to share a slot.
\<close>

unbundle bit_operations_syntax

section \<open>The code\<close>

definition crc16tab :: "16 word list" where
  "crc16tab =
     [0x0000, 0x1021, 0x2042, 0x3063, 0x4084, 0x50a5, 0x60c6, 0x70e7,
      0x8108, 0x9129, 0xa14a, 0xb16b, 0xc18c, 0xd1ad, 0xe1ce, 0xf1ef,
      0x1231, 0x0210, 0x3273, 0x2252, 0x52b5, 0x4294, 0x72f7, 0x62d6,
      0x9339, 0x8318, 0xb37b, 0xa35a, 0xd3bd, 0xc39c, 0xf3ff, 0xe3de,
      0x2462, 0x3443, 0x0420, 0x1401, 0x64e6, 0x74c7, 0x44a4, 0x5485,
      0xa56a, 0xb54b, 0x8528, 0x9509, 0xe5ee, 0xf5cf, 0xc5ac, 0xd58d,
      0x3653, 0x2672, 0x1611, 0x0630, 0x76d7, 0x66f6, 0x5695, 0x46b4,
      0xb75b, 0xa77a, 0x9719, 0x8738, 0xf7df, 0xe7fe, 0xd79d, 0xc7bc,
      0x48c4, 0x58e5, 0x6886, 0x78a7, 0x0840, 0x1861, 0x2802, 0x3823,
      0xc9cc, 0xd9ed, 0xe98e, 0xf9af, 0x8948, 0x9969, 0xa90a, 0xb92b,
      0x5af5, 0x4ad4, 0x7ab7, 0x6a96, 0x1a71, 0x0a50, 0x3a33, 0x2a12,
      0xdbfd, 0xcbdc, 0xfbbf, 0xeb9e, 0x9b79, 0x8b58, 0xbb3b, 0xab1a,
      0x6ca6, 0x7c87, 0x4ce4, 0x5cc5, 0x2c22, 0x3c03, 0x0c60, 0x1c41,
      0xedae, 0xfd8f, 0xcdec, 0xddcd, 0xad2a, 0xbd0b, 0x8d68, 0x9d49,
      0x7e97, 0x6eb6, 0x5ed5, 0x4ef4, 0x3e13, 0x2e32, 0x1e51, 0x0e70,
      0xff9f, 0xefbe, 0xdfdd, 0xcffc, 0xbf1b, 0xaf3a, 0x9f59, 0x8f78,
      0x9188, 0x81a9, 0xb1ca, 0xa1eb, 0xd10c, 0xc12d, 0xf14e, 0xe16f,
      0x1080, 0x00a1, 0x30c2, 0x20e3, 0x5004, 0x4025, 0x7046, 0x6067,
      0x83b9, 0x9398, 0xa3fb, 0xb3da, 0xc33d, 0xd31c, 0xe37f, 0xf35e,
      0x02b1, 0x1290, 0x22f3, 0x32d2, 0x4235, 0x5214, 0x6277, 0x7256,
      0xb5ea, 0xa5cb, 0x95a8, 0x8589, 0xf56e, 0xe54f, 0xd52c, 0xc50d,
      0x34e2, 0x24c3, 0x14a0, 0x0481, 0x7466, 0x6447, 0x5424, 0x4405,
      0xa7db, 0xb7fa, 0x8799, 0x97b8, 0xe75f, 0xf77e, 0xc71d, 0xd73c,
      0x26d3, 0x36f2, 0x0691, 0x16b0, 0x6657, 0x7676, 0x4615, 0x5634,
      0xd94c, 0xc96d, 0xf90e, 0xe92f, 0x99c8, 0x89e9, 0xb98a, 0xa9ab,
      0x5844, 0x4865, 0x7806, 0x6827, 0x18c0, 0x08e1, 0x3882, 0x28a3,
      0xcb7d, 0xdb5c, 0xeb3f, 0xfb1e, 0x8bf9, 0x9bd8, 0xabbb, 0xbb9a,
      0x4a75, 0x5a54, 0x6a37, 0x7a16, 0x0af1, 0x1ad0, 0x2ab3, 0x3a92,
      0xfd2e, 0xed0f, 0xdd6c, 0xcd4d, 0xbdaa, 0xad8b, 0x9de8, 0x8dc9,
      0x7c26, 0x6c07, 0x5c64, 0x4c45, 0x3ca2, 0x2c83, 0x1ce0, 0x0cc1,
      0xef1f, 0xff3e, 0xcf5d, 0xdf7c, 0xaf9b, 0xbfba, 0x8fd9, 0x9ff8,
      0x6e17, 0x7e36, 0x4e55, 0x5e74, 0x2e93, 0x3eb2, 0x0ed1, 0x1ef0]"

definition crc16_step :: "16 word \<Rightarrow> char \<Rightarrow> 16 word" where
  "crc16_step crc c = push_bit 8 crc XOR crc16tab ! unat ((drop_bit 8 crc XOR of_char c) AND 0x00FF)"

definition crc16 :: "string \<Rightarrow> 16 word" where
  "crc16 buf = foldl crc16_step 0 buf"

definition index_of :: "char \<Rightarrow> string \<Rightarrow> nat \<Rightarrow> nat" where
  \<comment> \<open>the loop \<open>for (i = from; i < keylen; i++) if (key[i] == c) break;\<close>\<close>
  "index_of c key from = from + length (takeWhile (\<lambda>x. x \<noteq> c) (drop from key))"

definition keyHashSlot :: "string \<Rightarrow> nat" where
  "keyHashSlot key =
     (let keylen = length key; s = index_of CHR ''{'' key 0 in
      if s = keylen then unat (crc16 key AND 0x3FFF)
      else
        let e = index_of CHR ''}'' key (s + 1) in
        if e = keylen \<or> e = s + 1 then unat (crc16 key AND 0x3FFF)
        else unat (crc16 (take (e - s - 1) (drop (s + 1) key)) AND 0x3FFF))"

section \<open>The table is the polynomial\<close>

definition crc_shift :: "16 word \<Rightarrow> 16 word" where
  \<comment> \<open>one step of the division, the top bit first\<close>
  "crc_shift x = (if bit x 15 then push_bit 1 x XOR 0x1021 else push_bit 1 x)"

definition crc_bits :: "16 word \<Rightarrow> char \<Rightarrow> 16 word" where
  \<comment> \<open>one byte, bit by bit\<close>
  "crc_bits crc c = (crc_shift ^^ 8) (crc XOR push_bit 8 (of_char c))"

lemma crc_shift_xor: "crc_shift (x XOR y) = crc_shift x XOR crc_shift y"
  by (rule bit_word_eqI) (auto simp: crc_shift_def bit_simps)

lemma crc_shifts_xor: "(crc_shift ^^ n) (x XOR y) = (crc_shift ^^ n) x XOR (crc_shift ^^ n) y"
  by (induction n) (simp_all add: crc_shift_xor)

lemma crc_shifts_low: "n \<le> 8 \<Longrightarrow> (crc_shift ^^ n) (take_bit 8 x) = push_bit n (take_bit 8 x)"
proof (induction n)
  case (Suc n)
  then have "\<not> bit (push_bit n (take_bit 8 x)) 15" by (auto simp: bit_push_bit_iff bit_take_bit_iff)
  with Suc show ?case by (simp add: crc_shift_def push_bit_push_bit)
qed simp

text \<open>The entries of the table by doubling: the value at \<open>2^k + j\<close> is the sum of those at \<open>2^k\<close> and \<open>j\<close>.\<close>

definition crc_entry :: "nat \<Rightarrow> 16 word" where
  "crc_entry i = (crc_shift ^^ 8) (push_bit 8 (of_nat i))"

lemma crc_entry_add: "j < 2 ^ k \<Longrightarrow> crc_entry (2 ^ k + j) = crc_entry (2 ^ k) XOR crc_entry j"
proof -
  assume "j < 2 ^ k"
  then have "\<not> bit j k" by (simp add: bit_iff_odd)
  then have "j AND 2 ^ k = 0" by (simp add: and_exp_eq_0_iff_not_bit)
  then have "2 ^ k + j = 2 ^ k XOR j" by (intro disjunctive_add_eq_xor) (simp add: and.commute)
  then show ?thesis by (simp add: crc_entry_def of_nat_xor_eq push_bit_xor crc_shifts_xor del: of_nat_add)
qed

lemma crc_entries_double:
  "map crc_entry [0..<2 ^ Suc k] =
   map crc_entry [0..<2 ^ k] @ map (\<lambda>x. crc_entry (2 ^ k) XOR x) (map crc_entry [0..<2 ^ k])"
proof -
  have "map (\<lambda>j. j + 2 ^ k) [0..<2 ^ k] = [2 ^ k..<2 ^ k + 2 ^ k]" by (rule map_add_upt)
  then have "[0..<2 ^ Suc k] = [0..<2 ^ k] @ map (\<lambda>j. j + 2 ^ k) [0..<2 ^ k]"
    using upt_add_eq_append[of 0 "2 ^ k" "2 ^ k"] by (simp only: power_Suc mult_2 le0 add_0)
  moreover have "map crc_entry (map (\<lambda>j. j + 2 ^ k) [0..<2 ^ k]) =
      map (\<lambda>x. crc_entry (2 ^ k) XOR x) (map crc_entry [0..<2 ^ k])"
    unfolding map_map using crc_entry_add[of _ k] by (intro map_cong) (auto simp: add.commute[of _ "2 ^ k"])
  ultimately show ?thesis by (simp only: map_append)
qed

lemma crc_entry_powers:
  "crc_entry 0 = 0" "crc_entry 1 = 0x1021" "crc_entry 2 = 0x2042" "crc_entry 4 = 0x4084" "crc_entry 8 = 0x8108"
  "crc_entry 16 = 0x1231" "crc_entry 32 = 0x2462" "crc_entry 64 = 0x48c4" "crc_entry 128 = 0x9188"
  by code_simp+

definition crc_double :: "16 word \<Rightarrow> 16 word list \<Rightarrow> 16 word list" where
  "crc_double p xs = xs @ map (\<lambda>x. p XOR x) xs"

lemma crc16tab_double:
  "crc16tab = crc_double 0x9188 (crc_double 0x48c4 (crc_double 0x2462 (crc_double 0x1231
     (crc_double 0x8108 (crc_double 0x4084 (crc_double 0x2042 (crc_double 0x1021 [0])))))))"
  by (simp add: crc_double_def crc16tab_def)

lemma crc_entries_crc_double:
  "map crc_entry [0..<2 ^ Suc k] = crc_double (crc_entry (2 ^ k)) (map crc_entry [0..<2 ^ k])"
  by (simp only: crc_entries_double crc_double_def)

lemma crc16tab_entries: "crc16tab = map crc_entry [0..<2 ^ 8]"
proof -
  have one: "map crc_entry [0..<1] = [0]" by (simp add: crc_entry_powers)
  have "map crc_entry [0..<2 ^ Suc (Suc (Suc (Suc (Suc (Suc (Suc (Suc 0)))))))] = crc16tab"
    unfolding crc_entries_crc_double crc16tab_double by (simp add: crc_entry_powers one del: One_nat_def)
  moreover have "Suc (Suc (Suc (Suc (Suc (Suc (Suc (Suc 0))))))) = 8" by simp
  ultimately show ?thesis by (simp only:)
qed

lemma crc16_step_bits: "crc16_step crc c = crc_bits crc c"
proof -
  let ?hi = "drop_bit 8 crc" and ?c = "of_char c :: 16 word"
  have hi: "crc = push_bit 8 ?hi XOR take_bit 8 crc"
    by (rule bit_word_eqI) (auto simp: bit_simps)
  let ?i = "(?hi XOR ?c) AND 0x00FF"
  have i: "?i = take_bit 8 (?hi XOR ?c)" by (simp add: take_bit_eq_mask mask_eq_exp_minus_1)
  have "unat ?i < 2 ^ 8" unfolding i unsigned_take_bit_eq by (rule take_bit_nat_less_exp)
  then have "crc16tab ! unat ?i = crc_entry (unat ?i)" unfolding crc16tab_entries by simp
  also have "\<dots> = (crc_shift ^^ 8) (push_bit 8 ?i)" by (simp add: crc_entry_def)
  also have "push_bit 8 ?i = push_bit 8 (?hi XOR ?c)"
    unfolding i by (rule bit_word_eqI) (auto simp: bit_simps)
  finally have t: "crc16tab ! unat ?i = (crc_shift ^^ 8) (push_bit 8 ?hi XOR push_bit 8 ?c)"
    by (simp add: push_bit_xor)
  have low: "(crc_shift ^^ 8) (take_bit 8 crc) = push_bit 8 crc"
  proof -
    have "(crc_shift ^^ 8) (take_bit 8 crc) = push_bit 8 (take_bit 8 crc)" by (rule crc_shifts_low) simp
    also have "\<dots> = push_bit 8 crc" by (rule bit_word_eqI) (auto simp: bit_simps)
    finally show ?thesis .
  qed
  have "crc_bits crc c = (crc_shift ^^ 8) (take_bit 8 crc) XOR (crc_shift ^^ 8) (push_bit 8 ?hi XOR push_bit 8 ?c)"
    unfolding crc_bits_def crc_shifts_xor[symmetric]
    by (rule arg_cong[where f = "crc_shift ^^ 8"]) (subst hi, simp add: ac_simps)
  then show ?thesis unfolding crc16_step_def t low by simp
qed

lemma takeWhile_stop: "c \<notin> set x \<Longrightarrow> takeWhile (\<lambda>y. y \<noteq> c) (x @ c # z) = x"
  by (induction x) auto

lemma index_of_le: "from \<le> length key \<Longrightarrow> index_of c key from \<le> length key"
  using length_takeWhile_le[of "\<lambda>x. x \<noteq> c" "drop from key"] by (simp add: index_of_def)

section \<open>Properties\<close>

text \<open>C35: the table-driven CRC16 is the bitwise division by the CCITT polynomial, byte after byte.\<close>

theorem crc16_polynomial: "crc16 buf = foldl crc_bits 0 buf"
proof -
  have "crc16_step = crc_bits" by (simp add: fun_eq_iff crc16_step_bits)
  then show ?thesis by (simp add: crc16_def)
qed

text \<open>C36: every key has a slot below 16384, and two keys that carry the same non-empty hash tag between
  their first opening brace and the closing brace after it share their slot.\<close>

theorem keyHashSlot_tags:
  assumes "CHR ''{'' \<notin> set a" "CHR ''}'' \<notin> set tag" "tag \<noteq> []" "CHR ''{'' \<notin> set a'"
  shows "keyHashSlot (a @ ''{'' @ tag @ ''}'' @ b) = keyHashSlot (a' @ ''{'' @ tag @ ''}'' @ b') \<and>
    keyHashSlot key < 16384"
proof -
  have tagged: "keyHashSlot (x @ ''{'' @ tag @ ''}'' @ y) = unat (crc16 tag AND 0x3FFF)"
    if x: "CHR ''{'' \<notin> set x" for x y
  proof -
    let ?k = "x @ ''{'' @ tag @ ''}'' @ y"
    have s: "index_of CHR ''{'' ?k 0 = length x"
      using x by (simp add: index_of_def takeWhile_stop)
    have e: "index_of CHR ''}'' ?k (length x + 1) = length x + 1 + length tag"
      using assms(2) by (simp add: index_of_def takeWhile_stop)
    show ?thesis unfolding keyHashSlot_def Let_def s e using assms(3) by simp
  qed
  have "unat (w AND 0x3FFF :: 16 word) < 16384" for w
  proof -
    have "w AND 0x3FFF = take_bit 14 w" by (simp add: take_bit_eq_mask mask_eq_exp_minus_1)
    then show ?thesis using take_bit_nat_less_exp[of 14 "unat w"] by (simp only: unsigned_take_bit_eq) simp
  qed
  then have "keyHashSlot key < 16384" by (simp add: keyHashSlot_def Let_def)
  with tagged[OF assms(1)] tagged[OF assms(4)] show ?thesis by simp
qed

theorem keyHashSlot_tags_witness:
  "keyHashSlot ''user{42}name'' = keyHashSlot ''{42}mail''"
  using keyHashSlot_tags[of "''user''" "''42''" "[]" "''name''" "''mail''"] by simp

end
