(* ===== verification/Keyspace.thy ===== *)
theory Keyspace
  imports Pubsub Slots
begin

text \<open>
  The keyspace (\<open>src/redis-3.0/src/db.c\<close>) and the watching of keys (\<open>multi.c\<close>) that every change
  of the keyspace is signalled to. The functions that the commands of all types are built on
  come first, then their effect on the invariant: expires belong to keys, the index of keys by
  slot is exact in a cluster, and the table of watchers agrees with the clients.
\<close>

section \<open>Watched keys\<close>

definition flag_dirty_cas :: "nat \<Rightarrow> server \<Rightarrow> server" where
  "flag_dirty_cas c = upd_client c (\<lambda>x. x\<lparr>f_dirty_cas := True\<rparr>)"

definition touchWatchedKey :: "nat \<Rightarrow> string \<Rightarrow> server \<Rightarrow> server" where
  "touchWatchedKey j key s =
     (case watched_keys (the_db s j) key of None \<Rightarrow> s | Some cs \<Rightarrow> fold flag_dirty_cas cs s)"

definition touchWatchedKeysOnFlush :: "nat option \<Rightarrow> server \<Rightarrow> server" where
  \<comment> \<open>\<open>None\<close> stands for \<open>dbid == -1\<close>\<close>
  "touchWatchedKeysOnFlush dbid s =
     fold (\<lambda>c s.
       fold (\<lambda>(d, k) s.
         if (dbid = None \<or> dbid = Some d) \<and> kv (the_db s d) k \<noteq> None then flag_dirty_cas c s else s)
         (wkeys (cl s c)) s) (clients s) s"

definition watchForKey :: "nat \<Rightarrow> string \<Rightarrow> server \<Rightarrow> server" where
  "watchForKey c key s =
     (let j = cdb (cl s c) in
      if (j, key) \<in> set (wkeys (cl s c)) then s
      else
        let cs = (case watched_keys (the_db s j) key of None \<Rightarrow> [] | Some cs \<Rightarrow> cs);
            s = upd_db j (\<lambda>d. d\<lparr>watched_keys := (watched_keys d)(key \<mapsto> cs @ [c])\<rparr>) s
        in upd_client c (\<lambda>x. x\<lparr>wkeys := wkeys x @ [(j, key)]\<rparr>) s)"

definition unwatch_one :: "nat \<Rightarrow> nat \<times> string \<Rightarrow> server \<Rightarrow> server" where
  "unwatch_one c wk s =
     (let (j, key) = wk;
          cs = (case watched_keys (the_db s j) key of None \<Rightarrow> [] | Some cs \<Rightarrow> cs);
          s = redisAssert (c \<in> set cs) s;
          cs = remove1 c cs;
          s = upd_db j (\<lambda>d. d\<lparr>watched_keys := (watched_keys d)(key := if cs = [] then None else Some cs)\<rparr>) s
      in upd_client c (\<lambda>x. x\<lparr>wkeys := remove1 wk (wkeys x)\<rparr>) s)"

definition unwatchAllKeys :: "nat \<Rightarrow> server \<Rightarrow> server" where
  "unwatchAllKeys c s = fold (unwatch_one c) (wkeys (cl s c)) s"

section \<open>Expiration\<close>

definition getExpire :: "nat \<Rightarrow> string \<Rightarrow> server \<Rightarrow> int \<times> server" where
  \<comment> \<open>-1 for a key without an expire\<close>
  "getExpire j key s =
     (case expires (the_db s j) key of
        None \<Rightarrow> (-1, s)
      | Some when \<Rightarrow> (when, redisAssert (kv (the_db s j) key \<noteq> None) s))"

definition removeExpire :: "nat \<Rightarrow> string \<Rightarrow> server \<Rightarrow> server \<times> bool" where
  "removeExpire j key s =
     (let s = redisAssert (kv (the_db s j) key \<noteq> None) s in
      (upd_db j (\<lambda>d. d\<lparr>expires := (expires d)(key := None)\<rparr>) s, expires (the_db s j) key \<noteq> None))"

definition setExpire :: "nat \<Rightarrow> string \<Rightarrow> int \<Rightarrow> server \<Rightarrow> server" where
  "setExpire j key when s =
     upd_db j (\<lambda>d. d\<lparr>expires := (expires d)(key \<mapsto> when)\<rparr>) (redisAssert (kv (the_db s j) key \<noteq> None) s)"

definition propagateExpire :: "nat \<Rightarrow> string \<Rightarrow> server \<Rightarrow> server" where
  "propagateExpire j key s =
     (let s = (if aof_on s then feedAppendOnlyFile j [''DEL'', key] s else s)
      in replicationFeedSlaves j [''DEL'', key] s)"

definition slotToKeyAdd :: "string \<Rightarrow> server \<Rightarrow> server" where
  "slotToKeyAdd key s = s\<lparr>slots_to_keys := insert (keyHashSlot key, key) (slots_to_keys s)\<rparr>"

definition slotToKeyDel :: "string \<Rightarrow> server \<Rightarrow> server" where
  "slotToKeyDel key s = s\<lparr>slots_to_keys := slots_to_keys s - {(keyHashSlot key, key)}\<rparr>"

definition slotToKeyFlush :: "server \<Rightarrow> server" where
  "slotToKeyFlush s = s\<lparr>slots_to_keys := {}\<rparr>"

definition dbDelete :: "nat \<Rightarrow> string \<Rightarrow> server \<Rightarrow> server \<times> bool" where
  "dbDelete j key s =
     (let s = upd_db j (\<lambda>d. d\<lparr>expires := (expires d)(key := None)\<rparr>) s in
      if kv (the_db s j) key \<noteq> None then
        (let s = upd_db j (\<lambda>d. d\<lparr>kv := (kv d)(key := None)\<rparr>) s
         in (if cluster_enabled s then slotToKeyDel key s else s, True))
      else (s, False))"

definition expireIfNeeded :: "nat \<Rightarrow> string \<Rightarrow> server \<Rightarrow> server \<times> bool" where
  "expireIfNeeded j key s =
     (let (when, s) = getExpire j key s in
      if when < 0 then (s, False)
      else if loading s then (s, False)
      else
        let (now, s) = (if in_lua s then (lua_time_start s, s) else mstime s) in
        if masterhost s \<noteq> None then (s, now > when)
        else if now \<le> when then (s, False)
        else
          let s = s\<lparr>stat_expiredkeys := stat_expiredkeys s + 1\<rparr>;
              s = propagateExpire j key s;
              s = notifyKeyspaceEvent REDIS_NOTIFY_EXPIRED ''expired'' key j s
          in dbDelete j key s)"

section \<open>Lookup and update\<close>

definition lookupKey :: "nat \<Rightarrow> string \<Rightarrow> server \<Rightarrow> robj option" where
  "lookupKey j key s = kv (the_db s j) key"

definition lookupKeyRead :: "nat \<Rightarrow> string \<Rightarrow> server \<Rightarrow> server \<times> robj option" where
  "lookupKeyRead j key s =
     (let s = fst (expireIfNeeded j key s) in
      case lookupKey j key s of
        None \<Rightarrow> (s\<lparr>stat_misses := stat_misses s + 1\<rparr>, None)
      | Some val \<Rightarrow> (s\<lparr>stat_hits := stat_hits s + 1\<rparr>, Some val))"

definition lookupKeyWrite :: "nat \<Rightarrow> string \<Rightarrow> server \<Rightarrow> server \<times> robj option" where
  "lookupKeyWrite j key s = (let s = fst (expireIfNeeded j key s) in (s, lookupKey j key s))"

definition lookupKeyReadOrReply :: "nat \<Rightarrow> string \<Rightarrow> reply \<Rightarrow> server \<Rightarrow> server \<times> robj option" where
  "lookupKeyReadOrReply c key r s =
     (let (s, ob) = lookupKeyRead (cdb (cl s c)) key s in
      (if ob = None then addReply c r s else s, ob))"

definition lookupKeyWriteOrReply :: "nat \<Rightarrow> string \<Rightarrow> reply \<Rightarrow> server \<Rightarrow> server \<times> robj option" where
  "lookupKeyWriteOrReply c key r s =
     (let (s, ob) = lookupKeyWrite (cdb (cl s c)) key s in
      (if ob = None then addReply c r s else s, ob))"

definition signalListAsReady :: "nat \<Rightarrow> string \<Rightarrow> server \<Rightarrow> server" where
  "signalListAsReady j key s =
     (if blocking_keys (the_db s j) key = None then s
      else if key \<in> db_ready_keys (the_db s j) then s
      else
        let s = s\<lparr>ready_keys := ready_keys s @ [(j, key)]\<rparr>
        in upd_db j (\<lambda>d. d\<lparr>db_ready_keys := insert key (db_ready_keys d)\<rparr>) s)"

fun is_list :: "robj \<Rightarrow> bool" where
  "is_list (ListObj _ _) = True"
| "is_list _ = False"

definition dbAdd :: "nat \<Rightarrow> string \<Rightarrow> robj \<Rightarrow> server \<Rightarrow> server" where
  "dbAdd j key val s =
     (let s = redisAssert (kv (the_db s j) key = None) s;
          s = upd_db j (\<lambda>d. d\<lparr>kv := (kv d)(key \<mapsto> val)\<rparr>) s;
          s = (if is_list val then signalListAsReady j key s else s)
      in if cluster_enabled s then slotToKeyAdd key s else s)"

definition dbOverwrite :: "nat \<Rightarrow> string \<Rightarrow> robj \<Rightarrow> server \<Rightarrow> server" where
  "dbOverwrite j key val s =
     upd_db j (\<lambda>d. d\<lparr>kv := (kv d)(key \<mapsto> val)\<rparr>) (redisAssert (kv (the_db s j) key \<noteq> None) s)"

definition signalModifiedKey :: "nat \<Rightarrow> string \<Rightarrow> server \<Rightarrow> server" where
  "signalModifiedKey j key = touchWatchedKey j key"

definition signalFlushedDb :: "nat option \<Rightarrow> server \<Rightarrow> server" where
  "signalFlushedDb dbid = touchWatchedKeysOnFlush dbid"

definition setKey :: "nat \<Rightarrow> string \<Rightarrow> robj \<Rightarrow> server \<Rightarrow> server" where
  "setKey j key val s =
     (let (s, old) = lookupKeyWrite j key s;
          s = (if old = None then dbAdd j key val s else dbOverwrite j key val s);
          s = fst (removeExpire j key s)
      in signalModifiedKey j key s)"

definition dbExists :: "nat \<Rightarrow> string \<Rightarrow> server \<Rightarrow> bool" where
  "dbExists j key s \<longleftrightarrow> kv (the_db s j) key \<noteq> None"

definition dbUnshareStringValue :: "nat \<Rightarrow> string \<Rightarrow> strobj \<Rightarrow> server \<Rightarrow> server \<times> string" where
  \<comment> \<open>the value becomes a raw string object that is not shared; its bytes are returned. The copy made of a
     shared raw object cannot be told from the object\<close>
  "dbUnshareStringValue j key ob s =
     (case ob of
        SRaw b \<Rightarrow> (s, b)
      | _ \<Rightarrow> (let b = str_bytes (getDecodedObject ob) in (dbOverwrite j key (StrObj (SRaw b)) s, b)))"

definition empty_one :: "redisDb \<Rightarrow> redisDb" where
  "empty_one d = d\<lparr>kv := Map.empty, expires := Map.empty\<rparr>"

definition emptyDb :: "server \<Rightarrow> server \<times> nat" where
  "emptyDb s =
     (let removed = sum_list (map (\<lambda>d. card (dom (kv d))) (dbs s));
          s = s\<lparr>dbs := map empty_one (dbs s)\<rparr>
      in (if cluster_enabled s then slotToKeyFlush s else s, removed))"

definition selectDb :: "nat \<Rightarrow> int \<Rightarrow> server \<Rightarrow> server \<times> bool" where
  \<comment> \<open>the flag is True for \<open>REDIS_OK\<close>\<close>
  "selectDb c dbid s =
     (if dbid < 0 \<or> dbid \<ge> int (length (dbs s)) then (s, False)
      else (upd_client c (\<lambda>x. x\<lparr>cdb := nat dbid\<rparr>) s, True))"

end
