(* ===== verification/DbCommands.thy ===== *)
theory DbCommands
  imports Keyspace
begin

text \<open>
  The commands on keys of any type (\<open>src/redis-3.0/src/db.c\<close>): each handler as a function on the
  state of the server, with the replies it sends, the keys it signals, the notifications it
  publishes and the number of changes it counts in \<open>dirty\<close>.
\<close>

section \<open>Arguments\<close>

definition getLongLongFromSdsOrReply :: "nat \<Rightarrow> string \<Rightarrow> string option \<Rightarrow> server \<Rightarrow> server \<times> int option" where
  \<comment> \<open>\<open>getLongLongFromObjectOrReply\<close> on an argument, which is an sds\<close>
  "getLongLongFromSdsOrReply c arg msg s =
     (case getLongLongFromSds arg of
        None \<Rightarrow> (addReply c (case msg of None \<Rightarrow> notintegererr | Some m \<Rightarrow> RError (''ERR '' @ m)) s, None)
      | Some v \<Rightarrow> (s, Some v))"

definition getLongFromSdsOrReply :: "nat \<Rightarrow> string \<Rightarrow> string option \<Rightarrow> server \<Rightarrow> server \<times> int option" where
  "getLongFromSdsOrReply c arg msg s =
     (case getLongLongFromSdsOrReply c arg msg s of
        (s, None) \<Rightarrow> (s, None)
      | (s, Some value) \<Rightarrow>
          if value < LLONG_MIN \<or> value > LLONG_MAX then
            (addReply c (case msg of None \<Rightarrow> RError ''ERR value is out of range'' | Some m \<Rightarrow> RError (''ERR '' @ m)) s, None)
          else (s, Some value))"

definition checkType :: "nat \<Rightarrow> bool \<Rightarrow> server \<Rightarrow> server \<times> bool" where
  \<comment> \<open>the second argument says that the object has the type; the flag is True for an error\<close>
  "checkType c ok s = (if ok then (s, False) else (addReply c wrongtypeerr s, True))"

abbreviation rewriteClientCommandVector :: "nat \<Rightarrow> string list \<Rightarrow> server \<Rightarrow> server" where
  \<comment> \<open>the command is not looked up again: only its statistics are taken from it after this\<close>
  "rewriteClientCommandVector c av \<equiv> upd_client c (\<lambda>x. x\<lparr>cargv := av\<rparr>)"

section \<open>Keys\<close>

definition flushdbCommand :: "nat \<Rightarrow> server \<Rightarrow> server" where
  "flushdbCommand c s =
     (let j = cdb (cl s c);
          s = s\<lparr>dirty := dirty s + int (card (dom (kv (the_db s j))))\<rparr>;
          s = signalFlushedDb (Some j) s;
          s = upd_db j empty_one s;
          s = (if cluster_enabled s then slotToKeyFlush s else s)
      in addReply c shared_ok s)"

definition flushallCommand :: "nat \<Rightarrow> server \<Rightarrow> server" where
  \<comment> \<open>without the writing of the empty dataset to disk, after which \<open>dirty\<close> is restored, and
     the killing of a saving child\<close>
  "flushallCommand c s =
     (let s = signalFlushedDb None s;
          (s, removed) = emptyDb s;
          s = s\<lparr>dirty := dirty s + int removed\<rparr>;
          s = addReply c shared_ok s
      in s\<lparr>dirty := dirty s + 1\<rparr>)"

definition del_one :: "nat \<Rightarrow> string \<Rightarrow> server \<times> nat \<Rightarrow> server \<times> nat" where
  "del_one j key sn =
     (let (s, deleted) = sn;
          s = fst (expireIfNeeded j key s);
          (s, found) = dbDelete j key s
      in if found then
           (let s = signalModifiedKey j key s;
                s = notifyKeyspaceEvent REDIS_NOTIFY_GENERIC ''del'' key j s
            in (s\<lparr>dirty := dirty s + 1\<rparr>, deleted + 1))
         else (s, deleted))"

definition delCommand :: "nat \<Rightarrow> server \<Rightarrow> server" where
  "delCommand c s =
     (let (s, deleted) = fold (del_one (cdb (cl s c))) (tl (argv s c)) (s, 0)
      in addReply c (RInt (int deleted)) s)"

definition exists_one :: "nat \<Rightarrow> string \<Rightarrow> server \<times> nat \<Rightarrow> server \<times> nat" where
  "exists_one j key sn =
     (let (s, count) = sn; s = fst (expireIfNeeded j key s)
      in (s, if dbExists j key s then count + 1 else count))"

definition existsCommand :: "nat \<Rightarrow> server \<Rightarrow> server" where
  "existsCommand c s =
     (let (s, count) = fold (exists_one (cdb (cl s c))) (tl (argv s c)) (s, 0)
      in addReply c (RInt (int count)) s)"

definition selectCommand :: "nat \<Rightarrow> server \<Rightarrow> server" where
  "selectCommand c s =
     (case getLongFromSdsOrReply c (argv s c ! 1) (Some ''invalid DB index'') s of
        (s, None) \<Rightarrow> s
      | (s, Some dbid) \<Rightarrow>
          if cluster_enabled s \<and> dbid \<noteq> 0 then
            addReply c (RError ''ERR SELECT is not allowed in cluster mode'') s
          else
            case selectDb c (s32 dbid) s of
              (s, False) \<Rightarrow> addReply c (RError ''ERR invalid DB index'') s
            | (s, True) \<Rightarrow> addReply c shared_ok s)"

fun dbRandomKey :: "nat \<Rightarrow> string option list \<Rightarrow> server \<Rightarrow> (server \<times> string option) option" where
  \<comment> \<open>the second argument: what \<open>dictGetRandomKey\<close> answers at each turn of the loop, \<open>None\<close> on an empty
     dictionary; the result is \<open>None\<close> when the turns are used up\<close>
  "dbRandomKey j [] s = None"
| "dbRandomKey j (None # picks) s = Some (s, None)"
| "dbRandomKey j (Some key # picks) s =
     (if expires (the_db s j) key \<noteq> None then
        (case expireIfNeeded j key s of
           (s, True) \<Rightarrow> dbRandomKey j picks s
         | (s, False) \<Rightarrow> Some (s, Some key))
      else Some (s, Some key))"

definition randomkeyCommand :: "nat \<Rightarrow> string option list \<Rightarrow> server \<Rightarrow> server option" where
  "randomkeyCommand c picks s =
     (case dbRandomKey (cdb (cl s c)) picks s of
        None \<Rightarrow> None
      | Some (s, None) \<Rightarrow> Some (addReply c RNullBulk s)
      | Some (s, Some key) \<Rightarrow> Some (addReply c (RBulk key) s))"

definition keys_one :: "nat \<Rightarrow> (string \<Rightarrow> bool) \<Rightarrow> string \<Rightarrow> server \<times> string list \<Rightarrow> server \<times> string list" where
  "keys_one j matching key sn =
     (let (s, found) = sn in
      if matching key then
        (case expireIfNeeded j key s of
           (s, False) \<Rightarrow> (s, found @ [key])
         | (s, True) \<Rightarrow> (s, found))
      else (s, found))"

definition keysCommand :: "nat \<Rightarrow> string list \<Rightarrow> server \<Rightarrow> server" where
  \<comment> \<open>\<open>visit\<close>: the keys in the order of the safe iterator\<close>
  "keysCommand c visit s =
     (let pattern = argv s c ! 1;
          allkeys = (pattern \<noteq> [] \<and> hd pattern = CHR ''*'' \<and> rd pattern 1 = Some NUL);
          (s, found) = fold (keys_one (cdb (cl s c)) (\<lambda>key. allkeys \<or> pattern_matches pattern key)) visit (s, [])
      in addReplies c (RMulti (int (length found)) # map RBulk found) s)"

definition dbsizeCommand :: "nat \<Rightarrow> server \<Rightarrow> server" where
  "dbsizeCommand c s = addReply c (RInt (int (card (dom (kv (the_db s (cdb (cl s c)))))))) s"

fun type_name :: "robj option \<Rightarrow> string" where
  "type_name None = ''none''"
| "type_name (Some (StrObj _)) = ''string''"
| "type_name (Some (ListObj _ _)) = ''list''"
| "type_name (Some (SetObj _)) = ''set''"
| "type_name (Some (ZsetObj _)) = ''zset''"
| "type_name (Some (HashObj _)) = ''hash''"

definition typeCommand :: "nat \<Rightarrow> server \<Rightarrow> server" where
  "typeCommand c s =
     (let (s, ob) = lookupKeyRead (cdb (cl s c)) (argv s c ! 1) s
      in addReply c (RStatus (type_name ob)) s)"

section \<open>Renaming and moving\<close>

definition renameGenericCommand :: "nat \<Rightarrow> bool \<Rightarrow> server \<Rightarrow> server" where
  "renameGenericCommand c nx s =
     (let j = cdb (cl s c); src = argv s c ! 1; dst = argv s c ! 2 in
      if src = dst then addReply c sameobjecterr s
      else
        case lookupKeyWriteOrReply c src nokeyerr s of
          (s, None) \<Rightarrow> s
        | (s, Some ob) \<Rightarrow>
            let (expire, s) = getExpire j src s;
                (s, old) = lookupKeyWrite j dst s
            in if old \<noteq> None \<and> nx then addReply c shared_czero s
               else
                 let s = (if old \<noteq> None then fst (dbDelete j dst s) else s);
                     s = dbAdd j dst ob s;
                     s = (if expire \<noteq> -1 then setExpire j dst expire s else s);
                     s = fst (dbDelete j src s);
                     s = signalModifiedKey j src s;
                     s = signalModifiedKey j dst s;
                     s = notifyKeyspaceEvent REDIS_NOTIFY_GENERIC ''rename_from'' src j s;
                     s = notifyKeyspaceEvent REDIS_NOTIFY_GENERIC ''rename_to'' dst j s;
                     s = s\<lparr>dirty := dirty s + 1\<rparr>
                 in addReply c (if nx then shared_cone else shared_ok) s)"

definition renameCommand :: "nat \<Rightarrow> server \<Rightarrow> server" where
  "renameCommand c s = renameGenericCommand c False s"

definition renamenxCommand :: "nat \<Rightarrow> server \<Rightarrow> server" where
  "renamenxCommand c s = renameGenericCommand c True s"

definition moveCommand :: "nat \<Rightarrow> server \<Rightarrow> server" where
  "moveCommand c s =
     (if cluster_enabled s then addReply c (RError ''ERR MOVE is not allowed in cluster mode'') s
      else
        let src = cdb (cl s c); key = argv s c ! 1 in
        case getLongLongFromSds (argv s c ! 2) of
          None \<Rightarrow> addReply c outofrangeerr s
        | Some dbid \<Rightarrow>
            if dbid < - (2 ^ 31) \<or> dbid > 2 ^ 31 - 1 \<or> dbid < 0 \<or> dbid \<ge> int (length (dbs s))
            then addReply c outofrangeerr s
            else
              let dst = nat dbid in
              if src = dst then addReply c sameobjecterr s
              else
                case lookupKeyWrite src key s of
                  (s, None) \<Rightarrow> addReply c shared_czero s
                | (s, Some ob) \<Rightarrow>
                    let (expire, s) = getExpire src key s in
                    case lookupKeyWrite dst key s of
                      (s, Some _) \<Rightarrow> addReply c shared_czero s
                    | (s, None) \<Rightarrow>
                        let s = dbAdd dst key ob s;
                            s = (if expire \<noteq> -1 then setExpire dst key expire s else s);
                            s = fst (dbDelete src key s);
                            s = s\<lparr>dirty := dirty s + 1\<rparr>
                        in addReply c shared_cone s)"

section \<open>Expires\<close>

datatype time_unit = UNIT_SECONDS | UNIT_MILLISECONDS

definition expireGenericCommand :: "nat \<Rightarrow> int \<Rightarrow> time_unit \<Rightarrow> server \<Rightarrow> server" where
  \<comment> \<open>the arithmetic on \<open>PORT_LONGLONG\<close> wraps around\<close>
  "expireGenericCommand c basetime unit s =
     (let j = cdb (cl s c); key = argv s c ! 1 in
      case getLongLongFromSdsOrReply c (argv s c ! 2) None s of
        (s, None) \<Rightarrow> s
      | (s, Some when) \<Rightarrow>
          let when = (if unit = UNIT_SECONDS then s64 (when * 1000) else when);
              when = s64 (when + basetime)
          in case lookupKeyRead j key s of
               (s, None) \<Rightarrow> addReply c shared_czero s
             | (s, Some _) \<Rightarrow>
                 let (now, s) = mstime s in
                 if when \<le> now \<and> \<not> loading s \<and> masterhost s = None then
                   (let (s, found) = dbDelete j key s;
                        s = redisAssert found s;
                        s = s\<lparr>dirty := dirty s + 1\<rparr>;
                        s = rewriteClientCommandVector c [''DEL'', key] s;
                        s = signalModifiedKey j key s;
                        s = notifyKeyspaceEvent REDIS_NOTIFY_GENERIC ''del'' key j s
                    in addReply c shared_cone s)
                 else
                   (let s = setExpire j key when s;
                        s = addReply c shared_cone s;
                        s = signalModifiedKey j key s;
                        s = notifyKeyspaceEvent REDIS_NOTIFY_GENERIC ''expire'' key j s
                    in s\<lparr>dirty := dirty s + 1\<rparr>))"

definition expireCommand :: "nat \<Rightarrow> server \<Rightarrow> server" where
  "expireCommand c s = (let (now, s) = mstime s in expireGenericCommand c now UNIT_SECONDS s)"

definition expireatCommand :: "nat \<Rightarrow> server \<Rightarrow> server" where
  "expireatCommand c s = expireGenericCommand c 0 UNIT_SECONDS s"

definition pexpireCommand :: "nat \<Rightarrow> server \<Rightarrow> server" where
  "pexpireCommand c s = (let (now, s) = mstime s in expireGenericCommand c now UNIT_MILLISECONDS s)"

definition pexpireatCommand :: "nat \<Rightarrow> server \<Rightarrow> server" where
  "pexpireatCommand c s = expireGenericCommand c 0 UNIT_MILLISECONDS s"

definition c_div :: "int \<Rightarrow> int \<Rightarrow> int" where
  \<comment> \<open>division of C, which truncates towards zero\<close>
  "c_div a b = sgn a * sgn b * (\<bar>a\<bar> div \<bar>b\<bar>)"

definition ttlGenericCommand :: "nat \<Rightarrow> bool \<Rightarrow> server \<Rightarrow> server" where
  "ttlGenericCommand c output_ms s =
     (let j = cdb (cl s c); key = argv s c ! 1 in
      case lookupKeyRead j key s of
        (s, None) \<Rightarrow> addReply c (RInt (-2)) s
      | (s, Some _) \<Rightarrow>
          let (expire, s) = getExpire j key s;
              (ttl, s) =
                (if expire \<noteq> -1 then
                   (let (now, s) = mstime s; ttl = s64 (expire - now) in (if ttl < 0 then 0 else ttl, s))
                 else (-1, s))
          in if ttl = -1 then addReply c (RInt (-1)) s
             else addReply c (RInt (if output_ms then ttl else c_div (s64 (ttl + 500)) 1000)) s)"

definition ttlCommand :: "nat \<Rightarrow> server \<Rightarrow> server" where
  "ttlCommand c s = ttlGenericCommand c False s"

definition pttlCommand :: "nat \<Rightarrow> server \<Rightarrow> server" where
  "pttlCommand c s = ttlGenericCommand c True s"

definition persistCommand :: "nat \<Rightarrow> server \<Rightarrow> server" where
  "persistCommand c s =
     (let j = cdb (cl s c); key = argv s c ! 1 in
      if kv (the_db s j) key = None then addReply c shared_czero s
      else
        case removeExpire j key s of
          (s, True) \<Rightarrow> (let s = addReply c shared_cone s in s\<lparr>dirty := dirty s + 1\<rparr>)
        | (s, False) \<Rightarrow> addReply c shared_czero s)"

end
