(* ===== verification/TString.thy ===== *)
theory TString
  imports DbCommands
begin

text \<open>
  The string commands (\<open>src/redis-3.0/src/t_string.c\<close>) except the one on floating point numbers.
  The arithmetic on \<open>PORT_LONGLONG\<close> wraps around where the code does not check it.
\<close>

section \<open>The code\<close>

definition checkStringLength :: "nat \<Rightarrow> int \<Rightarrow> server \<Rightarrow> server \<times> bool" where
  \<comment> \<open>the flag is True for \<open>REDIS_OK\<close>\<close>
  "checkStringLength c sz s =
     (if sz > 512 * 1024 * 1024
      then (addReply c (RError ''ERR string exceeds maximum allowed size (512MB)'') s, False)
      else (s, True))"

record set_flags =
  set_nx :: bool
  set_xx :: bool

definition setGenericCommand :: "nat \<Rightarrow> set_flags \<Rightarrow> string \<Rightarrow> strobj \<Rightarrow> string option \<Rightarrow> time_unit \<Rightarrow>
    reply option \<Rightarrow> reply option \<Rightarrow> server \<Rightarrow> server" where
  "setGenericCommand c flags key val expire unit ok_reply abort_reply s =
     (let j = cdb (cl s c);
          parsed =
            (case expire of
               None \<Rightarrow> (s, Some 0)
             | Some e \<Rightarrow>
                 (case getLongLongFromSdsOrReply c e None s of
                    (s, None) \<Rightarrow> (s, None)
                  | (s, Some milliseconds) \<Rightarrow>
                      if milliseconds \<le> 0 then
                        (addReply c (RError (err_text (''invalid expire time in '' @ cmd_name (ccmd (cl s c))))) s, None)
                      else (s, Some (if unit = UNIT_SECONDS then s64 (milliseconds * 1000) else milliseconds))))
      in case parsed of
           (s, None) \<Rightarrow> s
         | (s, Some milliseconds) \<Rightarrow>
             let (s, abort) =
               (if set_nx flags then (let (s, ob) = lookupKeyWrite j key s in (s, ob \<noteq> None)) else (s, False));
               (s, abort) =
               (if \<not> abort \<and> set_xx flags then (let (s, ob) = lookupKeyWrite j key s in (s, ob = None)) else (s, abort))
             in if abort then addReply c (case abort_reply of None \<Rightarrow> RNullBulk | Some r \<Rightarrow> r) s
                else
                  let s = setKey j key (StrObj val) s;
                      s = s\<lparr>dirty := dirty s + 1\<rparr>;
                      s = (if expire \<noteq> None then
                             (let (now, s) = mstime s in setExpire j key (s64 (now + milliseconds)) s) else s);
                      s = notifyKeyspaceEvent REDIS_NOTIFY_STRING ''set'' key j s;
                      s = (if expire \<noteq> None then notifyKeyspaceEvent REDIS_NOTIFY_GENERIC ''expire'' key j s else s)
                  in addReply c (case ok_reply of None \<Rightarrow> shared_ok | Some r \<Rightarrow> r) s)"

definition two_letters :: "string \<Rightarrow> char \<Rightarrow> char \<Rightarrow> bool" where
  \<comment> \<open>\<open>(a[0] == 'x' || a[0] == 'X') && (a[1] == 'y' || a[1] == 'Y') && a[2] == '\0'\<close>\<close>
  "two_letters a x y \<longleftrightarrow>
     (case (rd a 0, rd a 1, rd a 2) of
        (Some p, Some q, Some r) \<Rightarrow>
          c_tolower (of_char p) = of_char x \<and> c_tolower (of_char q) = of_char y \<and> r = NUL
      | _ \<Rightarrow> False)"

record set_options =
  opt_flags :: set_flags
  opt_expire :: "string option"
  opt_unit :: time_unit

fun set_options_loop :: "string list \<Rightarrow> set_options \<Rightarrow> set_options option" where
  \<comment> \<open>the loop over the arguments from the fourth on; \<open>None\<close> is a syntax error\<close>
  "set_options_loop [] opt = Some opt"
| "set_options_loop [a] opt =
     (if two_letters a CHR ''n'' CHR ''x'' then Some (opt\<lparr>opt_flags := (opt_flags opt)\<lparr>set_nx := True\<rparr>\<rparr>)
      else if two_letters a CHR ''x'' CHR ''x'' then Some (opt\<lparr>opt_flags := (opt_flags opt)\<lparr>set_xx := True\<rparr>\<rparr>)
      else None)"
| "set_options_loop (a # nxt # rest) opt =
     (if two_letters a CHR ''n'' CHR ''x'' then
        set_options_loop (nxt # rest) (opt\<lparr>opt_flags := (opt_flags opt)\<lparr>set_nx := True\<rparr>\<rparr>)
      else if two_letters a CHR ''x'' CHR ''x'' then
        set_options_loop (nxt # rest) (opt\<lparr>opt_flags := (opt_flags opt)\<lparr>set_xx := True\<rparr>\<rparr>)
      else if two_letters a CHR ''e'' CHR ''x'' then
        set_options_loop rest (opt\<lparr>opt_unit := UNIT_SECONDS, opt_expire := Some nxt\<rparr>)
      else if two_letters a CHR ''p'' CHR ''x'' then
        set_options_loop rest (opt\<lparr>opt_unit := UNIT_MILLISECONDS, opt_expire := Some nxt\<rparr>)
      else None)"

definition no_flags :: set_flags where
  "no_flags = \<lparr>set_nx = False, set_xx = False\<rparr>"

definition setCommand :: "nat \<Rightarrow> server \<Rightarrow> server" where
  "setCommand c s =
     (let av = argv s c in
      case set_options_loop (drop 3 av) \<lparr>opt_flags = no_flags, opt_expire = None, opt_unit = UNIT_SECONDS\<rparr> of
        None \<Rightarrow> addReply c syntaxerr s
      | Some opt \<Rightarrow>
          setGenericCommand c (opt_flags opt) (av ! 1) (arg_obj (av ! 2)) (opt_expire opt) (opt_unit opt) None None s)"

definition setnxCommand :: "nat \<Rightarrow> server \<Rightarrow> server" where
  "setnxCommand c s =
     setGenericCommand c (no_flags\<lparr>set_nx := True\<rparr>) (argv s c ! 1) (arg_obj (argv s c ! 2)) None UNIT_SECONDS
       (Some shared_cone) (Some shared_czero) s"

definition setexCommand :: "nat \<Rightarrow> server \<Rightarrow> server" where
  "setexCommand c s =
     setGenericCommand c no_flags (argv s c ! 1) (arg_obj (argv s c ! 3)) (Some (argv s c ! 2)) UNIT_SECONDS None None s"

definition psetexCommand :: "nat \<Rightarrow> server \<Rightarrow> server" where
  "psetexCommand c s =
     setGenericCommand c no_flags (argv s c ! 1) (arg_obj (argv s c ! 3)) (Some (argv s c ! 2)) UNIT_MILLISECONDS None None s"

definition getGenericCommand :: "nat \<Rightarrow> server \<Rightarrow> server \<times> bool" where
  \<comment> \<open>the flag is True for \<open>REDIS_OK\<close>\<close>
  "getGenericCommand c s =
     (case lookupKeyReadOrReply c (argv s c ! 1) RNullBulk s of
        (s, None) \<Rightarrow> (s, True)
      | (s, Some (StrObj ob)) \<Rightarrow> (addReply c (RBulk (str_bytes ob)) s, True)
      | (s, Some _) \<Rightarrow> (addReply c wrongtypeerr s, False))"

definition getCommand :: "nat \<Rightarrow> server \<Rightarrow> server" where
  "getCommand c s = fst (getGenericCommand c s)"

definition getsetCommand :: "nat \<Rightarrow> server \<Rightarrow> server" where
  "getsetCommand c s =
     (case getGenericCommand c s of
        (s, False) \<Rightarrow> s
      | (s, True) \<Rightarrow>
          let j = cdb (cl s c); key = argv s c ! 1;
              s = setKey j key (StrObj (arg_obj (argv s c ! 2))) s;
              s = notifyKeyspaceEvent REDIS_NOTIFY_STRING ''set'' key j s
          in s\<lparr>dirty := dirty s + 1\<rparr>)"

definition overlay :: "string \<Rightarrow> nat \<Rightarrow> string \<Rightarrow> string" where
  \<comment> \<open>\<open>sdsgrowzero\<close> followed by \<open>memcpy\<close> at the offset\<close>
  "overlay old offset value =
     (let grown = old @ replicate (offset + length value - length old) NUL
      in take offset grown @ value @ drop (offset + length value) grown)"

definition setrangeCommand :: "nat \<Rightarrow> server \<Rightarrow> server" where
  "setrangeCommand c s =
     (let j = cdb (cl s c); key = argv s c ! 1; value = argv s c ! 3 in
      case getLongFromSdsOrReply c (argv s c ! 2) None s of
        (s, None) \<Rightarrow> s
      | (s, Some offset) \<Rightarrow>
          if offset < 0 then addReply c (RError ''ERR offset is out of range'') s
          else
            case lookupKeyWrite j key s of
              (s, None) \<Rightarrow>
                if value = [] then addReply c shared_czero s
                else
                  (case checkStringLength c (s64 (offset + int (length value))) s of
                     (s, False) \<Rightarrow> s
                   | (s, True) \<Rightarrow>
                       let s = dbAdd j key (StrObj (SRaw [])) s;
                           b = overlay [] (nat offset) value;
                           s = upd_db j (\<lambda>d. d\<lparr>kv := (kv d)(key \<mapsto> StrObj (SRaw b))\<rparr>) s;
                           s = signalModifiedKey j key s;
                           s = notifyKeyspaceEvent REDIS_NOTIFY_STRING ''setrange'' key j s;
                           s = s\<lparr>dirty := dirty s + 1\<rparr>
                       in addReply c (RInt (int (length b))) s)
            | (s, Some (StrObj ob)) \<Rightarrow>
                if value = [] then addReply c (RInt (int (stringObjectLen ob))) s
                else
                  (case checkStringLength c (s64 (offset + int (length value))) s of
                     (s, False) \<Rightarrow> s
                   | (s, True) \<Rightarrow>
                       let (s, old) = dbUnshareStringValue j key ob s;
                           b = overlay old (nat offset) value;
                           s = upd_db j (\<lambda>d. d\<lparr>kv := (kv d)(key \<mapsto> StrObj (SRaw b))\<rparr>) s;
                           s = signalModifiedKey j key s;
                           s = notifyKeyspaceEvent REDIS_NOTIFY_STRING ''setrange'' key j s;
                           s = s\<lparr>dirty := dirty s + 1\<rparr>
                       in addReply c (RInt (int (length b))) s)
            | (s, Some _) \<Rightarrow> addReply c wrongtypeerr s)"

definition range_bounds :: "int \<Rightarrow> int \<Rightarrow> nat \<Rightarrow> (nat \<times> nat) option" where
  \<comment> \<open>the conversion of the indexes: the first byte and the number of bytes, \<open>None\<close> for nothing\<close>
  "range_bounds start stop len =
     (let start = (if start < 0 then s64 (int len + start) else start);
          stop = (if stop < 0 then s64 (int len + stop) else stop);
          start = (if start < 0 then 0 else start);
          stop = (if stop < 0 then 0 else stop);
          stop = (if u64 stop \<ge> int len then s64 (int len - 1) else stop)
      in if start > stop \<or> len = 0 then None else Some (nat start, nat (stop - start + 1)))"

definition getrangeCommand :: "nat \<Rightarrow> server \<Rightarrow> server" where
  "getrangeCommand c s =
     (case getLongLongFromSdsOrReply c (argv s c ! 2) None s of
        (s, None) \<Rightarrow> s
      | (s, Some start) \<Rightarrow>
          case getLongLongFromSdsOrReply c (argv s c ! 3) None s of
            (s, None) \<Rightarrow> s
          | (s, Some stop) \<Rightarrow>
              case lookupKeyReadOrReply c (argv s c ! 1) (RBulk []) s of
                (s, None) \<Rightarrow> s
              | (s, Some (StrObj ob)) \<Rightarrow>
                  let str = str_bytes ob in
                  (case range_bounds start stop (length str) of
                     None \<Rightarrow> addReply c (RBulk []) s
                   | Some (from, n) \<Rightarrow> addReply c (RBulk (take n (drop from str))) s)
              | (s, Some _) \<Rightarrow> addReply c wrongtypeerr s)"

definition mget_one :: "nat \<Rightarrow> string \<Rightarrow> server \<Rightarrow> server" where
  "mget_one c key s =
     (case lookupKeyRead (cdb (cl s c)) key s of
        (s, Some (StrObj ob)) \<Rightarrow> addReply c (RBulk (str_bytes ob)) s
      | (s, _) \<Rightarrow> addReply c RNullBulk s)"

definition mgetCommand :: "nat \<Rightarrow> server \<Rightarrow> server" where
  "mgetCommand c s =
     fold (mget_one c) (tl (argv s c)) (addReply c (RMulti (int (length (argv s c)) - 1)) s)"

fun pairs :: "string list \<Rightarrow> (string \<times> string) list" where
  "pairs (k # v # rest) = (k, v) # pairs rest"
| "pairs _ = []"

definition busy_one :: "nat \<Rightarrow> string \<Rightarrow> server \<times> nat \<Rightarrow> server \<times> nat" where
  "busy_one j key sn =
     (let (s, busykeys) = sn; (s, ob) = lookupKeyWrite j key s
      in (s, if ob \<noteq> None then busykeys + 1 else busykeys))"

definition mset_one :: "nat \<Rightarrow> string \<times> string \<Rightarrow> server \<Rightarrow> server" where
  "mset_one j p s =
     notifyKeyspaceEvent REDIS_NOTIFY_STRING ''set'' (fst p) j
       (setKey j (fst p) (StrObj (arg_obj (snd p))) s)"

definition msetGenericCommand :: "nat \<Rightarrow> bool \<Rightarrow> server \<Rightarrow> server" where
  "msetGenericCommand c nx s =
     (let j = cdb (cl s c); av = argv s c in
      if length av mod 2 = 0 then addReply c (RError ''ERR wrong number of arguments for MSET'') s
      else
        let ps = pairs (tl av);
            (s, busykeys) = (if nx then fold (busy_one j) (map fst ps) (s, 0) else (s, 0))
        in if busykeys \<noteq> 0 then addReply c shared_czero s
           else
             let s = fold (mset_one j) ps s;
                 s = s\<lparr>dirty := dirty s + int ((length av - 1) div 2)\<rparr>
             in addReply c (if nx then shared_cone else shared_ok) s)"

definition msetCommand :: "nat \<Rightarrow> server \<Rightarrow> server" where
  "msetCommand c s = msetGenericCommand c False s"

definition msetnxCommand :: "nat \<Rightarrow> server \<Rightarrow> server" where
  "msetnxCommand c s = msetGenericCommand c True s"

definition incrDecrCommand :: "nat \<Rightarrow> int \<Rightarrow> server \<Rightarrow> server" where
  \<comment> \<open>the two ways of storing the new value, in the object or as a new object, give the same integer
     object\<close>
  "incrDecrCommand c incr s =
     (let j = cdb (cl s c); key = argv s c ! 1;
          (s, ob) = lookupKeyWrite j key s
      in case (case ob of None \<Rightarrow> Some None | Some (StrObj x) \<Rightarrow> Some (Some x) | _ \<Rightarrow> None) of
           None \<Rightarrow> addReply c wrongtypeerr s
         | Some str \<Rightarrow>
             case getLongLongFromObject str of
               None \<Rightarrow> addReply c notintegererr s
             | Some oldvalue \<Rightarrow>
                 if (incr < 0 \<and> oldvalue < 0 \<and> incr < LLONG_MIN - oldvalue) \<or>
                    (incr > 0 \<and> oldvalue > 0 \<and> incr > LLONG_MAX - oldvalue)
                 then addReply c (RError ''ERR increment or decrement would overflow'') s
                 else
                   let value = s64 (oldvalue + incr);
                       new = StrObj (createStringObjectFromLongLong value);
                       s = (if ob \<noteq> None then dbOverwrite j key new s else dbAdd j key new s);
                       s = signalModifiedKey j key s;
                       s = notifyKeyspaceEvent REDIS_NOTIFY_STRING ''incrby'' key j s;
                       s = s\<lparr>dirty := dirty s + 1\<rparr>
                   in addReply c (RInt value) s)"

definition incrCommand :: "nat \<Rightarrow> server \<Rightarrow> server" where
  "incrCommand c s = incrDecrCommand c 1 s"

definition decrCommand :: "nat \<Rightarrow> server \<Rightarrow> server" where
  "decrCommand c s = incrDecrCommand c (-1) s"

definition incrbyCommand :: "nat \<Rightarrow> server \<Rightarrow> server" where
  "incrbyCommand c s =
     (case getLongLongFromSdsOrReply c (argv s c ! 2) None s of
        (s, None) \<Rightarrow> s
      | (s, Some incr) \<Rightarrow> incrDecrCommand c incr s)"

definition decrbyCommand :: "nat \<Rightarrow> server \<Rightarrow> server" where
  "decrbyCommand c s =
     (case getLongLongFromSdsOrReply c (argv s c ! 2) None s of
        (s, None) \<Rightarrow> s
      | (s, Some incr) \<Rightarrow> incrDecrCommand c (s64 (- incr)) s)"

definition appendCommand :: "nat \<Rightarrow> server \<Rightarrow> server" where
  "appendCommand c s =
     (let j = cdb (cl s c); key = argv s c ! 1; val = argv s c ! 2;
          (s, ob) = lookupKeyWrite j key s;
          done = (\<lambda>totlen s.
            let s = signalModifiedKey j key s;
                s = notifyKeyspaceEvent REDIS_NOTIFY_STRING ''append'' key j s;
                s = s\<lparr>dirty := dirty s + 1\<rparr>
            in addReply c (RInt (int totlen)) s)
      in case ob of
           None \<Rightarrow> done (stringObjectLen (arg_obj val)) (dbAdd j key (StrObj (arg_obj val)) s)
         | Some (StrObj x) \<Rightarrow>
             (case checkStringLength c (int (stringObjectLen x + length val)) s of
                (s, False) \<Rightarrow> s
              | (s, True) \<Rightarrow>
                  let (s, old) = dbUnshareStringValue j key x s
                  in done (length (old @ val)) (upd_db j (\<lambda>d. d\<lparr>kv := (kv d)(key \<mapsto> StrObj (SRaw (old @ val)))\<rparr>) s))
         | Some _ \<Rightarrow> addReply c wrongtypeerr s)"

definition strlenCommand :: "nat \<Rightarrow> server \<Rightarrow> server" where
  "strlenCommand c s =
     (case lookupKeyReadOrReply c (argv s c ! 1) shared_czero s of
        (s, None) \<Rightarrow> s
      | (s, Some (StrObj ob)) \<Rightarrow> addReply c (RInt (int (stringObjectLen ob))) s
      | (s, Some _) \<Rightarrow> addReply c wrongtypeerr s)"

end
