(* ===== verification/KeyspaceInv.thy ===== *)
theory KeyspaceInv
  imports TString
begin

text \<open>
  What the functions of the keyspace change and what they keep. \<open>ctx\<close> is the part of the state
  that no function of the keyspace changes; \<open>val_of\<close> and \<open>exp_of\<close> are the keys and the expires of
  a database; the rules below give both after each function. \<open>db_ok\<close> is the invariant of the
  dataset: no assertion has failed, only existing keys have an expire, stored strings are well
  formed, and in a cluster the index of keys by slot is exact.
\<close>

section \<open>The part of the state that the keyspace functions keep\<close>

definition ctx :: "server \<Rightarrow> server" where
  "ctx s = s\<lparr>dbs := map (\<lambda>d. d\<lparr>kv := Map.empty, expires := Map.empty, db_ready_keys := {}\<rparr>) (dbs s),
     cl := (\<lambda>c. (cl s c)\<lparr>creply := [], f_dirty_cas := False\<rparr>), dirty := 0, stat_expiredkeys := 0, stat_hits := 0,
     stat_misses := 0, clk_reads := 0, aof_log := [], repl_log := [], slots_to_keys := {}, ready_keys := [],
     crashed := False\<rparr>"

lemma ctxD:
  assumes "ctx s = ctx t"
  shows "length (dbs s) = length (dbs t)" "clients s = clients t" "loading s = loading t"
    "cluster_enabled s = cluster_enabled t" "masterhost s = masterhost t" "in_lua s = in_lua t"
    "lua_time_start s = lua_time_start t" "clk s = clk t" "aof_on s = aof_on t"
    "notify_keyspace_events s = notify_keyspace_events t" "pubsub_channels s = pubsub_channels t"
    "pubsub_patterns s = pubsub_patterns t" "monitors s = monitors t"
    "set_max_intset_entries s = set_max_intset_entries t" "hash_max_ziplist_entries s = hash_max_ziplist_entries t"
    "hash_max_ziplist_value s = hash_max_ziplist_value t"
proof -
  have "length (dbs (ctx s)) = length (dbs (ctx t))" using assms by simp
  then show "length (dbs s) = length (dbs t)" by (simp add: ctx_def)
qed (use arg_cong[OF assms, of clients] arg_cong[OF assms, of loading] arg_cong[OF assms, of cluster_enabled]
      arg_cong[OF assms, of masterhost] arg_cong[OF assms, of in_lua] arg_cong[OF assms, of lua_time_start]
      arg_cong[OF assms, of clk] arg_cong[OF assms, of aof_on] arg_cong[OF assms, of notify_keyspace_events]
      arg_cong[OF assms, of pubsub_channels] arg_cong[OF assms, of pubsub_patterns] arg_cong[OF assms, of monitors]
      arg_cong[OF assms, of set_max_intset_entries] arg_cong[OF assms, of hash_max_ziplist_entries]
      arg_cong[OF assms, of hash_max_ziplist_value]
      in \<open>simp_all add: ctx_def\<close>)

lemma ctx_client:
  assumes "ctx s = ctx t"
  shows "(cl s c)\<lparr>creply := [], f_dirty_cas := False\<rparr> = (cl t c)\<lparr>creply := [], f_dirty_cas := False\<rparr>"
  using arg_cong[OF assms, of "\<lambda>s. cl s c"] by (simp add: ctx_def)

lemma ctx_clientD:
  assumes "ctx s = ctx t"
  shows "cdb (cl s c) = cdb (cl t c)" "cargv (cl s c) = cargv (cl t c)" "ccmd (cl s c) = ccmd (cl t c)"
    "f_multi (cl s c) = f_multi (cl t c)" "mcommands (cl s c) = mcommands (cl t c)" "wkeys (cl s c) = wkeys (cl t c)"
    "f_dirty_exec (cl s c) = f_dirty_exec (cl t c)" "f_master (cl s c) = f_master (cl t c)"
    "f_blocked (cl s c) = f_blocked (cl t c)" "f_force_aof (cl s c) = f_force_aof (cl t c)"
    "f_force_repl (cl s c) = f_force_repl (cl t c)"
  using arg_cong[OF ctx_client[OF assms, of c], of cdb] arg_cong[OF ctx_client[OF assms, of c], of cargv]
    arg_cong[OF ctx_client[OF assms, of c], of ccmd] arg_cong[OF ctx_client[OF assms, of c], of f_multi]
    arg_cong[OF ctx_client[OF assms, of c], of mcommands] arg_cong[OF ctx_client[OF assms, of c], of wkeys]
    arg_cong[OF ctx_client[OF assms, of c], of f_dirty_exec] arg_cong[OF ctx_client[OF assms, of c], of f_master]
    arg_cong[OF ctx_client[OF assms, of c], of f_blocked] arg_cong[OF ctx_client[OF assms, of c], of f_force_aof]
    arg_cong[OF ctx_client[OF assms, of c], of f_force_repl]
  by simp_all

definition watchers :: "server \<Rightarrow> nat \<Rightarrow> string \<Rightarrow> nat set" where
  "watchers s j key = (case watched_keys (the_db s j) key of None \<Rightarrow> {} | Some cs \<Rightarrow> set cs)"

definition val_of :: "server \<Rightarrow> nat \<Rightarrow> string \<rightharpoonup> robj" where
  "val_of s j = kv (the_db s j)"

definition exp_of :: "server \<Rightarrow> nat \<Rightarrow> string \<rightharpoonup> int" where
  "exp_of s j = expires (the_db s j)"

lemma ctx_watchers:
  assumes "ctx s = ctx t" "j < length (dbs t)"
  shows "watchers s j key = watchers t j key" "blocking_keys (the_db s j) = blocking_keys (the_db t j)"
proof -
  have l: "length (dbs s) = length (dbs t)" by (rule ctxD(1)[OF assms(1)])
  have "dbs (ctx s) ! j = dbs (ctx t) ! j" using assms(1) by simp
  then have "(the_db s j)\<lparr>kv := Map.empty, expires := Map.empty, db_ready_keys := {}\<rparr> =
      (the_db t j)\<lparr>kv := Map.empty, expires := Map.empty, db_ready_keys := {}\<rparr>"
    using assms(2) l by (simp add: ctx_def)
  from arg_cong[OF this, of watched_keys] arg_cong[OF this, of blocking_keys]
  show "watchers s j key = watchers t j key" "blocking_keys (the_db s j) = blocking_keys (the_db t j)"
    by (simp_all add: watchers_def)
qed

lemma quiet_ctx: "quiet s = quiet t \<Longrightarrow> ctx s = ctx t"
proof -
  have q: "ctx (quiet s) = ctx s" for s by (simp add: ctx_def quiet_def)
  show "quiet s = quiet t \<Longrightarrow> ctx s = ctx t" using q[of s] q[of t] by simp
qed

lemma quiet_vals: "quiet s = quiet t \<Longrightarrow> val_of s = val_of t" "quiet s = quiet t \<Longrightarrow> exp_of s = exp_of t"
  by (auto simp: val_of_def exp_of_def fun_eq_iff dest: quietD(1))

lemmas ctx_reply [simp] = quiet_ctx[OF quiet_addReply] quiet_ctx[OF quiet_addReplies] quiet_ctx[OF quiet_notify]
lemmas val_reply [simp] = quiet_vals[OF quiet_addReply] quiet_vals[OF quiet_addReplies] quiet_vals[OF quiet_notify]

lemma ctx_dirty [simp]:
  "ctx (s\<lparr>dirty := n\<rparr>) = ctx s" "ctx (s\<lparr>stat_hits := x\<rparr>) = ctx s" "ctx (s\<lparr>stat_misses := x\<rparr>) = ctx s"
  "ctx (s\<lparr>stat_expiredkeys := x\<rparr>) = ctx s" "ctx (s\<lparr>clk_reads := y\<rparr>) = ctx s"
  by (simp_all add: ctx_def)

lemma val_dirty [simp]:
  "val_of (s\<lparr>dirty := n\<rparr>) = val_of s" "val_of (s\<lparr>stat_hits := x\<rparr>) = val_of s" "val_of (s\<lparr>stat_misses := x\<rparr>) = val_of s"
  "val_of (s\<lparr>stat_expiredkeys := x\<rparr>) = val_of s" "val_of (s\<lparr>clk_reads := y\<rparr>) = val_of s"
  "exp_of (s\<lparr>dirty := n\<rparr>) = exp_of s" "exp_of (s\<lparr>stat_hits := x\<rparr>) = exp_of s" "exp_of (s\<lparr>stat_misses := x\<rparr>) = exp_of s"
  "exp_of (s\<lparr>stat_expiredkeys := x\<rparr>) = exp_of s" "exp_of (s\<lparr>clk_reads := y\<rparr>) = exp_of s"
  by (simp_all add: val_of_def exp_of_def fun_eq_iff)

lemma mstime_sel [simp]: "snd (mstime s) = s\<lparr>clk_reads := Suc (clk_reads s)\<rparr>" "fst (mstime s) = clk s (clk_reads s)"
  by (simp_all add: mstime_def)

section \<open>The effect of each function\<close>

lemma map_upd_same: "(\<And>d. g (f d) = g d) \<Longrightarrow> map g (xs[j := f (xs ! j)]) = map g xs"
  by (cases "j < length xs") (simp_all add: map_update list_update_same_conv list_update_beyond)

lemma ctx_upd_db:
  assumes "\<And>d. (f d)\<lparr>kv := Map.empty, expires := Map.empty, db_ready_keys := {}\<rparr> =
    d\<lparr>kv := Map.empty, expires := Map.empty, db_ready_keys := {}\<rparr>"
  shows "ctx (upd_db j f s) = ctx s"
  using map_upd_same[of "\<lambda>d. d\<lparr>kv := Map.empty, expires := Map.empty, db_ready_keys := {}\<rparr>" f, OF assms]
  by (simp add: ctx_def upd_db_def)

lemma ctx_upd_fields [simp]:
  "ctx (upd_db j (\<lambda>d. d\<lparr>kv := f d\<rparr>) s) = ctx s" "ctx (upd_db j (\<lambda>d. d\<lparr>expires := g d\<rparr>) s) = ctx s"
  "ctx (upd_db j (\<lambda>d. d\<lparr>db_ready_keys := h d\<rparr>) s) = ctx s"
  by (rule ctx_upd_db; simp)+

lemma val_upd_fields [simp]:
  assumes "j < length (dbs s)"
  shows "val_of (upd_db j (\<lambda>d. d\<lparr>kv := f d\<rparr>) s) = (val_of s)(j := f (the_db s j))"
    "exp_of (upd_db j (\<lambda>d. d\<lparr>kv := f d\<rparr>) s) = exp_of s"
    "val_of (upd_db j (\<lambda>d. d\<lparr>expires := g d\<rparr>) s) = val_of s"
    "exp_of (upd_db j (\<lambda>d. d\<lparr>expires := g d\<rparr>) s) = (exp_of s)(j := g (the_db s j))"
    "val_of (upd_db j (\<lambda>d. d\<lparr>db_ready_keys := h d\<rparr>) s) = val_of s"
    "exp_of (upd_db j (\<lambda>d. d\<lparr>db_ready_keys := h d\<rparr>) s) = exp_of s"
  using assms by (auto simp: val_of_def exp_of_def fun_eq_iff nth_list_update)

lemma fold_flag:
  "ctx (fold flag_dirty_cas cs s) = ctx s \<and> dbs (fold flag_dirty_cas cs s) = dbs s \<and>
   slots_to_keys (fold flag_dirty_cas cs s) = slots_to_keys s \<and> crashed (fold flag_dirty_cas cs s) = crashed s \<and>
   clk_reads (fold flag_dirty_cas cs s) = clk_reads s \<and> dirty (fold flag_dirty_cas cs s) = dirty s \<and>
   aof_log (fold flag_dirty_cas cs s) = aof_log s \<and> repl_log (fold flag_dirty_cas cs s) = repl_log s \<and>
   (\<forall>c. creply (cl (fold flag_dirty_cas cs s) c) = creply (cl s c)) \<and>
   (\<forall>c. f_dirty_cas (cl (fold flag_dirty_cas cs s) c) = (f_dirty_cas (cl s c) \<or> c \<in> set cs))"
proof (induction cs arbitrary: s)
  case (Cons d cs)
  have "ctx (flag_dirty_cas d s) = ctx s"
    by (simp add: flag_dirty_cas_def upd_client_def ctx_def fun_eq_iff)
  with Cons[of "flag_dirty_cas d s"] show ?case by (auto simp: flag_dirty_cas_def upd_client_def)
qed simp

lemma touch_sel [simp]:
  "ctx (touchWatchedKey j key s) = ctx s" "dbs (touchWatchedKey j key s) = dbs s"
  "val_of (touchWatchedKey j key s) = val_of s" "exp_of (touchWatchedKey j key s) = exp_of s"
  "slots_to_keys (touchWatchedKey j key s) = slots_to_keys s" "crashed (touchWatchedKey j key s) = crashed s"
  "clk_reads (touchWatchedKey j key s) = clk_reads s" "dirty (touchWatchedKey j key s) = dirty s"
  "aof_log (touchWatchedKey j key s) = aof_log s" "repl_log (touchWatchedKey j key s) = repl_log s"
  "creply (cl (touchWatchedKey j key s) c) = creply (cl s c)"
  "f_dirty_cas (cl (touchWatchedKey j key s) c) \<longleftrightarrow> f_dirty_cas (cl s c) \<or> c \<in> watchers s j key"
  using fold_flag by (simp_all add: touchWatchedKey_def watchers_def val_of_def exp_of_def fun_eq_iff split: option.split)

lemma assert_sel [simp]:
  "ctx (redisAssert b s) = ctx s" "dbs (redisAssert b s) = dbs s" "val_of (redisAssert b s) = val_of s"
  "exp_of (redisAssert b s) = exp_of s" "slots_to_keys (redisAssert b s) = slots_to_keys s"
  "cl (redisAssert b s) = cl s" "clk_reads (redisAssert b s) = clk_reads s" "dirty (redisAssert b s) = dirty s"
  "aof_log (redisAssert b s) = aof_log s" "repl_log (redisAssert b s) = repl_log s"
  "crashed (redisAssert b s) \<longleftrightarrow> crashed s \<or> \<not> b"
  by (auto simp: redisAssert_def ctx_def val_of_def exp_of_def fun_eq_iff)

lemma slot_sel [simp]:
  "ctx (slotToKeyAdd key s) = ctx s" "ctx (slotToKeyDel key s) = ctx s" "ctx (slotToKeyFlush s) = ctx s"
  "dbs (slotToKeyAdd key s) = dbs s" "dbs (slotToKeyDel key s) = dbs s" "dbs (slotToKeyFlush s) = dbs s"
  "cl (slotToKeyAdd key s) = cl s" "cl (slotToKeyDel key s) = cl s" "cl (slotToKeyFlush s) = cl s"
  "val_of (slotToKeyAdd key s) = val_of s" "val_of (slotToKeyDel key s) = val_of s" "val_of (slotToKeyFlush s) = val_of s"
  "exp_of (slotToKeyAdd key s) = exp_of s" "exp_of (slotToKeyDel key s) = exp_of s" "exp_of (slotToKeyFlush s) = exp_of s"
  "crashed (slotToKeyAdd key s) = crashed s" "crashed (slotToKeyDel key s) = crashed s" "crashed (slotToKeyFlush s) = crashed s"
  "dirty (slotToKeyAdd key s) = dirty s" "dirty (slotToKeyDel key s) = dirty s" "dirty (slotToKeyFlush s) = dirty s"
  "clk_reads (slotToKeyAdd key s) = clk_reads s" "clk_reads (slotToKeyDel key s) = clk_reads s"
  "slots_to_keys (slotToKeyAdd key s) = insert (keyHashSlot key, key) (slots_to_keys s)"
  "slots_to_keys (slotToKeyDel key s) = slots_to_keys s - {(keyHashSlot key, key)}"
  "slots_to_keys (slotToKeyFlush s) = {}"
  by (simp_all add: slotToKeyAdd_def slotToKeyDel_def slotToKeyFlush_def ctx_def val_of_def exp_of_def fun_eq_iff)

lemma propagate_sel [simp]:
  "ctx (propagateExpire j key s) = ctx s" "dbs (propagateExpire j key s) = dbs s" "cl (propagateExpire j key s) = cl s"
  "val_of (propagateExpire j key s) = val_of s" "exp_of (propagateExpire j key s) = exp_of s"
  "slots_to_keys (propagateExpire j key s) = slots_to_keys s" "crashed (propagateExpire j key s) = crashed s"
  "clk_reads (propagateExpire j key s) = clk_reads s" "dirty (propagateExpire j key s) = dirty s"
  "aof_log (propagateExpire j key s) = aof_log s @ (if aof_on s then [(j, [''DEL'', key])] else [])"
  "repl_log (propagateExpire j key s) = repl_log s @ [(j, [''DEL'', key])]"
  by (simp_all add: propagateExpire_def feedAppendOnlyFile_def replicationFeedSlaves_def ctx_def val_of_def exp_of_def fun_eq_iff)

lemma getExpire_sel [simp]:
  "ctx (snd (getExpire j key s)) = ctx s" "dbs (snd (getExpire j key s)) = dbs s" "cl (snd (getExpire j key s)) = cl s"
  "val_of (snd (getExpire j key s)) = val_of s" "exp_of (snd (getExpire j key s)) = exp_of s"
  "slots_to_keys (snd (getExpire j key s)) = slots_to_keys s" "dirty (snd (getExpire j key s)) = dirty s"
  "aof_log (snd (getExpire j key s)) = aof_log s" "repl_log (snd (getExpire j key s)) = repl_log s"
  "clk_reads (snd (getExpire j key s)) = clk_reads s"
  "crashed (snd (getExpire j key s)) \<longleftrightarrow> crashed s \<or> (exp_of s j key \<noteq> None \<and> val_of s j key = None)"
  "fst (getExpire j key s) = (case exp_of s j key of None \<Rightarrow> -1 | Some when \<Rightarrow> when)"
  by (auto simp: getExpire_def exp_of_def val_of_def split: option.split)

lemma removeExpire_sel [simp]:
  "ctx (fst (removeExpire j key s)) = ctx s" "cl (fst (removeExpire j key s)) = cl s"
  "slots_to_keys (fst (removeExpire j key s)) = slots_to_keys s" "dirty (fst (removeExpire j key s)) = dirty s"
  "clk_reads (fst (removeExpire j key s)) = clk_reads s"
  "crashed (fst (removeExpire j key s)) \<longleftrightarrow> crashed s \<or> val_of s j key = None"
  "snd (removeExpire j key s) \<longleftrightarrow> exp_of s j key \<noteq> None"
  by (simp_all add: removeExpire_def Let_def val_of_def exp_of_def)

lemma removeExpire_val [simp]:
  assumes "j < length (dbs s)"
  shows "val_of (fst (removeExpire j key s)) = val_of s"
    "exp_of (fst (removeExpire j key s)) = (exp_of s)(j := (exp_of s j)(key := None))"
  using assms by (simp_all add: removeExpire_def Let_def) (simp add: exp_of_def)

lemma setExpire_sel [simp]:
  "ctx (setExpire j key when s) = ctx s" "cl (setExpire j key when s) = cl s"
  "slots_to_keys (setExpire j key when s) = slots_to_keys s" "dirty (setExpire j key when s) = dirty s"
  "clk_reads (setExpire j key when s) = clk_reads s"
  "crashed (setExpire j key when s) \<longleftrightarrow> crashed s \<or> val_of s j key = None"
  by (simp_all add: setExpire_def Let_def val_of_def)

lemma setExpire_val [simp]:
  assumes "j < length (dbs s)"
  shows "val_of (setExpire j key when s) = val_of s"
    "exp_of (setExpire j key when s) = (exp_of s)(j := (exp_of s j)(key \<mapsto> when))"
  using assms by (simp_all add: setExpire_def Let_def) (simp add: exp_of_def)

lemmas base_fields [simp] =
  ctxD[OF touch_sel(1)] ctx_clientD[OF touch_sel(1)] ctx_watchers[OF touch_sel(1)]
  ctxD[OF assert_sel(1)] ctx_clientD[OF assert_sel(1)] ctx_watchers[OF assert_sel(1)]
  ctxD[OF slot_sel(1)] ctx_clientD[OF slot_sel(1)] ctx_watchers[OF slot_sel(1)]
  ctxD[OF slot_sel(2)] ctx_clientD[OF slot_sel(2)] ctx_watchers[OF slot_sel(2)]
  ctxD[OF slot_sel(3)] ctx_clientD[OF slot_sel(3)] ctx_watchers[OF slot_sel(3)]
  ctxD[OF propagate_sel(1)] ctx_clientD[OF propagate_sel(1)] ctx_watchers[OF propagate_sel(1)]
  ctxD[OF getExpire_sel(1)] ctx_clientD[OF getExpire_sel(1)] ctx_watchers[OF getExpire_sel(1)]
  ctxD[OF removeExpire_sel(1)] ctx_clientD[OF removeExpire_sel(1)] ctx_watchers[OF removeExpire_sel(1)]
  ctxD[OF setExpire_sel(1)] ctx_clientD[OF setExpire_sel(1)] ctx_watchers[OF setExpire_sel(1)]

lemma dbDelete_sel [simp]:
  "ctx (fst (dbDelete j key s)) = ctx s" "cl (fst (dbDelete j key s)) = cl s" "dirty (fst (dbDelete j key s)) = dirty s"
  "crashed (fst (dbDelete j key s)) = crashed s" "clk_reads (fst (dbDelete j key s)) = clk_reads s"
  by (simp_all add: dbDelete_def Let_def)

lemmas dbDelete_fields [simp] =
  ctxD[OF dbDelete_sel(1)] ctx_clientD[OF dbDelete_sel(1)] ctx_watchers[OF dbDelete_sel(1)]

lemma dbDelete_val [simp]:
  assumes "j < length (dbs s)"
  shows "val_of (fst (dbDelete j key s)) = (val_of s)(j := (val_of s j)(key := None))"
    "exp_of (fst (dbDelete j key s)) = (exp_of s)(j := (exp_of s j)(key := None))"
    "snd (dbDelete j key s) \<longleftrightarrow> val_of s j key \<noteq> None"
    "slots_to_keys (fst (dbDelete j key s)) =
       (if val_of s j key \<noteq> None \<and> cluster_enabled s then slots_to_keys s - {(keyHashSlot key, key)} else slots_to_keys s)"
proof -
  have k: "kv (the_db (upd_db j (\<lambda>d. d\<lparr>expires := (expires d)(key := None)\<rparr>) s) j) = val_of s j"
    using assms by (simp add: val_of_def)
  show "val_of (fst (dbDelete j key s)) = (val_of s)(j := (val_of s j)(key := None))"
    using assms by (auto simp: dbDelete_def Let_def k[unfolded upd_db_sel] val_of_def fun_eq_iff nth_list_update)
  show "exp_of (fst (dbDelete j key s)) = (exp_of s)(j := (exp_of s j)(key := None))"
    using assms by (auto simp: dbDelete_def Let_def k[unfolded upd_db_sel] exp_of_def fun_eq_iff nth_list_update)
  show "snd (dbDelete j key s) \<longleftrightarrow> val_of s j key \<noteq> None"
    using assms by (simp add: dbDelete_def Let_def val_of_def)
  show "slots_to_keys (fst (dbDelete j key s)) =
       (if val_of s j key \<noteq> None \<and> cluster_enabled s then slots_to_keys s - {(keyHashSlot key, key)} else slots_to_keys s)"
    using assms by (simp add: dbDelete_def Let_def val_of_def)
qed

definition time_now :: "server \<Rightarrow> int" where
  \<comment> \<open>the time that an access is checked against\<close>
  "time_now s = (if in_lua s then lua_time_start s else clk s (clk_reads s))"

definition expired_at :: "server \<Rightarrow> nat \<Rightarrow> string \<Rightarrow> bool" where
  \<comment> \<open>the key is removed by an access: its time is past, on a master that is not loading\<close>
  "expired_at s j key \<longleftrightarrow>
     (case exp_of s j key of
        None \<Rightarrow> False
      | Some when \<Rightarrow> 0 \<le> when \<and> \<not> loading s \<and> masterhost s = None \<and> when < time_now s)"

definition forget :: "'a \<Rightarrow> ('a \<rightharpoonup> 'b) \<Rightarrow> 'a \<rightharpoonup> 'b" where
  "forget key m = m(key := None)"

lemma forget_apply [simp]: "forget key m k = (if k = key then None else m k)"
  by (simp add: forget_def)

lemma dom_forget [simp]: "dom (forget key m) = dom m - {key}"
  by (simp add: forget_def)

lemma expireIfNeeded_sel [simp]:
  "ctx (fst (expireIfNeeded j key s)) = ctx s" "dirty (fst (expireIfNeeded j key s)) = dirty s"
  "f_dirty_cas (cl (fst (expireIfNeeded j key s)) c) = f_dirty_cas (cl s c)"
  by (simp_all add: expireIfNeeded_def Let_def case_prod_beta)

lemmas expireIfNeeded_fields [simp] =
  ctxD[OF expireIfNeeded_sel(1)] ctx_clientD[OF expireIfNeeded_sel(1)] ctx_watchers[OF expireIfNeeded_sel(1)]

lemma expireIfNeeded_val [simp]:
  assumes "j < length (dbs s)"
  shows "val_of (fst (expireIfNeeded j key s)) =
      (if expired_at s j key then (val_of s)(j := forget key (val_of s j)) else val_of s)"
    "exp_of (fst (expireIfNeeded j key s)) =
      (if expired_at s j key then (exp_of s)(j := forget key (exp_of s j)) else exp_of s)"
    "crashed (fst (expireIfNeeded j key s)) \<longleftrightarrow> crashed s \<or> (exp_of s j key \<noteq> None \<and> val_of s j key = None)"
    "slots_to_keys (fst (expireIfNeeded j key s)) =
      (if expired_at s j key \<and> val_of s j key \<noteq> None \<and> cluster_enabled s
       then slots_to_keys s - {(keyHashSlot key, key)} else slots_to_keys s)"
  using assms
  by (auto simp: expireIfNeeded_def Let_def case_prod_beta expired_at_def time_now_def forget_def
      ctxD[OF getExpire_sel(1)] split: option.splits)

definition kept :: "server \<Rightarrow> nat \<Rightarrow> string \<Rightarrow> string \<rightharpoonup> robj" where
  \<comment> \<open>the keys of a database after an access to one of them\<close>
  "kept s j key = (if expired_at s j key then forget key (val_of s j) else val_of s j)"

definition kept_exp :: "server \<Rightarrow> nat \<Rightarrow> string \<Rightarrow> string \<rightharpoonup> int" where
  "kept_exp s j key = (if expired_at s j key then forget key (exp_of s j) else exp_of s j)"

definition slot_kept :: "server \<Rightarrow> nat \<Rightarrow> string \<Rightarrow> (nat \<times> string) set" where
  "slot_kept s j key =
     (if expired_at s j key \<and> val_of s j key \<noteq> None \<and> cluster_enabled s
      then slots_to_keys s - {(keyHashSlot key, key)} else slots_to_keys s)"

lemma expireIfNeeded_kept:
  assumes "j < length (dbs s)"
  shows "val_of (fst (expireIfNeeded j key s)) = (val_of s)(j := kept s j key)"
    "exp_of (fst (expireIfNeeded j key s)) = (exp_of s)(j := kept_exp s j key)"
  using assms by (simp_all add: kept_def kept_exp_def)

lemma lookupKeyWrite_sel [simp]:
  "ctx (fst (lookupKeyWrite j key s)) = ctx s" "dirty (fst (lookupKeyWrite j key s)) = dirty s"
  "f_dirty_cas (cl (fst (lookupKeyWrite j key s)) c) = f_dirty_cas (cl s c)"
  by (simp_all add: lookupKeyWrite_def Let_def)

lemma lookupKeyRead_sel [simp]:
  "ctx (fst (lookupKeyRead j key s)) = ctx s" "dirty (fst (lookupKeyRead j key s)) = dirty s"
  "f_dirty_cas (cl (fst (lookupKeyRead j key s)) c) = f_dirty_cas (cl s c)"
  by (simp_all add: lookupKeyRead_def Let_def split: option.split)

lemma lookup_same: "lookupKey j key s = val_of s j key"
  by (simp add: lookupKey_def val_of_def)

lemma lookup_val [simp]:
  assumes "j < length (dbs s)"
  shows "val_of (fst (lookupKeyWrite j key s)) = (val_of s)(j := kept s j key)"
    "exp_of (fst (lookupKeyWrite j key s)) = (exp_of s)(j := kept_exp s j key)"
    "val_of (fst (lookupKeyRead j key s)) = (val_of s)(j := kept s j key)"
    "exp_of (fst (lookupKeyRead j key s)) = (exp_of s)(j := kept_exp s j key)"
    "snd (lookupKeyWrite j key s) = kept s j key key" "snd (lookupKeyRead j key s) = kept s j key key"
    "crashed (fst (lookupKeyWrite j key s)) \<longleftrightarrow> crashed s \<or> (exp_of s j key \<noteq> None \<and> val_of s j key = None)"
    "crashed (fst (lookupKeyRead j key s)) \<longleftrightarrow> crashed s \<or> (exp_of s j key \<noteq> None \<and> val_of s j key = None)"
    "slots_to_keys (fst (lookupKeyWrite j key s)) = slot_kept s j key"
    "slots_to_keys (fst (lookupKeyRead j key s)) = slot_kept s j key"
  using assms
  by (simp_all add: lookupKeyWrite_def lookupKeyRead_def Let_def lookup_same slot_kept_def kept_def kept_exp_def
      split: option.split)

lemmas lookup_fields [simp] =
  ctxD[OF lookupKeyWrite_sel(1)] ctx_clientD[OF lookupKeyWrite_sel(1)] ctx_watchers[OF lookupKeyWrite_sel(1)]
  ctxD[OF lookupKeyRead_sel(1)] ctx_clientD[OF lookupKeyRead_sel(1)] ctx_watchers[OF lookupKeyRead_sel(1)]

lemma signalList_sel [simp]:
  "ctx (signalListAsReady j key s) = ctx s" "cl (signalListAsReady j key s) = cl s"
  "dirty (signalListAsReady j key s) = dirty s" "slots_to_keys (signalListAsReady j key s) = slots_to_keys s"
  "crashed (signalListAsReady j key s) = crashed s" "clk_reads (signalListAsReady j key s) = clk_reads s"
  by (simp_all add: signalListAsReady_def Let_def) (simp add: ctx_def)

lemma signalList_val [simp]:
  assumes "j < length (dbs s)"
  shows "val_of (signalListAsReady j key s) = val_of s" "exp_of (signalListAsReady j key s) = exp_of s"
proof -
  have r: "val_of (s\<lparr>ready_keys := x\<rparr>) = val_of s" "exp_of (s\<lparr>ready_keys := x\<rparr>) = exp_of s" for x
    by (simp_all add: val_of_def exp_of_def fun_eq_iff)
  show "val_of (signalListAsReady j key s) = val_of s" "exp_of (signalListAsReady j key s) = exp_of s"
    using assms by (simp_all add: signalListAsReady_def Let_def r)
qed

lemmas signalList_fields [simp] =
  ctxD[OF signalList_sel(1)] ctx_clientD[OF signalList_sel(1)] ctx_watchers[OF signalList_sel(1)]

lemma dbAdd_sel [simp]:
  "ctx (dbAdd j key v s) = ctx s" "cl (dbAdd j key v s) = cl s" "dirty (dbAdd j key v s) = dirty s"
  "crashed (dbAdd j key v s) \<longleftrightarrow> crashed s \<or> val_of s j key \<noteq> None" "clk_reads (dbAdd j key v s) = clk_reads s"
  by (auto simp add: dbAdd_def Let_def val_of_def)

lemma dbOverwrite_sel [simp]:
  "ctx (dbOverwrite j key v s) = ctx s" "cl (dbOverwrite j key v s) = cl s" "dirty (dbOverwrite j key v s) = dirty s"
  "crashed (dbOverwrite j key v s) \<longleftrightarrow> crashed s \<or> val_of s j key = None" "clk_reads (dbOverwrite j key v s) = clk_reads s"
  "slots_to_keys (dbOverwrite j key v s) = slots_to_keys s"
  by (auto simp add: dbOverwrite_def val_of_def)

lemmas dbAdd_fields [simp] =
  ctxD[OF dbAdd_sel(1)] ctx_clientD[OF dbAdd_sel(1)] ctx_watchers[OF dbAdd_sel(1)]
  ctxD[OF dbOverwrite_sel(1)] ctx_clientD[OF dbOverwrite_sel(1)] ctx_watchers[OF dbOverwrite_sel(1)]

lemma val_nth: "j < length (dbs s) \<Longrightarrow> kv (dbs s ! j) = val_of s j" "j < length (dbs s) \<Longrightarrow> expires (dbs s ! j) = exp_of s j"
  by (simp_all add: val_of_def exp_of_def)

lemma dbAdd_val [simp]:
  assumes "j < length (dbs s)"
  shows "val_of (dbAdd j key v s) = (val_of s)(j := (val_of s j)(key \<mapsto> v))" "exp_of (dbAdd j key v s) = exp_of s"
    "slots_to_keys (dbAdd j key v s) =
      (if cluster_enabled s then insert (keyHashSlot key, key) (slots_to_keys s) else slots_to_keys s)"
  using assms by (simp_all add: dbAdd_def Let_def val_nth)

lemma dbOverwrite_val [simp]:
  assumes "j < length (dbs s)"
  shows "val_of (dbOverwrite j key v s) = (val_of s)(j := (val_of s j)(key \<mapsto> v))" "exp_of (dbOverwrite j key v s) = exp_of s"
  using assms by (simp_all add: dbOverwrite_def val_nth)

lemma bytes_createStringObject [simp]: "str_bytes (createStringObject b) = b"
  by (simp add: createStringObject_def createEmbeddedStringObject_def createRawStringObject_def)

lemma unshare_sel [simp]:
  "ctx (fst (dbUnshareStringValue j key ob s)) = ctx s" "cl (fst (dbUnshareStringValue j key ob s)) = cl s"
  "dirty (fst (dbUnshareStringValue j key ob s)) = dirty s"
  "slots_to_keys (fst (dbUnshareStringValue j key ob s)) = slots_to_keys s"
  "snd (dbUnshareStringValue j key ob s) = str_bytes ob"
  by (simp_all add: dbUnshareStringValue_def Let_def split: strobj.split)

lemma unshare_val [simp]:
  assumes "j < length (dbs s)" "val_of s j key = Some (StrObj ob)"
  shows "val_of (fst (dbUnshareStringValue j key ob s)) = (val_of s)(j := (val_of s j)(key \<mapsto> StrObj (SRaw (str_bytes ob))))"
    "exp_of (fst (dbUnshareStringValue j key ob s)) = exp_of s"
    "crashed (fst (dbUnshareStringValue j key ob s)) = crashed s"
  using assms by (simp_all add: dbUnshareStringValue_def Let_def map_upd_triv split: strobj.split)

lemmas unshare_fields [simp] =
  ctxD[OF unshare_sel(1)] ctx_clientD[OF unshare_sel(1)] ctx_watchers[OF unshare_sel(1)]

lemma kept_simps: "kept s j key k \<noteq> None \<Longrightarrow> kept s j key k = val_of s j k"
  by (auto simp: kept_def split: if_splits)

lemma setKey_sel [simp]:
  "ctx (setKey j key v s) = ctx s" "dirty (setKey j key v s) = dirty s"
  by (simp_all add: setKey_def Let_def case_prod_beta signalModifiedKey_def)

lemma setKey_val [simp]:
  assumes "j < length (dbs s)"
  shows "val_of (setKey j key v s) = (val_of s)(j := (val_of s j)(key \<mapsto> v))"
    "exp_of (setKey j key v s) = (exp_of s)(j := forget key (exp_of s j))"
    "f_dirty_cas (cl (setKey j key v s) c) \<longleftrightarrow> f_dirty_cas (cl s c) \<or> c \<in> watchers s j key"
    "crashed (setKey j key v s) \<longleftrightarrow> crashed s \<or> (exp_of s j key \<noteq> None \<and> val_of s j key = None)"
    "slots_to_keys (setKey j key v s) =
      (if cluster_enabled s \<and> kept s j key key = None then insert (keyHashSlot key, key) (slot_kept s j key)
       else slot_kept s j key)"
proof -
  define s1 where "s1 = fst (lookupKeyWrite j key s)"
  define s2 where "s2 = (if kept s j key key = None then dbAdd j key v s1 else dbOverwrite j key v s1)"
  have set: "setKey j key v s = touchWatchedKey j key (fst (removeExpire j key s2))"
    using assms by (simp add: setKey_def Let_def case_prod_beta signalModifiedKey_def s1_def s2_def)
  have s1: "j < length (dbs s1)" "val_of s1 = (val_of s)(j := kept s j key)" "exp_of s1 = (exp_of s)(j := kept_exp s j key)"
    "cluster_enabled s1 = cluster_enabled s" "slots_to_keys s1 = slot_kept s j key"
    "crashed s1 \<longleftrightarrow> crashed s \<or> (exp_of s j key \<noteq> None \<and> val_of s j key = None)"
    using assms by (simp_all add: s1_def)
  have upd: "(kept s j key)(key \<mapsto> v) = (val_of s j)(key \<mapsto> v)" "forget key (kept_exp s j key) = forget key (exp_of s j)"
    by (auto simp: kept_def kept_exp_def fun_eq_iff)
  have s2: "j < length (dbs s2)" "val_of s2 = (val_of s)(j := (val_of s j)(key \<mapsto> v))" "exp_of s2 = exp_of s1"
    using s1 upd by (simp_all add: s2_def)
  show "val_of (setKey j key v s) = (val_of s)(j := (val_of s j)(key \<mapsto> v))"
    using s2 by (simp add: set)
  show "exp_of (setKey j key v s) = (exp_of s)(j := forget key (exp_of s j))"
    using s2 s1 upd by (simp add: set flip: forget_def)
  show "f_dirty_cas (cl (setKey j key v s) c) \<longleftrightarrow> f_dirty_cas (cl s c) \<or> c \<in> watchers s j key"
    using assms s2(1) by (simp add: set s2_def s1_def)
  show "crashed (setKey j key v s) \<longleftrightarrow> crashed s \<or> (exp_of s j key \<noteq> None \<and> val_of s j key = None)"
    using s2 s1 by (auto simp: set s2_def)
  show "slots_to_keys (setKey j key v s) =
      (if cluster_enabled s \<and> kept s j key key = None then insert (keyHashSlot key, key) (slot_kept s j key)
       else slot_kept s j key)"
    using s1 by (simp add: set s2_def)
qed

lemmas setKey_fields [simp] =
  ctxD[OF setKey_sel(1)] ctx_clientD[OF setKey_sel(1)] ctx_watchers[OF setKey_sel(1)]

section \<open>The invariant of the dataset\<close>

fun hash_ok :: "hash_obj \<Rightarrow> bool" where
  \<comment> \<open>fields are different, and there are some\<close>
  "hash_ok (HashZip fs) = (fs \<noteq> [] \<and> distinct (map fst fs))"
| "hash_ok (HashTable m) = (finite (dom m) \<and> m \<noteq> Map.empty)"

fun obj_ok :: "robj \<Rightarrow> bool" where
  \<comment> \<open>values are well formed, and no empty list, set or hash is stored\<close>
  "obj_ok (StrObj ob) = strobj_ok ob"
| "obj_ok (ListObj _ xs) = (xs \<noteq> [])"
| "obj_ok (SetObj x) = (\<exists>A. set_rep x A \<and> A \<noteq> {})"
| "obj_ok (HashObj h) = hash_ok h"
| "obj_ok (ZsetObj _) = True"

definition slot_index :: "(string \<rightharpoonup> robj) \<Rightarrow> (nat \<times> string) set" where
  "slot_index m = (\<lambda>key. (keyHashSlot key, key)) ` dom m"

definition db_ok :: "server \<Rightarrow> bool" where
  "db_ok s \<longleftrightarrow>
     \<not> crashed s \<and> 0 < length (dbs s) \<and>
     (\<forall>j < length (dbs s). dom (exp_of s j) \<subseteq> dom (val_of s j) \<and> (\<forall>v \<in> ran (val_of s j). obj_ok v)) \<and>
     (cluster_enabled s \<longrightarrow> slots_to_keys s = slot_index (val_of s 0) \<and>
        (\<forall>j < length (dbs s). 0 < j \<longrightarrow> val_of s j = Map.empty))"

definition okdb :: "server \<Rightarrow> nat \<Rightarrow> bool" where
  \<comment> \<open>a database that a client can have selected: a cluster has one only\<close>
  "okdb s j \<longleftrightarrow> j < length (dbs s) \<and> (cluster_enabled s \<longrightarrow> j = 0)"

lemma okdb_less [dest]: "okdb s j \<Longrightarrow> j < length (dbs s)"
  by (simp add: okdb_def)

lemma okdb_ctx: "ctx s' = ctx s \<Longrightarrow> okdb s' j = okdb s j"
  by (simp add: okdb_def ctxD(1)[of s' s] ctxD(4)[of s' s])

lemma db_okD:
  assumes "db_ok s" "j < length (dbs s)"
  shows "\<not> crashed s" "val_of s j key = None \<Longrightarrow> exp_of s j key = None" "val_of s j key = Some v \<Longrightarrow> obj_ok v"
proof -
  have "dom (exp_of s j) \<subseteq> dom (val_of s j)" "\<forall>v \<in> ran (val_of s j). obj_ok v" and nc: "\<not> crashed s"
    using assms by (auto simp: db_ok_def)
  then show "val_of s j key = None \<Longrightarrow> exp_of s j key = None" "val_of s j key = Some v \<Longrightarrow> obj_ok v"
    by (auto simp: ranI)
  show "\<not> crashed s" by (rule nc)
qed

lemma db_ok_crash [simp]: "db_ok s \<Longrightarrow> \<not> crashed s"
  by (simp add: db_ok_def)

lemma db_ok_update:
  assumes ok: "db_ok s" and j: "okdb s j" and ctx: "ctx s' = ctx s"
    and val: "val_of s' = (val_of s)(j := m)" and exp: "exp_of s' = (exp_of s)(j := e)"
    and m: "\<And>k. m k = None \<Longrightarrow> e k = None" "\<And>k v. m k = Some v \<Longrightarrow> obj_ok v"
    and slots: "cluster_enabled s \<Longrightarrow> slots_to_keys s' = slot_index m" and "\<not> crashed s'"
  shows "db_ok s'"
proof -
  have c: "length (dbs s') = length (dbs s)" "cluster_enabled s' = cluster_enabled s"
    by (rule ctxD[OF ctx])+
  have "dom e \<subseteq> dom m" "\<forall>v \<in> ran m. obj_ok v" using m by (fastforce simp: ran_def)+
  then show ?thesis
    using ok j slots \<open>\<not> crashed s'\<close> unfolding db_ok_def okdb_def c val exp by auto
qed

lemma db_ok_cong:
  assumes "ctx s' = ctx s" "val_of s' = val_of s" "exp_of s' = exp_of s" "slots_to_keys s' = slots_to_keys s"
    "crashed s' = crashed s"
  shows "db_ok s' = db_ok s"
  by (simp add: db_ok_def assms(2-5) ctxD(1)[OF assms(1)] ctxD(4)[OF assms(1)])

lemma db_ok_reply [simp]:
  "db_ok (addReply c r s) = db_ok s" "db_ok (addReplies c rs s) = db_ok s"
  "db_ok (notifyKeyspaceEvent cls ev key j s) = db_ok s" "db_ok (s\<lparr>dirty := n\<rparr>) = db_ok s"
  "db_ok (s\<lparr>clk_reads := n'\<rparr>) = db_ok s" "db_ok (touchWatchedKey j key s) = db_ok s"
  "db_ok (signalModifiedKey j key s) = db_ok s"
  by (rule db_ok_cong; simp add: signalModifiedKey_def)+

lemma upd_client_ok [simp]:
  "val_of (upd_client c f s) = val_of s" "exp_of (upd_client c f s) = exp_of s" "db_ok (upd_client c f s) = db_ok s"
  "okdb (upd_client c f s) j = okdb s j"
  by (simp_all add: val_of_def exp_of_def fun_eq_iff db_ok_def okdb_def)

lemma slot_index_simps:
  "insert (keyHashSlot key, key) (slot_index m) = slot_index (m(key \<mapsto> v))"
  "slot_index (forget key m) = slot_index m - {(keyHashSlot key, key)}"
  "m key \<noteq> None \<Longrightarrow> slot_index (m(key \<mapsto> v)) = slot_index m"
  "m key = None \<Longrightarrow> slot_index m - {(keyHashSlot key, key)} = slot_index m"
  by (auto simp: slot_index_def image_iff)

lemma db_ok_slots: "db_ok s \<Longrightarrow> okdb s j \<Longrightarrow> cluster_enabled s \<Longrightarrow> slots_to_keys s = slot_index (val_of s j)"
  by (simp add: db_ok_def okdb_def)

lemma slot_kept_index: "db_ok s \<Longrightarrow> okdb s j \<Longrightarrow> cluster_enabled s \<Longrightarrow> slot_kept s j key = slot_index (kept s j key)"
  by (auto simp: slot_kept_def kept_def db_ok_slots slot_index_simps)

lemma kept_ok:
  assumes "db_ok s" "okdb s j"
  shows "kept s j key k = None \<Longrightarrow> kept_exp s j key k = None" "kept s j key k = Some v \<Longrightarrow> obj_ok v"
  using db_okD(2,3)[OF assms(1) okdb_less[OF assms(2)]] by (auto simp: kept_def kept_exp_def split: if_splits)

lemma db_ok_lookup [simp]:
  assumes "db_ok s" "okdb s j"
  shows "db_ok (fst (lookupKeyWrite j key s))" "db_ok (fst (lookupKeyRead j key s))"
    "db_ok (fst (expireIfNeeded j key s))"
proof -
  note c = okdb_less[OF assms(2)] db_okD(1,2)[OF assms(1) okdb_less[OF assms(2)]]
  show "db_ok (fst (lookupKeyWrite j key s))"
    by (rule db_ok_update[OF assms, where m = "kept s j key" and e = "kept_exp s j key"])
      (use c kept_ok[OF assms] slot_kept_index[OF assms] in auto)
  show "db_ok (fst (lookupKeyRead j key s))"
    by (rule db_ok_update[OF assms, where m = "kept s j key" and e = "kept_exp s j key"])
      (use c kept_ok[OF assms] slot_kept_index[OF assms] in auto)
  show "db_ok (fst (expireIfNeeded j key s))"
    by (rule db_ok_update[OF assms, where m = "kept s j key" and e = "kept_exp s j key"])
      (use c kept_ok[OF assms] slot_kept_index[OF assms] expireIfNeeded_kept[OF c(1), of key]
        in \<open>auto simp: slot_kept_def\<close>)
qed

lemma okdb_fields [simp]:
  "okdb (fst (lookupKeyWrite j key s)) i = okdb s i" "okdb (fst (lookupKeyRead j key s)) i = okdb s i"
  "okdb (fst (expireIfNeeded j key s)) i = okdb s i" "okdb (dbAdd j key v s) i = okdb s i"
  "okdb (dbOverwrite j key v s) i = okdb s i" "okdb (setKey j key v s) i = okdb s i"
  "okdb (fst (dbDelete j key s)) i = okdb s i" "okdb (setExpire j key when s) i = okdb s i"
  "okdb (fst (removeExpire j key s)) i = okdb s i" "okdb (snd (getExpire j key s)) i = okdb s i"
  "okdb (addReply c r s) i = okdb s i" "okdb (addReplies c rs s) i = okdb s i"
  "okdb (notifyKeyspaceEvent cls ev key j s) i = okdb s i" "okdb (touchWatchedKey j key s) i = okdb s i"
  "okdb (s\<lparr>dirty := n\<rparr>) i = okdb s i" "okdb (s\<lparr>clk_reads := n'\<rparr>) i = okdb s i"
  "okdb (fst (dbUnshareStringValue j key ob s)) i = okdb s i"
  "okdb (upd_db j (\<lambda>d. d\<lparr>kv := f d\<rparr>) s) i = okdb s i"
  by (rule okdb_ctx; simp)+

lemma db_ok_getExpire [simp]: "db_ok s \<Longrightarrow> okdb s j \<Longrightarrow> db_ok (snd (getExpire j key s))"
  by (subst db_ok_cong[of _ s]) (auto dest: db_okD(1,2)[OF _ okdb_less])

lemma db_ok_removeExpire [simp]:
  assumes "db_ok s" "okdb s j" "val_of s j key \<noteq> None"
  shows "db_ok (fst (removeExpire j key s))"
  by (rule db_ok_update[OF assms(1,2), where m = "val_of s j" and e = "forget key (exp_of s j)"])
    (use okdb_less[OF assms(2)] assms db_okD[OF assms(1) okdb_less[OF assms(2)]] db_ok_slots[OF assms(1,2)]
      in \<open>auto simp: forget_def split: if_splits\<close>)

lemma db_ok_setExpire [simp]:
  assumes "db_ok s" "okdb s j" "val_of s j key \<noteq> None"
  shows "db_ok (setExpire j key when s)"
  by (rule db_ok_update[OF assms(1,2), where m = "val_of s j" and e = "(exp_of s j)(key \<mapsto> when)"])
    (use okdb_less[OF assms(2)] assms db_okD[OF assms(1) okdb_less[OF assms(2)]] db_ok_slots[OF assms(1,2)]
      in \<open>auto split: if_splits\<close>)

lemma db_ok_dbDelete [simp]:
  assumes "db_ok s" "okdb s j"
  shows "db_ok (fst (dbDelete j key s))"
  by (rule db_ok_update[OF assms, where m = "forget key (val_of s j)" and e = "forget key (exp_of s j)"])
    (use okdb_less[OF assms(2)] assms db_okD[OF assms(1) okdb_less[OF assms(2)]] db_ok_slots[OF assms(1,2)]
      in \<open>auto simp: slot_index_simps simp flip: forget_def split: if_splits\<close>)

lemma db_ok_dbAdd [simp]:
  assumes "db_ok s" "okdb s j" "val_of s j key = None" "obj_ok v"
  shows "db_ok (dbAdd j key v s)"
  by (rule db_ok_update[OF assms(1,2), where m = "(val_of s j)(key \<mapsto> v)" and e = "exp_of s j"])
    (use okdb_less[OF assms(2)] assms db_okD[OF assms(1) okdb_less[OF assms(2)]] db_ok_slots[OF assms(1,2)]
      in \<open>auto simp: slot_index_simps split: if_splits\<close>)

lemma db_ok_dbOverwrite [simp]:
  assumes "db_ok s" "okdb s j" "val_of s j key \<noteq> None" "obj_ok v"
  shows "db_ok (dbOverwrite j key v s)"
  by (rule db_ok_update[OF assms(1,2), where m = "(val_of s j)(key \<mapsto> v)" and e = "exp_of s j"])
    (use okdb_less[OF assms(2)] assms db_okD[OF assms(1) okdb_less[OF assms(2)]] db_ok_slots[OF assms(1,2)]
      in \<open>auto simp: slot_index_simps split: if_splits\<close>)

lemma db_ok_upd_val [simp]:
  assumes "db_ok s" "okdb s j" "val_of s j key \<noteq> None" "obj_ok v"
  shows "db_ok (upd_db j (\<lambda>d. d\<lparr>kv := (kv d)(key \<mapsto> v)\<rparr>) s)"
  by (rule db_ok_update[OF assms(1,2), where m = "(val_of s j)(key \<mapsto> v)" and e = "exp_of s j"])
    (use okdb_less[OF assms(2)] assms db_okD[OF assms(1) okdb_less[OF assms(2)]] db_ok_slots[OF assms(1,2)]
      in \<open>auto simp: slot_index_simps val_nth split: if_splits\<close>)

lemma db_ok_unshare [simp]:
  assumes "db_ok s" "okdb s j" "val_of s j key = Some (StrObj ob)"
  shows "db_ok (fst (dbUnshareStringValue j key ob s))"
  using assms by (simp add: dbUnshareStringValue_def Let_def split: strobj.split)

lemma db_ok_setKey [simp]:
  assumes "db_ok s" "okdb s j" "obj_ok v"
  shows "db_ok (setKey j key v s)"
  by (rule db_ok_update[OF assms(1,2), where m = "(val_of s j)(key \<mapsto> v)" and e = "forget key (exp_of s j)"])
    (use okdb_less[OF assms(2)] assms db_okD[OF assms(1) okdb_less[OF assms(2)]] slot_kept_index[OF assms(1,2)]
      in \<open>auto simp: slot_index_simps kept_def split: if_splits\<close>)

end
