(* ===== verification/CommandInv.thy ===== *)
theory CommandInv
  imports KeyspaceInv
begin

text \<open>
  Every command on keys and strings keeps the invariant of the dataset; in particular none of the
  assertions in the functions it calls can fail.
\<close>

declare okdb_less [simp]

lemma arg_obj_ok [simp]: "obj_ok (StrObj (arg_obj a))"
  using tryObjectEncoding_sound[of "createStringObject a"]
  by (simp add: createStringObject_def createEmbeddedStringObject_def createRawStringObject_def)

lemma long_obj_ok [simp]: "in_ll v \<Longrightarrow> strobj_ok (createStringObjectFromLongLong v)"
  by (simp add: createStringObjectFromLongLong_def)

section \<open>Parsing of arguments\<close>

lemma getLongLong_sel [simp]:
  "quiet (fst (getLongLongFromSdsOrReply c a m s)) = quiet s" "quiet (fst (getLongFromSdsOrReply c a m s)) = quiet s"
  "quiet (fst (checkStringLength c n s)) = quiet s"
  by (auto simp: getLongLongFromSdsOrReply_def getLongFromSdsOrReply_def checkStringLength_def
      split: option.split prod.split)

lemmas args_fields [simp] =
  quietD[OF getLongLong_sel(1)] quiet_clientD[OF getLongLong_sel(1)] quiet_ctx[OF getLongLong_sel(1)]
  quiet_vals[OF getLongLong_sel(1)]
  quietD[OF getLongLong_sel(2)] quiet_clientD[OF getLongLong_sel(2)] quiet_ctx[OF getLongLong_sel(2)]
  quiet_vals[OF getLongLong_sel(2)]
  quietD[OF getLongLong_sel(3)] quiet_clientD[OF getLongLong_sel(3)] quiet_ctx[OF getLongLong_sel(3)]
  quiet_vals[OF getLongLong_sel(3)]

lemma quiet_db_ok:
  assumes "quiet s = quiet t"
  shows "db_ok s = db_ok t" "okdb s j = okdb t j"
  by (rule db_ok_cong[OF quiet_ctx[OF assms] quiet_vals[OF assms] quietD(17,19)[OF assms]])
    (rule okdb_ctx[OF quiet_ctx[OF assms]])

lemmas args_ok [simp] = quiet_db_ok[OF getLongLong_sel(1)] quiet_db_ok[OF getLongLong_sel(2)]
  quiet_db_ok[OF getLongLong_sel(3)]

section \<open>String commands\<close>

lemma setGenericCommand_ok:
  "db_ok s \<Longrightarrow> okdb s (cdb (cl s c)) \<Longrightarrow> strobj_ok v \<Longrightarrow> db_ok (setGenericCommand c fl key v expire unit ok abort s)"
  by (simp add: setGenericCommand_def Let_def case_prod_beta split: option.split)

lemma getGenericCommand_ok:
  "db_ok s \<Longrightarrow> okdb s (cdb (cl s c)) \<Longrightarrow> db_ok (fst (getGenericCommand c s))"
  by (simp add: getGenericCommand_def lookupKeyReadOrReply_def Let_def case_prod_beta split: option.split robj.split)

lemma lookupReply_sel [simp]:
  assumes "j = cdb (cl s c)"
  shows "fst (lookupKeyReadOrReply c key r s) =
      (if snd (lookupKeyRead j key s) = None then addReply c r (fst (lookupKeyRead j key s)) else fst (lookupKeyRead j key s))"
    "snd (lookupKeyReadOrReply c key r s) = snd (lookupKeyRead j key s)"
    "fst (lookupKeyWriteOrReply c key r s) =
      (if snd (lookupKeyWrite j key s) = None then addReply c r (fst (lookupKeyWrite j key s)) else fst (lookupKeyWrite j key s))"
    "snd (lookupKeyWriteOrReply c key r s) = snd (lookupKeyWrite j key s)"
  by (simp_all add: lookupKeyReadOrReply_def lookupKeyWriteOrReply_def case_prod_beta assms)

lemma set_family_ok:
  assumes "db_ok s" "okdb s (cdb (cl s c))"
  shows "db_ok (setCommand c s)" "db_ok (setnxCommand c s)" "db_ok (setexCommand c s)" "db_ok (psetexCommand c s)"
    "db_ok (getCommand c s)"
  using assms arg_obj_ok
  by (simp_all add: setCommand_def setnxCommand_def setexCommand_def psetexCommand_def getCommand_def Let_def
      setGenericCommand_ok getGenericCommand_ok split: option.split)

lemma getGeneric_okdb [simp]:
  "okdb s j \<Longrightarrow> okdb (fst (getGenericCommand c s)) j" "cdb (cl (fst (getGenericCommand c s)) c) = cdb (cl s c)"
  by (simp_all add: getGenericCommand_def case_prod_beta split: option.split robj.split)

lemma getsetCommand_ok:
  "db_ok s \<Longrightarrow> okdb s (cdb (cl s c)) \<Longrightarrow> db_ok (getsetCommand c s)"
  using arg_obj_ok by (simp add: getsetCommand_def Let_def case_prod_beta getGenericCommand_ok split: bool.split)

lemma setrangeCommand_ok:
  "db_ok s \<Longrightarrow> okdb s (cdb (cl s c)) \<Longrightarrow> db_ok (setrangeCommand c s)"
  by (simp add: setrangeCommand_def Let_def case_prod_beta split: option.split robj.split bool.split)

lemma getrangeCommand_ok:
  "db_ok s \<Longrightarrow> okdb s (cdb (cl s c)) \<Longrightarrow> db_ok (getrangeCommand c s)"
  by (simp add: getrangeCommand_def Let_def case_prod_beta split: option.split robj.split bool.split)

lemma strlenCommand_ok:
  "db_ok s \<Longrightarrow> okdb s (cdb (cl s c)) \<Longrightarrow> db_ok (strlenCommand c s)"
  by (simp add: strlenCommand_def case_prod_beta split: option.split robj.split)

lemma appendCommand_ok:
  "db_ok s \<Longrightarrow> okdb s (cdb (cl s c)) \<Longrightarrow> db_ok (appendCommand c s)"
  using arg_obj_ok by (simp add: appendCommand_def Let_def case_prod_beta split: option.split robj.split bool.split)

lemma incrDecrCommand_ok:
  "db_ok s \<Longrightarrow> okdb s (cdb (cl s c)) \<Longrightarrow> db_ok (incrDecrCommand c incr s)"
  using s64_range by (simp add: incrDecrCommand_def Let_def case_prod_beta split: option.split robj.split)

lemma incr_family_ok:
  assumes "db_ok s" "okdb s (cdb (cl s c))"
  shows "db_ok (incrCommand c s)" "db_ok (decrCommand c s)" "db_ok (incrbyCommand c s)" "db_ok (decrbyCommand c s)"
  using assms
  by (simp_all add: incrCommand_def decrCommand_def incrbyCommand_def decrbyCommand_def incrDecrCommand_ok case_prod_beta
      split: option.split)

text \<open>A command that goes through its arguments keeps what one step keeps.\<close>

lemma fold_keeps:
  assumes "P s" "\<And>x s. P s \<Longrightarrow> P (f x s)"
  shows "P (fold f xs s)"
  using assms(1) by (induction xs arbitrary: s) (simp_all add: assms(2))

abbreviation good :: "server \<Rightarrow> nat \<Rightarrow> bool" where
  "good s j \<equiv> db_ok s \<and> okdb s j"

lemma mget_one_ok: "good s j \<and> cdb (cl s c) = j \<Longrightarrow> good (mget_one c key s) j \<and> cdb (cl (mget_one c key s) c) = j"
  by (simp add: mget_one_def case_prod_beta split: option.split robj.split)

lemma mgetCommand_ok: "db_ok s \<Longrightarrow> okdb s (cdb (cl s c)) \<Longrightarrow> db_ok (mgetCommand c s)"
  using fold_keeps[where P = "\<lambda>t. good t (cdb (cl s c)) \<and> cdb (cl t c) = cdb (cl s c)" and f = "mget_one c", OF _ mget_one_ok]
  by (simp add: mgetCommand_def)

lemma busy_one_ok: "good (fst sn) j \<Longrightarrow> good (fst (busy_one j key sn)) j"
  by (simp add: busy_one_def Let_def case_prod_beta)

lemma mset_one_ok: "good s j \<Longrightarrow> good (mset_one j p s) j"
  using arg_obj_ok by (simp add: mset_one_def)

lemma msetGenericCommand_ok: "db_ok s \<Longrightarrow> okdb s (cdb (cl s c)) \<Longrightarrow> db_ok (msetGenericCommand c nx s)"
  using fold_keeps[where P = "\<lambda>t. good (fst t) (cdb (cl s c))" and f = "busy_one (cdb (cl s c))", OF _ busy_one_ok]
    fold_keeps[where P = "\<lambda>t. good t (cdb (cl s c))" and f = "mset_one (cdb (cl s c))", OF _ mset_one_ok]
  by (simp add: msetGenericCommand_def Let_def case_prod_beta)

section \<open>Commands on keys\<close>

lemma del_one_ok: "good (fst sn) j \<Longrightarrow> good (fst (del_one j key sn)) j"
  by (simp add: del_one_def Let_def case_prod_beta signalModifiedKey_def)

lemma delCommand_ok: "db_ok s \<Longrightarrow> okdb s (cdb (cl s c)) \<Longrightarrow> db_ok (delCommand c s)"
  using fold_keeps[where P = "\<lambda>t. good (fst t) (cdb (cl s c))" and f = "del_one (cdb (cl s c))", OF _ del_one_ok]
  by (simp add: delCommand_def Let_def case_prod_beta)

lemma exists_one_ok: "good (fst sn) j \<Longrightarrow> good (fst (exists_one j key sn)) j"
  by (simp add: exists_one_def Let_def case_prod_beta)

lemma existsCommand_ok: "db_ok s \<Longrightarrow> okdb s (cdb (cl s c)) \<Longrightarrow> db_ok (existsCommand c s)"
  using fold_keeps[where P = "\<lambda>t. good (fst t) (cdb (cl s c))" and f = "exists_one (cdb (cl s c))", OF _ exists_one_ok]
  by (simp add: existsCommand_def Let_def case_prod_beta)

lemma keys_one_ok: "good (fst sn) j \<Longrightarrow> good (fst (keys_one j m key sn)) j"
  by (simp add: keys_one_def Let_def case_prod_beta split: bool.split)

lemma keysCommand_ok: "db_ok s \<Longrightarrow> okdb s (cdb (cl s c)) \<Longrightarrow> db_ok (keysCommand c visit s)"
  using fold_keeps[where P = "\<lambda>t. good (fst t) (cdb (cl s c))" and f = "keys_one (cdb (cl s c)) m" for m, OF _ keys_one_ok]
  by (simp add: keysCommand_def Let_def case_prod_beta)

lemma dbRandomKey_ok: "good s j \<Longrightarrow> dbRandomKey j picks s = Some (s', k) \<Longrightarrow> good s' j"
proof (induction picks arbitrary: s)
  case (Cons p picks)
  note IH = Cons.IH and prems = Cons.prems
  show ?case
  proof (cases p)
    case (Some key)
    show ?thesis
    proof (cases "expires (the_db s j) key \<noteq> None \<and> snd (expireIfNeeded j key s)")
      case True
      with prems Some have "dbRandomKey j picks (fst (expireIfNeeded j key s)) = Some (s', k)"
        by (auto simp: case_prod_beta)
      moreover have "good (fst (expireIfNeeded j key s)) j" using prems(1) by simp
      ultimately show ?thesis by (rule IH[rotated])
    next
      case False
      with prems Some have "s' = s \<or> s' = fst (expireIfNeeded j key s)"
        by (auto simp: case_prod_beta split: if_splits)
      with prems(1) show ?thesis by auto
    qed
  qed (use prems in auto)
qed simp

lemma randomkeyCommand_ok: "db_ok s \<Longrightarrow> okdb s (cdb (cl s c)) \<Longrightarrow> randomkeyCommand c picks s = Some s' \<Longrightarrow> db_ok s'"
  using dbRandomKey_ok[of s "cdb (cl s c)" picks] by (auto simp: randomkeyCommand_def split: option.splits)

lemma selectCommand_ok: "db_ok s \<Longrightarrow> db_ok (selectCommand c s)"
  by (simp add: selectCommand_def selectDb_def case_prod_beta split: option.split bool.split)

lemma typeCommand_ok: "db_ok s \<Longrightarrow> okdb s (cdb (cl s c)) \<Longrightarrow> db_ok (typeCommand c s)"
  by (simp add: typeCommand_def Let_def case_prod_beta)

lemma renameGenericCommand_ok: "db_ok s \<Longrightarrow> okdb s (cdb (cl s c)) \<Longrightarrow> db_ok (renameGenericCommand c nx s)"
  using kept_ok(2)[of s "cdb (cl s c)" "argv s c ! Suc 0" "argv s c ! Suc 0"]
  by (simp add: renameGenericCommand_def Let_def case_prod_beta signalModifiedKey_def split: option.split)

lemma okdb_nat: "\<not> cluster_enabled s \<Longrightarrow> 0 \<le> x \<Longrightarrow> x < int (length (dbs s)) \<Longrightarrow> okdb s (nat x)"
  by (simp add: okdb_def nat_less_iff)

lemma moveCommand_ok: "db_ok s \<Longrightarrow> okdb s (cdb (cl s c)) \<Longrightarrow> db_ok (moveCommand c s)"
  using kept_ok(2)[of s "cdb (cl s c)" "argv s c ! Suc 0" "argv s c ! Suc 0"]
  by (simp add: moveCommand_def Let_def case_prod_beta okdb_nat split: option.split)

lemma expireGenericCommand_ok: "db_ok s \<Longrightarrow> okdb s (cdb (cl s c)) \<Longrightarrow> db_ok (expireGenericCommand c b u s)"
  by (simp add: expireGenericCommand_def Let_def case_prod_beta split: option.split)

lemma ttlGenericCommand_ok: "db_ok s \<Longrightarrow> okdb s (cdb (cl s c)) \<Longrightarrow> db_ok (ttlGenericCommand c ms s)"
  by (simp add: ttlGenericCommand_def Let_def case_prod_beta split: option.split)

lemma persistCommand_ok: "db_ok s \<Longrightarrow> okdb s (cdb (cl s c)) \<Longrightarrow> db_ok (persistCommand c s)"
  by (simp add: persistCommand_def Let_def case_prod_beta val_nth split: option.split bool.split)

section \<open>Flushing\<close>

lemma flag_sel [simp]:
  "ctx (flag_dirty_cas c s) = ctx s" "dbs (flag_dirty_cas c s) = dbs s" "slots_to_keys (flag_dirty_cas c s) = slots_to_keys s"
  "crashed (flag_dirty_cas c s) = crashed s" "db_ok (flag_dirty_cas c s) = db_ok s" "clients (flag_dirty_cas c s) = clients s"
  "wkeys (cl (flag_dirty_cas c s) d) = wkeys (cl s d)"
  "f_dirty_cas (cl (flag_dirty_cas c s) d) \<longleftrightarrow> f_dirty_cas (cl s d) \<or> d = c"
  by (auto simp: flag_dirty_cas_def ctx_def upd_client_def fun_eq_iff) (simp_all flip: upd_client_def)

definition flush_hits :: "nat option \<Rightarrow> server \<Rightarrow> nat \<times> string \<Rightarrow> bool" where
  \<comment> \<open>a watched key that a flush touches\<close>
  "flush_hits dbid s wk \<longleftrightarrow> (dbid = None \<or> dbid = Some (fst wk)) \<and> val_of s (fst wk) (snd wk) \<noteq> None"

lemma fold_if_once:
  assumes "\<And>x t. P x (g t) = P x t" "\<And>t. g (g t) = g t"
  shows "fold (\<lambda>x t. if P x t then g t else t) xs s = (if \<exists>x \<in> set xs. P x s then g s else s)"
proof (induction xs arbitrary: s)
  case (Cons x xs)
  then show ?case by (simp add: assms)
qed simp

definition flag_if :: "nat option \<Rightarrow> nat \<Rightarrow> server \<Rightarrow> server" where
  "flag_if dbid c s = (if \<exists>wk \<in> set (wkeys (cl s c)). flush_hits dbid s wk then flag_dirty_cas c s else s)"

lemma flag_val [simp]: "val_of (flag_dirty_cas c s) = val_of s"
  by (simp add: val_of_def fun_eq_iff)

lemma touchFlush_eq: "touchWatchedKeysOnFlush dbid s = fold (flag_if dbid) (clients s) s"
proof -
  have step: "(\<lambda>(d, k) t. if (dbid = None \<or> dbid = Some d) \<and> kv (the_db t d) k \<noteq> None then flag_dirty_cas c t else t) =
      (\<lambda>wk t. if flush_hits dbid t wk then flag_dirty_cas c t else t)" for c
    by (auto simp: fun_eq_iff flush_hits_def val_of_def)
  have "flag_dirty_cas c (flag_dirty_cas c t) = flag_dirty_cas c t" for c t
    by (simp add: flag_dirty_cas_def upd_client_def)
  then have "fold (\<lambda>wk t. if flush_hits dbid t wk then flag_dirty_cas c t else t) (wkeys (cl t c)) t = flag_if dbid c t" for c t
    unfolding flag_if_def by (subst fold_if_once) (simp_all add: flush_hits_def)
  then show ?thesis unfolding touchWatchedKeysOnFlush_def step by simp
qed

lemma flag_if_sel [simp]:
  "ctx (flag_if dbid c s) = ctx s" "dbs (flag_if dbid c s) = dbs s" "val_of (flag_if dbid c s) = val_of s"
  "slots_to_keys (flag_if dbid c s) = slots_to_keys s" "crashed (flag_if dbid c s) = crashed s"
  "wkeys (cl (flag_if dbid c s) d) = wkeys (cl s d)"
  "f_dirty_cas (cl (flag_if dbid c s) d) \<longleftrightarrow>
     f_dirty_cas (cl s d) \<or> (d = c \<and> (\<exists>wk \<in> set (wkeys (cl s d)). flush_hits dbid s wk))"
  by (auto simp: flag_if_def)

lemma flush_flags:
  "ctx (fold (flag_if dbid) cs s) = ctx s \<and> dbs (fold (flag_if dbid) cs s) = dbs s \<and>
   slots_to_keys (fold (flag_if dbid) cs s) = slots_to_keys s \<and> crashed (fold (flag_if dbid) cs s) = crashed s \<and>
   (f_dirty_cas (cl (fold (flag_if dbid) cs s) d) \<longleftrightarrow>
     f_dirty_cas (cl s d) \<or> (d \<in> set cs \<and> (\<exists>wk \<in> set (wkeys (cl s d)). flush_hits dbid s wk)))"
  by (induction cs arbitrary: s) (auto simp: flush_hits_def)

lemma touchFlush_sel [simp]:
  "ctx (touchWatchedKeysOnFlush dbid s) = ctx s" "dbs (touchWatchedKeysOnFlush dbid s) = dbs s"
  "slots_to_keys (touchWatchedKeysOnFlush dbid s) = slots_to_keys s" "crashed (touchWatchedKeysOnFlush dbid s) = crashed s"
  "f_dirty_cas (cl (touchWatchedKeysOnFlush dbid s) c) \<longleftrightarrow> f_dirty_cas (cl s c) \<or>
     (c \<in> set (clients s) \<and> (\<exists>wk \<in> set (wkeys (cl s c)). flush_hits dbid s wk))"
  using flush_flags[of dbid "clients s" s] by (simp_all add: touchFlush_eq)

lemmas touchFlush_fields [simp] =
  ctxD[OF touchFlush_sel(1)] ctx_clientD[OF touchFlush_sel(1)] ctx_watchers[OF touchFlush_sel(1)]

lemma touchFlush_val [simp]:
  "val_of (touchWatchedKeysOnFlush dbid s) = val_of s" "exp_of (touchWatchedKeysOnFlush dbid s) = exp_of s"
  by (simp_all add: val_of_def exp_of_def fun_eq_iff)

lemma flushdbCommand_ok:
  assumes "db_ok s" "okdb s (cdb (cl s c))"
  shows "db_ok (flushdbCommand c s)"
proof -
  let ?j = "cdb (cl s c)"
  let ?t = "upd_db ?j empty_one (signalFlushedDb (Some ?j) (s\<lparr>dirty := dirty s + int (card (dom (kv (the_db s ?j))))\<rparr>))"
  have v: "val_of ?t = (val_of s)(?j := Map.empty)" "exp_of ?t = (exp_of s)(?j := Map.empty)"
    using assms(2) by (auto simp: val_of_def exp_of_def fun_eq_iff nth_list_update empty_one_def signalFlushedDb_def)
  have c: "ctx ?t = ctx s" by (subst ctx_upd_db) (simp_all add: empty_one_def signalFlushedDb_def)
  have "db_ok (if cluster_enabled ?t then slotToKeyFlush ?t else ?t)"
    by (rule db_ok_update[OF assms, where m = Map.empty and e = Map.empty])
      (use v c ctxD(4)[OF c] assms in \<open>auto simp: slot_index_def signalFlushedDb_def\<close>)
  then show ?thesis by (simp add: flushdbCommand_def Let_def)
qed

lemma emptyDb_ok:
  assumes "db_ok s"
  shows "db_ok (fst (emptyDb s))"
proof -
  have "val_of (fst (emptyDb s)) j = Map.empty" "exp_of (fst (emptyDb s)) j = Map.empty" if "j < length (dbs s)" for j
    using that by (simp_all add: emptyDb_def Let_def val_of_def exp_of_def empty_one_def)
  moreover have "length (dbs (fst (emptyDb s))) = length (dbs s)" "cluster_enabled (fst (emptyDb s)) = cluster_enabled s"
    "crashed (fst (emptyDb s)) = crashed s" "cluster_enabled s \<Longrightarrow> slots_to_keys (fst (emptyDb s)) = {}"
    by (simp_all add: emptyDb_def Let_def slotToKeyFlush_def)
  ultimately show ?thesis using assms by (auto simp: db_ok_def slot_index_def)
qed

lemma flushallCommand_ok: "db_ok s \<Longrightarrow> db_ok (flushallCommand c s)"
proof -
  assume "db_ok s"
  then have "db_ok (signalFlushedDb None s)"
    by (subst db_ok_cong[of _ s]) (simp_all add: signalFlushedDb_def)
  from emptyDb_ok[OF this] show ?thesis by (simp add: flushallCommand_def Let_def case_prod_beta)
qed

lemma dbsizeCommand_ok: "db_ok s \<Longrightarrow> db_ok (dbsizeCommand c s)"
  by (simp add: dbsizeCommand_def)

end
