(* ===== verification/TList.thy ===== *)
theory TList
  imports TString
begin

text \<open>
  Lists (\<open>src/redis-3.0/src/t_list.c\<close>) and blocked clients (\<open>blocked.c\<close>): the operations on list
  objects, the commands, the blocking of clients on keys and the serving of blocked clients. A
  list object is the sequence of the bytes of its elements with its encoding; the object of an
  element is the encoding of its bytes (\<open>arg_obj\<close>), as both encodings store integers in the same
  cases. \<open>crashed\<close> also records a use of a list object that has been freed.
\<close>

section \<open>List objects\<close>

datatype list_end = REDIS_HEAD | REDIS_TAIL

type_synonym list_obj = "list_encoding \<times> string list"

definition listTypeTryConversion :: "server \<Rightarrow> list_encoding \<Rightarrow> strobj \<Rightarrow> list_encoding" where
  "listTypeTryConversion s enc v =
     (if enc \<noteq> ZIPLIST then enc
      else if sdsEncodedObject v \<and> length (str_bytes v) > list_max_ziplist_value s then LINKEDLIST
      else enc)"

definition listTypePush :: "server \<Rightarrow> list_obj \<Rightarrow> strobj \<Rightarrow> list_end \<Rightarrow> list_obj" where
  "listTypePush s ob v wh =
     (let (enc, xs) = ob;
          enc = listTypeTryConversion s enc v;
          enc = (if enc = ZIPLIST \<and> length xs \<ge> list_max_ziplist_entries s then LINKEDLIST else enc)
      in (enc, if wh = REDIS_HEAD then str_bytes v # xs else xs @ [str_bytes v]))"

definition listTypePop :: "list_obj \<Rightarrow> list_end \<Rightarrow> (strobj \<times> list_obj) option" where
  "listTypePop ob wh =
     (let (enc, xs) = ob in
      if xs = [] then None
      else if wh = REDIS_HEAD then Some (arg_obj (hd xs), enc, tl xs)
      else Some (arg_obj (last xs), enc, butlast xs))"

definition list_index :: "int \<Rightarrow> string list \<Rightarrow> nat option" where
  \<comment> \<open>\<open>ziplistIndex\<close> and \<open>listIndex\<close>: negative indexes count from the tail\<close>
  "list_index i xs =
     (if 0 \<le> i then (if nat i < length xs then Some (nat i) else None)
      else (if nat (- i) \<le> length xs then Some (length xs - nat (- i)) else None))"

fun seek :: "string \<Rightarrow> string list \<Rightarrow> nat option" where
  \<comment> \<open>the position of the first element equal to a string\<close>
  "seek v [] = None"
| "seek v (x # xs) = (if x = v then Some 0 else map_option Suc (seek v xs))"

definition listTypeInsert :: "string list \<Rightarrow> nat \<Rightarrow> string \<Rightarrow> list_end \<Rightarrow> string list" where
  "listTypeInsert xs i v wh =
     (if wh = REDIS_TAIL then take (i + 1) xs @ v # drop (i + 1) xs else take i xs @ v # drop i xs)"

fun lrem_loop :: "string \<Rightarrow> int \<Rightarrow> int \<Rightarrow> string list \<Rightarrow> string list \<times> int" where
  \<comment> \<open>the loop of \<open>LREM\<close> from the head: the elements kept and the number removed\<close>
  "lrem_loop v toremove removed [] = ([], removed)"
| "lrem_loop v toremove removed (x # xs) =
     (if x = v then
        (if toremove \<noteq> 0 \<and> removed + 1 = toremove then (xs, removed + 1)
         else lrem_loop v toremove (removed + 1) xs)
      else (let (ys, n) = lrem_loop v toremove removed xs in (x # ys, n)))"

abbreviation upd_list :: "nat \<Rightarrow> string \<Rightarrow> list_obj \<Rightarrow> server \<Rightarrow> server" where
  \<comment> \<open>a change of the list object that a key holds\<close>
  "upd_list j key ob \<equiv> upd_db j (\<lambda>d. d\<lparr>kv := (kv d)(key \<mapsto> ListObj (fst ob) (snd ob))\<rparr>)"

section \<open>Pushing\<close>

definition push_event :: "list_end \<Rightarrow> string" where
  "push_event wh = (if wh = REDIS_HEAD then ''lpush'' else ''rpush'')"

definition push_one :: "nat \<Rightarrow> string \<Rightarrow> list_end \<Rightarrow> string \<Rightarrow> server \<Rightarrow> server" where
  \<comment> \<open>one round of the loop of \<open>pushGenericCommand\<close>; the key holds a list, if anything\<close>
  "push_one j key wh a s =
     (let s = (if kv (the_db s j) key = None then dbAdd j key (ListObj ZIPLIST []) s else s)
      in case kv (the_db s j) key of
           Some (ListObj enc xs) \<Rightarrow> upd_list j key (listTypePush s (enc, xs) (arg_obj a) wh) s
         | _ \<Rightarrow> s)"

definition list_length :: "nat \<Rightarrow> string \<Rightarrow> server \<Rightarrow> nat" where
  "list_length j key s = (case kv (the_db s j) key of Some (ListObj _ xs) \<Rightarrow> length xs | _ \<Rightarrow> 0)"

definition pushGenericCommand :: "nat \<Rightarrow> list_end \<Rightarrow> server \<Rightarrow> server" where
  "pushGenericCommand c wh s =
     (let j = cdb (cl s c); key = argv s c ! 1; vals = drop 2 (argv s c) in
      case lookupKeyWrite j key s of
        (s, lobj) \<Rightarrow>
          if lobj \<noteq> None \<and> \<not> is_list (the lobj) then addReply c wrongtypeerr s
          else
            let s = fold (push_one j key wh) vals s;
                s = addReply c (RInt (int (list_length j key s))) s;
                s = (if vals \<noteq> [] then
                       notifyKeyspaceEvent REDIS_NOTIFY_LIST (push_event wh) key j (signalModifiedKey j key s)
                     else s)
            in s\<lparr>dirty := dirty s + int (length vals)\<rparr>)"

definition lpushCommand :: "nat \<Rightarrow> server \<Rightarrow> server" where
  "lpushCommand c s = pushGenericCommand c REDIS_HEAD s"

definition rpushCommand :: "nat \<Rightarrow> server \<Rightarrow> server" where
  "rpushCommand c s = pushGenericCommand c REDIS_TAIL s"

definition pushxGenericCommand :: "nat \<Rightarrow> string option \<Rightarrow> strobj \<Rightarrow> list_end \<Rightarrow> server \<Rightarrow> server" where
  "pushxGenericCommand c refval val wh s =
     (let j = cdb (cl s c); key = argv s c ! 1 in
      case lookupKeyReadOrReply c key shared_czero s of
        (s, None) \<Rightarrow> s
      | (s, Some (ListObj enc xs)) \<Rightarrow>
          (case refval of
             Some rv \<Rightarrow>
               let enc = listTypeTryConversion s enc val in
               (case seek rv xs of
                  None \<Rightarrow> addReply c (RInt (-1)) (upd_list j key (enc, xs) s)
                | Some i \<Rightarrow>
                    let xs = listTypeInsert xs i (str_bytes val) wh;
                        enc = (if enc = ZIPLIST \<and> length xs > list_max_ziplist_entries s then LINKEDLIST else enc);
                        s = upd_list j key (enc, xs) s;
                        s = signalModifiedKey j key s;
                        s = notifyKeyspaceEvent REDIS_NOTIFY_LIST ''linsert'' key j s;
                        s = s\<lparr>dirty := dirty s + 1\<rparr>
                    in addReply c (RInt (int (length xs))) s)
           | None \<Rightarrow>
               let ob = listTypePush s (enc, xs) val wh;
                   s = upd_list j key ob s;
                   s = signalModifiedKey j key s;
                   s = notifyKeyspaceEvent REDIS_NOTIFY_LIST (push_event wh) key j s;
                   s = s\<lparr>dirty := dirty s + 1\<rparr>
               in addReply c (RInt (int (length (snd ob)))) s)
      | (s, Some _) \<Rightarrow> addReply c wrongtypeerr s)"

definition lpushxCommand :: "nat \<Rightarrow> server \<Rightarrow> server" where
  "lpushxCommand c s = pushxGenericCommand c None (arg_obj (argv s c ! 2)) REDIS_HEAD s"

definition rpushxCommand :: "nat \<Rightarrow> server \<Rightarrow> server" where
  "rpushxCommand c s = pushxGenericCommand c None (arg_obj (argv s c ! 2)) REDIS_TAIL s"

definition linsertCommand :: "nat \<Rightarrow> server \<Rightarrow> server" where
  "linsertCommand c s =
     (let av = argv s c in
      if eq_nocase_str (av ! 2) ''after'' then
        pushxGenericCommand c (Some (av ! 3)) (arg_obj (av ! 4)) REDIS_TAIL s
      else if eq_nocase_str (av ! 2) ''before'' then
        pushxGenericCommand c (Some (av ! 3)) (arg_obj (av ! 4)) REDIS_HEAD s
      else addReply c syntaxerr s)"

section \<open>Reading\<close>

definition llenCommand :: "nat \<Rightarrow> server \<Rightarrow> server" where
  "llenCommand c s =
     (case lookupKeyReadOrReply c (argv s c ! 1) shared_czero s of
        (s, None) \<Rightarrow> s
      | (s, Some (ListObj _ xs)) \<Rightarrow> addReply c (RInt (int (length xs))) s
      | (s, Some _) \<Rightarrow> addReply c wrongtypeerr s)"

definition lindexCommand :: "nat \<Rightarrow> server \<Rightarrow> server" where
  \<comment> \<open>the index into a ziplist is cut to 32 bits\<close>
  "lindexCommand c s =
     (case lookupKeyReadOrReply c (argv s c ! 1) RNullBulk s of
        (s, None) \<Rightarrow> s
      | (s, Some (ListObj enc xs)) \<Rightarrow>
          (case getLongFromSdsOrReply c (argv s c ! 2) None s of
             (s, None) \<Rightarrow> s
           | (s, Some index) \<Rightarrow>
               (case list_index (if enc = ZIPLIST then s32 index else index) xs of
                  Some i \<Rightarrow> addReply c (RBulk (xs ! i)) s
                | None \<Rightarrow> addReply c RNullBulk s))
      | (s, Some _) \<Rightarrow> addReply c wrongtypeerr s)"

definition list_bounds :: "int \<Rightarrow> int \<Rightarrow> int \<Rightarrow> (int \<times> int) option" where
  \<comment> \<open>the conversion of the indexes of \<open>LRANGE\<close> and \<open>LTRIM\<close>; \<open>None\<close> is an empty range\<close>
  "list_bounds start stop llen =
     (let start = (if start < 0 then s64 (llen + start) else start);
          stop = (if stop < 0 then s64 (llen + stop) else stop);
          start = (if start < 0 then 0 else start)
      in if start > stop \<or> start \<ge> llen then None
         else Some (start, if stop \<ge> llen then llen - 1 else stop))"

definition lrangeCommand :: "nat \<Rightarrow> server \<Rightarrow> server" where
  "lrangeCommand c s =
     (case getLongFromSdsOrReply c (argv s c ! 2) None s of
        (s, None) \<Rightarrow> s
      | (s, Some start) \<Rightarrow>
          case getLongFromSdsOrReply c (argv s c ! 3) None s of
            (s, None) \<Rightarrow> s
          | (s, Some stop) \<Rightarrow>
              case lookupKeyReadOrReply c (argv s c ! 1) (RMulti 0) s of
                (s, None) \<Rightarrow> s
              | (s, Some (ListObj _ xs)) \<Rightarrow>
                  (case list_bounds start stop (int (length xs)) of
                     None \<Rightarrow> addReply c (RMulti 0) s
                   | Some (from, till) \<Rightarrow>
                       let n = nat (till - from + 1)
                       in addReplies c (RMulti (int n) # map RBulk (take n (drop (nat from) xs))) s)
              | (s, Some _) \<Rightarrow> addReply c wrongtypeerr s)"

definition ltrimCommand :: "nat \<Rightarrow> server \<Rightarrow> server" where
  "ltrimCommand c s =
     (let j = cdb (cl s c); key = argv s c ! 1 in
      case getLongFromSdsOrReply c (argv s c ! 2) None s of
        (s, None) \<Rightarrow> s
      | (s, Some start) \<Rightarrow>
          case getLongFromSdsOrReply c (argv s c ! 3) None s of
            (s, None) \<Rightarrow> s
          | (s, Some stop) \<Rightarrow>
              case lookupKeyWriteOrReply c key shared_ok s of
                (s, None) \<Rightarrow> s
              | (s, Some (ListObj enc xs)) \<Rightarrow>
                  let (ltrim, rtrim) =
                        (case list_bounds start stop (int (length xs)) of
                           None \<Rightarrow> (length xs, 0)
                         | Some (from, till) \<Rightarrow> (nat from, nat (int (length xs) - till - 1)));
                      xs = take (length xs - ltrim - rtrim) (drop ltrim xs);
                      s = upd_list j key (enc, xs) s;
                      s = notifyKeyspaceEvent REDIS_NOTIFY_LIST ''ltrim'' key j s;
                      s = (if xs = [] then
                             notifyKeyspaceEvent REDIS_NOTIFY_GENERIC ''del'' key j (fst (dbDelete j key s))
                           else s);
                      s = signalModifiedKey j key s;
                      s = s\<lparr>dirty := dirty s + 1\<rparr>
                  in addReply c shared_ok s
              | (s, Some _) \<Rightarrow> addReply c wrongtypeerr s)"

section \<open>Writing and removing\<close>

definition lsetCommand :: "nat \<Rightarrow> server \<Rightarrow> server" where
  \<comment> \<open>the index is cut to 32 bits\<close>
  "lsetCommand c s =
     (let j = cdb (cl s c); key = argv s c ! 1; val = argv s c ! 3 in
      case lookupKeyWriteOrReply c key nokeyerr s of
        (s, None) \<Rightarrow> s
      | (s, Some (ListObj enc xs)) \<Rightarrow>
          (case getLongFromSdsOrReply c (argv s c ! 2) None s of
             (s, None) \<Rightarrow> s
           | (s, Some index) \<Rightarrow>
               let enc = listTypeTryConversion s enc (arg_obj val) in
               (case list_index (s32 index) xs of
                  None \<Rightarrow> addReply c outofrangeerr (upd_list j key (enc, xs) s)
                | Some i \<Rightarrow>
                    let s = upd_list j key (enc, xs[i := val]) s;
                        s = addReply c shared_ok s;
                        s = signalModifiedKey j key s;
                        s = notifyKeyspaceEvent REDIS_NOTIFY_LIST ''lset'' key j s
                    in s\<lparr>dirty := dirty s + 1\<rparr>))
      | (s, Some _) \<Rightarrow> addReply c wrongtypeerr s)"

definition pop_event :: "list_end \<Rightarrow> string" where
  "pop_event wh = (if wh = REDIS_HEAD then ''lpop'' else ''rpop'')"

definition popGenericCommand :: "nat \<Rightarrow> list_end \<Rightarrow> server \<Rightarrow> server" where
  "popGenericCommand c wh s =
     (let j = cdb (cl s c); key = argv s c ! 1 in
      case lookupKeyWriteOrReply c key RNullBulk s of
        (s, None) \<Rightarrow> s
      | (s, Some (ListObj enc xs)) \<Rightarrow>
          (case listTypePop (enc, xs) wh of
             None \<Rightarrow> addReply c RNullBulk s
           | Some (val, ob) \<Rightarrow>
               let s = upd_list j key ob s;
                   s = addReply c (RBulk (str_bytes val)) s;
                   s = notifyKeyspaceEvent REDIS_NOTIFY_LIST (pop_event wh) key j s;
                   s = (if snd ob = [] then
                          fst (dbDelete j key (notifyKeyspaceEvent REDIS_NOTIFY_GENERIC ''del'' key j s))
                        else s);
                   s = signalModifiedKey j key s
               in s\<lparr>dirty := dirty s + 1\<rparr>)
      | (s, Some _) \<Rightarrow> addReply c wrongtypeerr s)"

definition lpopCommand :: "nat \<Rightarrow> server \<Rightarrow> server" where
  "lpopCommand c s = popGenericCommand c REDIS_HEAD s"

definition rpopCommand :: "nat \<Rightarrow> server \<Rightarrow> server" where
  "rpopCommand c s = popGenericCommand c REDIS_TAIL s"

definition lremCommand :: "nat \<Rightarrow> server \<Rightarrow> server" where
  "lremCommand c s =
     (let j = cdb (cl s c); key = argv s c ! 1; val = argv s c ! 3 in
      case getLongFromSdsOrReply c (argv s c ! 2) None s of
        (s, None) \<Rightarrow> s
      | (s, Some toremove) \<Rightarrow>
          case lookupKeyWriteOrReply c key shared_czero s of
            (s, None) \<Rightarrow> s
          | (s, Some (ListObj enc xs)) \<Rightarrow>
              let (xs, removed) =
                    (if toremove < 0 then
                       (let (ys, n) = lrem_loop val (s64 (- toremove)) 0 (rev xs) in (rev ys, n))
                     else lrem_loop val toremove 0 xs);
                  s = upd_list j key (enc, xs) s;
                  s = s\<lparr>dirty := dirty s + removed\<rparr>;
                  s = (if xs = [] then fst (dbDelete j key s) else s);
                  s = addReply c (RInt removed) s
              in if removed \<noteq> 0 then signalModifiedKey j key s else s
          | (s, Some _) \<Rightarrow> addReply c wrongtypeerr s)"

definition rpoplpushHandlePush :: "nat \<Rightarrow> string \<Rightarrow> robj option \<Rightarrow> strobj \<Rightarrow> server \<Rightarrow> server" where
  \<comment> \<open>the object is a list, if any; it is read again, as the caller may have popped from it\<close>
  "rpoplpushHandlePush c dstkey dstobj val s =
     (let j = cdb (cl s c);
          s = (if dstobj = None then dbAdd j dstkey (ListObj ZIPLIST []) s else s);
          s = signalModifiedKey j dstkey s;
          s = (case kv (the_db s j) dstkey of
                 Some (ListObj enc xs) \<Rightarrow> upd_list j dstkey (listTypePush s (enc, xs) val REDIS_HEAD) s
               | _ \<Rightarrow> s);
          s = notifyKeyspaceEvent REDIS_NOTIFY_LIST ''lpush'' dstkey j s
      in addReply c (RBulk (str_bytes val)) s)"

definition rpoplpushCommand :: "nat \<Rightarrow> server \<Rightarrow> server" where
  \<comment> \<open>the source list is freed when the lookup of the destination expires it: it is the same key
     and the clock has passed its expire in between\<close>
  "rpoplpushCommand c s =
     (let j = cdb (cl s c); src = argv s c ! 1; dst = argv s c ! 2 in
      case lookupKeyWriteOrReply c src RNullBulk s of
        (s, None) \<Rightarrow> s
      | (s, Some (ListObj enc xs)) \<Rightarrow>
          if xs = [] then addReply c RNullBulk s
          else
            (case lookupKeyWrite j dst s of
               (s, dobj) \<Rightarrow>
                 if dobj \<noteq> None \<and> \<not> is_list (the dobj) then addReply c wrongtypeerr s
                 else if kv (the_db s j) src = None then redisAssert False s
                 else
                   case listTypePop (enc, xs) REDIS_TAIL of
                     None \<Rightarrow> s
                   | Some (val, ob) \<Rightarrow>
                       let s = upd_list j src ob s;
                           s = rpoplpushHandlePush c dst dobj val s;
                           s = notifyKeyspaceEvent REDIS_NOTIFY_LIST ''rpop'' src j s;
                           s = (if list_length j src s = 0 then
                                  notifyKeyspaceEvent REDIS_NOTIFY_GENERIC ''del'' src j (fst (dbDelete j src s))
                                else s);
                           s = signalModifiedKey j src s
                       in s\<lparr>dirty := dirty s + 1\<rparr>)
      | (s, Some _) \<Rightarrow> addReply c wrongtypeerr s)"

end
