(* ===== verification/Blocked.thy ===== *)
theory Blocked
  imports TList
begin

text \<open>
  Clients that wait: for an element of a list (\<open>src/redis-3.0/src/t_list.c\<close>, \<open>blocked.c\<close>) or for
  the acknowledgement of their writes by replicas (\<open>WAIT\<close>, \<open>replication.c\<close>), with the serving of the
  clients that wait for a list. The keys that a client waits for are a dictionary in the code:
  here the list of its keys, without repetition.
\<close>

section \<open>Blocking and unblocking\<close>

definition getTimeoutFromObjectOrReply :: "nat \<Rightarrow> string \<Rightarrow> time_unit \<Rightarrow> server \<Rightarrow> server \<times> int option" where
  \<comment> \<open>the arithmetic on \<open>PORT_LONGLONG\<close> wraps around\<close>
  "getTimeoutFromObjectOrReply c arg unit s =
     (case getLongLongFromSdsOrReply c arg (Some ''timeout is not an integer or out of range'') s of
        (s, None) \<Rightarrow> (s, None)
      | (s, Some tval) \<Rightarrow>
          if tval < 0 then (addReply c (RError ''ERR timeout is negative'') s, None)
          else if tval > 0 then
            (let tval = (if unit = UNIT_SECONDS then s64 (tval * 1000) else tval);
                 (now, s) = mstime s
             in (s, Some (s64 (tval + now))))
          else (s, Some tval))"

definition blockClient :: "nat \<Rightarrow> btype \<Rightarrow> server \<Rightarrow> server" where
  "blockClient c b s =
     (let s = upd_client c (\<lambda>x. x\<lparr>f_blocked := True, btype := b\<rparr>) s
      in s\<lparr>bpop_blocked_clients := bpop_blocked_clients s + 1\<rparr>)"

definition block_key :: "nat \<Rightarrow> string \<Rightarrow> server \<Rightarrow> server" where
  \<comment> \<open>one round of the loop of \<open>blockForKeys\<close>\<close>
  "block_key c key s =
     (if key \<in> set (bpop_keys (cl s c)) then s
      else
        let s = upd_client c (\<lambda>x. x\<lparr>bpop_keys := bpop_keys x @ [key]\<rparr>) s;
            j = cdb (cl s c);
            l = (case blocking_keys (the_db s j) key of None \<Rightarrow> [] | Some l \<Rightarrow> l)
        in upd_db j (\<lambda>d. d\<lparr>blocking_keys := (blocking_keys d)(key \<mapsto> l @ [c])\<rparr>) s)"

definition blockForKeys :: "nat \<Rightarrow> string list \<Rightarrow> int \<Rightarrow> string option \<Rightarrow> server \<Rightarrow> server" where
  "blockForKeys c keys timeout target s =
     (let s = upd_client c (\<lambda>x. x\<lparr>bpop_timeout := timeout, bpop_target := target\<rparr>) s;
          s = fold (block_key c) keys s
      in blockClient c REDIS_BLOCKED_LIST s)"

definition unblock_key :: "nat \<Rightarrow> string \<Rightarrow> server \<Rightarrow> server" where
  \<comment> \<open>one round of the loop of \<open>unblockClientWaitingData\<close>\<close>
  "unblock_key c key s =
     (let j = cdb (cl s c) in
      case blocking_keys (the_db s j) key of
        None \<Rightarrow> redisAssert False s
      | Some l \<Rightarrow>
          let s = redisAssert (c \<in> set l) s; l = remove1 c l
          in upd_db j (\<lambda>d. d\<lparr>blocking_keys := (blocking_keys d)(key := if l = [] then None else Some l)\<rparr>) s)"

definition unblockClientWaitingData :: "nat \<Rightarrow> server \<Rightarrow> server" where
  "unblockClientWaitingData c s =
     (let s = redisAssert (bpop_keys (cl s c) \<noteq> []) s;
          s = fold (unblock_key c) (bpop_keys (cl s c)) s
      in upd_client c (\<lambda>x. x\<lparr>bpop_keys := [], bpop_target := None\<rparr>) s)"

definition unblockClientWaitingReplicas :: "nat \<Rightarrow> server \<Rightarrow> server" where
  "unblockClientWaitingReplicas c s =
     (let s = redisAssert (c \<in> set (clients_waiting_acks s)) s
      in s\<lparr>clients_waiting_acks := remove1 c (clients_waiting_acks s)\<rparr>)"

definition unblockClient :: "nat \<Rightarrow> server \<Rightarrow> server" where
  "unblockClient c s =
     (let s = (case btype (cl s c) of
                 REDIS_BLOCKED_LIST \<Rightarrow> unblockClientWaitingData c s
               | REDIS_BLOCKED_WAIT \<Rightarrow> unblockClientWaitingReplicas c s
               | REDIS_BLOCKED_NONE \<Rightarrow> redisAssert False s);
          s = upd_client c (\<lambda>x. x\<lparr>f_blocked := False, f_unblocked := True, btype := REDIS_BLOCKED_NONE\<rparr>) s
      in s\<lparr>bpop_blocked_clients := bpop_blocked_clients s - 1, unblocked_clients := unblocked_clients s @ [c]\<rparr>)"

definition replicationCountAcksByOffset :: "int \<Rightarrow> server \<Rightarrow> int" where
  "replicationCountAcksByOffset offset s =
     int (length (filter (\<lambda>c. slave_online (cl s c) \<and> repl_ack_off (cl s c) \<ge> offset) (slaves s)))"

definition replyToBlockedClientTimedOut :: "nat \<Rightarrow> server \<Rightarrow> server" where
  "replyToBlockedClientTimedOut c s =
     (case btype (cl s c) of
        REDIS_BLOCKED_LIST \<Rightarrow> addReply c RNullMulti s
      | REDIS_BLOCKED_WAIT \<Rightarrow> addReply c (RInt (replicationCountAcksByOffset (bpop_reploffset (cl s c)) s)) s
      | REDIS_BLOCKED_NONE \<Rightarrow> redisAssert False s)"

definition disconnectAllBlockedClients :: "server \<Rightarrow> server" where
  "disconnectAllBlockedClients s =
     fold (\<lambda>c s.
       if f_blocked (cl s c) then
         let s = addReply c (RError (''UNBLOCKED force unblock from blocking operation, '' @
                    ''instance state changed (master -> slave?)'')) s;
             s = unblockClient c s
         in upd_client c (\<lambda>x. x\<lparr>f_close_after_reply := True\<rparr>) s
       else s) (clients s) s"

section \<open>Serving the clients that wait for lists\<close>

definition serveClientBlockedOnList :: "nat \<Rightarrow> string \<Rightarrow> string option \<Rightarrow> nat \<Rightarrow> strobj \<Rightarrow> list_end \<Rightarrow> server \<Rightarrow>
    server \<times> bool" where
  \<comment> \<open>the flag is True for \<open>REDIS_OK\<close>. The list that the caller pops from is freed when the lookup of the
     destination expires it\<close>
  "serveClientBlockedOnList receiver key dstkey j val wh s =
     (case dstkey of
        None \<Rightarrow>
          let s = propagate j [if wh = REDIS_HEAD then ''LPOP'' else ''RPOP'', key] True True s
          in (addReplies receiver [RMulti 2, RBulk key, RBulk (str_bytes val)] s, True)
      | Some dst \<Rightarrow>
          case lookupKeyWrite (cdb (cl s receiver)) dst s of
            (s, dstobj) \<Rightarrow>
              let s = redisAssert (kv (the_db s j) key \<noteq> None) s in
              if dstobj = None \<or> is_list (the dstobj) then
                let s = propagate j [''RPOP'', key] True True s;
                    s = rpoplpushHandlePush receiver dst dstobj val s
                in (propagate j [''LPUSH'', dst, str_bytes val] True True s, True)
              else (addReply receiver wrongtypeerr s, False))"

definition blocked_where :: "client \<Rightarrow> list_end" where
  "blocked_where x =
     (case lastcmd x of
        Some cmd \<Rightarrow> if cmd_proc cmd = ''blpopCommand'' then REDIS_HEAD else REDIS_TAIL
      | None \<Rightarrow> REDIS_TAIL)"

fun serve_clients :: "nat \<Rightarrow> nat \<Rightarrow> string \<Rightarrow> server \<Rightarrow> server" where
  \<comment> \<open>the loop over the clients blocked on a key, with the number of rounds left\<close>
  "serve_clients 0 j key s = s"
| "serve_clients (Suc n) j key s =
     (case (blocking_keys (the_db s j) key, kv (the_db s j) key) of
        (Some (receiver # _), Some (ListObj enc xs)) \<Rightarrow>
          (let dstkey = bpop_target (cl s receiver); wh = blocked_where (cl s receiver) in
           case listTypePop (enc, xs) wh of
             None \<Rightarrow> s
           | Some (val, ob) \<Rightarrow>
               let s = upd_list j key ob s;
                   s = unblockClient receiver s;
                   (s, ok) = serveClientBlockedOnList receiver key dstkey j val wh s;
                   s = (if ok then s
                        else case kv (the_db s j) key of
                               Some (ListObj enc xs) \<Rightarrow> upd_list j key (listTypePush s (enc, xs) val wh) s
                             | _ \<Rightarrow> s)
               in serve_clients n j key s)
      | _ \<Rightarrow> redisAssert False s)"

definition serve_key :: "nat \<times> string \<Rightarrow> server \<Rightarrow> server" where
  \<comment> \<open>one round of the inner loop of \<open>handleClientsBlockedOnLists\<close>\<close>
  "serve_key rl s =
     (let (j, key) = rl;
          s = upd_db j (\<lambda>d. d\<lparr>db_ready_keys := db_ready_keys d - {key}\<rparr>) s
      in case lookupKeyWrite j key s of
           (s, Some (ListObj enc xs)) \<Rightarrow>
             let s = (case blocking_keys (the_db s j) key of
                        Some l \<Rightarrow> serve_clients (length l) j key s
                      | None \<Rightarrow> s)
             in if list_length j key s = 0 then fst (dbDelete j key s) else s
         | (s, _) \<Rightarrow> s)"

fun handleClientsBlockedOnLists :: "nat \<Rightarrow> server \<Rightarrow> server option" where
  \<comment> \<open>the first argument bounds the rounds of the outer loop; \<open>None\<close> when it is used up\<close>
  "handleClientsBlockedOnLists 0 s = (if ready_keys s = [] then Some s else None)"
| "handleClientsBlockedOnLists (Suc n) s =
     (if ready_keys s = [] then Some s
      else handleClientsBlockedOnLists n (fold serve_key (ready_keys s) (s\<lparr>ready_keys := []\<rparr>)))"

section \<open>The blocking commands\<close>

fun bpop_keys_loop :: "nat \<Rightarrow> list_end \<Rightarrow> string list \<Rightarrow> server \<Rightarrow> server \<times> bool" where
  \<comment> \<open>the loop over the keys of \<open>BLPOP\<close>; the flag says that the command is done\<close>
  "bpop_keys_loop c wh [] s = (s, False)"
| "bpop_keys_loop c wh (key # keys) s =
     (let j = cdb (cl s c) in
      case lookupKeyWrite j key s of
        (s, None) \<Rightarrow> bpop_keys_loop c wh keys s
      | (s, Some (ListObj enc xs)) \<Rightarrow>
          (case listTypePop (enc, xs) wh of
             None \<Rightarrow> bpop_keys_loop c wh keys s
           | Some (val, ob) \<Rightarrow>
               let s = upd_list j key ob s;
                   s = addReplies c [RMulti 2, RBulk key, RBulk (str_bytes val)] s;
                   s = notifyKeyspaceEvent REDIS_NOTIFY_LIST (pop_event wh) key j s;
                   s = (if snd ob = [] then
                          notifyKeyspaceEvent REDIS_NOTIFY_GENERIC ''del'' key j (fst (dbDelete j key s))
                        else s);
                   s = signalModifiedKey j key s;
                   s = s\<lparr>dirty := dirty s + 1\<rparr>
               in (rewriteClientCommandVector c [if wh = REDIS_HEAD then ''LPOP'' else ''RPOP'', key] s, True))
      | (s, Some _) \<Rightarrow> (addReply c wrongtypeerr s, True))"

definition blockingPopGenericCommand :: "nat \<Rightarrow> list_end \<Rightarrow> server \<Rightarrow> server" where
  "blockingPopGenericCommand c wh s =
     (let av = argv s c; keys = tl (butlast av) in
      case getTimeoutFromObjectOrReply c (last av) UNIT_SECONDS s of
        (s, None) \<Rightarrow> s
      | (s, Some timeout) \<Rightarrow>
          case bpop_keys_loop c wh keys s of
            (s, True) \<Rightarrow> s
          | (s, False) \<Rightarrow>
              if f_multi (cl s c) then addReply c RNullMulti s
              else blockForKeys c keys timeout None s)"

definition blpopCommand :: "nat \<Rightarrow> server \<Rightarrow> server" where
  "blpopCommand c s = blockingPopGenericCommand c REDIS_HEAD s"

definition brpopCommand :: "nat \<Rightarrow> server \<Rightarrow> server" where
  "brpopCommand c s = blockingPopGenericCommand c REDIS_TAIL s"

definition brpoplpushCommand :: "nat \<Rightarrow> server \<Rightarrow> server" where
  "brpoplpushCommand c s =
     (let av = argv s c in
      case getTimeoutFromObjectOrReply c (av ! 3) UNIT_SECONDS s of
        (s, None) \<Rightarrow> s
      | (s, Some timeout) \<Rightarrow>
          case lookupKeyWrite (cdb (cl s c)) (av ! 1) s of
            (s, None) \<Rightarrow>
              if f_multi (cl s c) then addReply c RNullBulk s
              else blockForKeys c [av ! 1] timeout (Some (av ! 2)) s
          | (s, Some (ListObj enc xs)) \<Rightarrow> rpoplpushCommand c (redisAssert (xs \<noteq> []) s)
          | (s, Some _) \<Rightarrow> addReply c wrongtypeerr s)"

section \<open>Waiting for replicas\<close>

definition waitCommand :: "nat \<Rightarrow> server \<Rightarrow> server" where
  \<comment> \<open>the number of replicas is cut to 32 bits when it is stored\<close>
  "waitCommand c s =
     (case getLongFromSdsOrReply c (argv s c ! 1) None s of
        (s, None) \<Rightarrow> s
      | (s, Some numreplicas) \<Rightarrow>
          case getTimeoutFromObjectOrReply c (argv s c ! 2) UNIT_MILLISECONDS s of
            (s, None) \<Rightarrow> s
          | (s, Some timeout) \<Rightarrow>
              let ackreplicas = replicationCountAcksByOffset (woff (cl s c)) s in
              if ackreplicas \<ge> numreplicas \<or> f_multi (cl s c) then addReply c (RInt ackreplicas) s
              else
                let s = upd_client c (\<lambda>x. x\<lparr>bpop_timeout := timeout, bpop_reploffset := woff x,
                          bpop_numreplicas := s32 numreplicas\<rparr>) s;
                    s = s\<lparr>clients_waiting_acks := clients_waiting_acks s @ [c]\<rparr>;
                    s = blockClient c REDIS_BLOCKED_WAIT s
                in s\<lparr>get_ack_from_slaves := True\<rparr>)"

fun process_waiting :: "nat list \<Rightarrow> int \<Rightarrow> int \<Rightarrow> server \<Rightarrow> server" where
  \<comment> \<open>the loop of \<open>processClientsWaitingReplicas\<close>: the iterator has stored the next node when a node is removed\<close>
  "process_waiting [] last_offset last_numreplicas s = s"
| "process_waiting (c # cs) last_offset last_numreplicas s =
     (if last_offset \<noteq> 0 \<and> last_offset > bpop_reploffset (cl s c) \<and> last_numreplicas > bpop_numreplicas (cl s c) then
        process_waiting cs last_offset last_numreplicas (addReply c (RInt last_numreplicas) (unblockClient c s))
      else
        let numreplicas = replicationCountAcksByOffset (bpop_reploffset (cl s c)) s in
        if numreplicas \<ge> bpop_numreplicas (cl s c) then
          process_waiting cs (bpop_reploffset (cl s c)) numreplicas (addReply c (RInt numreplicas) (unblockClient c s))
        else process_waiting cs last_offset last_numreplicas s)"

definition processClientsWaitingReplicas :: "server \<Rightarrow> server" where
  "processClientsWaitingReplicas s = process_waiting (clients_waiting_acks s) 0 0 s"

end
