(* ===== verification/ListInv.thy ===== *)
theory ListInv
  imports CommandInv Blocked
begin

text \<open>
  The list commands keep the invariant of the dataset: no assertion fails, and no command leaves an
  empty list behind. In the middle of a command the list that it works on may be empty
  (\<open>db_ok_but\<close>): the command then deletes the key.
\<close>

section \<open>The invariant except for one list\<close>

abbreviation put :: "nat \<Rightarrow> string \<Rightarrow> robj \<Rightarrow> server \<Rightarrow> server" where
  "put j key v \<equiv> upd_db j (\<lambda>d. d\<lparr>kv := (kv d)(key \<mapsto> v)\<rparr>)"

definition db_ok_but :: "nat \<Rightarrow> string \<Rightarrow> server \<Rightarrow> bool" where
  \<comment> \<open>the invariant holds once the value of the key is another one\<close>
  "db_ok_but j key s \<longleftrightarrow> okdb s j \<and> val_of s j key \<noteq> None \<and> db_ok (put j key (ZsetObj 0) s)"

lemma put_val:
  assumes "j < length (dbs s)"
  shows "val_of (put j key v s) = (val_of s)(j := (val_of s j)(key \<mapsto> v))" "exp_of (put j key v s) = exp_of s"
  using assms by (simp_all add: val_nth)

lemma put_cong:
  assumes "ctx s' = ctx s" "val_of s' = val_of s" "exp_of s' = exp_of s" "slots_to_keys s' = slots_to_keys s"
    "crashed s' = crashed s" "j < length (dbs s)"
  shows "db_ok (put j key v s') = db_ok (put j key v s)"
proof -
  have "j < length (dbs s')" using assms(6) ctxD(1)[OF assms(1)] by simp
  then show ?thesis by (intro db_ok_cong) (simp_all add: assms put_val del: val_upd_fields)
qed

lemma db_ok_but_cong:
  assumes "ctx s' = ctx s" "val_of s' = val_of s" "exp_of s' = exp_of s" "slots_to_keys s' = slots_to_keys s"
    "crashed s' = crashed s"
  shows "db_ok_but j key s' = db_ok_but j key s"
  using put_cong[OF assms, of j] okdb_ctx[OF assms(1), of j] by (auto simp: db_ok_but_def assms(2))

lemma db_ok_but_reply [simp]:
  "db_ok_but i k (addReply c r s) = db_ok_but i k s" "db_ok_but i k (addReplies c rs s) = db_ok_but i k s"
  "db_ok_but i k (notifyKeyspaceEvent cls ev key j s) = db_ok_but i k s" "db_ok_but i k (s\<lparr>dirty := n\<rparr>) = db_ok_but i k s"
  "db_ok_but i k (touchWatchedKey j key s) = db_ok_but i k s"
  "db_ok_but i k (signalModifiedKey j key s) = db_ok_but i k s"
  by (rule db_ok_but_cong; simp add: signalModifiedKey_def)+

lemma db_ok_butI [simp]: "db_ok s \<Longrightarrow> okdb s j \<Longrightarrow> val_of s j key \<noteq> None \<Longrightarrow> db_ok_but j key s"
  by (simp add: db_ok_but_def)

lemma put_put: "j < length (dbs s) \<Longrightarrow> put j key v (put j key u s) = put j key v s"
  by (simp add: upd_db_def)

lemma but_put [simp]: "db_ok_but j key s \<Longrightarrow> db_ok_but j key (put j key v s)"
  by (simp add: db_ok_but_def put_put okdb_less)

lemma but_add [simp]:
  assumes "db_ok s" "okdb s j" "val_of s j key = None"
  shows "db_ok_but j key (dbAdd j key v s)"
proof -
  have "db_ok (put j key (ZsetObj 0) (dbAdd j key v s)) = db_ok (dbAdd j key (ZsetObj 0) s)"
    using assms by (intro db_ok_cong) (simp_all add: put_val okdb_less del: val_upd_fields)
  then show ?thesis using assms by (simp add: db_ok_but_def okdb_less)
qed

lemma but_delete [simp]:
  assumes "db_ok_but j key s"
  shows "db_ok (fst (dbDelete j key s))"
proof -
  have j: "j < length (dbs s)" using assms by (simp add: db_ok_but_def okdb_less)
  have "db_ok (fst (dbDelete j key (put j key (ZsetObj 0) s))) = db_ok (fst (dbDelete j key s))"
    using assms j by (intro db_ok_cong) (auto simp: put_val db_ok_but_def simp del: val_upd_fields)
  then show ?thesis using assms by (simp add: db_ok_but_def)
qed

lemma but_done:
  assumes "db_ok_but j key s" "val_of s j key = Some v" "obj_ok v"
  shows "db_ok s"
proof -
  have j: "j < length (dbs s)" using assms by (simp add: db_ok_but_def okdb_less)
  have "db_ok (put j key v (put j key (ZsetObj 0) s))"
    using assms j by - (rule db_ok_upd_val, simp_all add: db_ok_but_def put_val del: val_upd_fields)
  moreover have "db_ok (put j key v (put j key (ZsetObj 0) s)) = db_ok s"
    using assms j by (intro db_ok_cong) (auto simp: put_put put_val map_upd_triv simp del: val_upd_fields)
  ultimately show ?thesis by simp
qed

section \<open>The list commands\<close>

lemma obj_ok_list: "obj_ok v \<Longrightarrow> is_list v \<Longrightarrow> \<exists>enc xs. v = ListObj enc xs \<and> xs \<noteq> []"
  by (cases v) auto

lemma listTypePush_elems [simp]:
  "snd (listTypePush s (enc, xs) v wh) = (if wh = REDIS_HEAD then str_bytes v # xs else xs @ [str_bytes v])"
  by (simp add: listTypePush_def Let_def)

lemma listTypePop_None [simp]: "listTypePop (enc, xs) wh = None \<longleftrightarrow> xs = []"
  by (simp add: listTypePop_def)

lemma kept_some: "db_ok s \<Longrightarrow> okdb s j \<Longrightarrow> kept s j key k = Some v \<Longrightarrow> obj_ok v"
  by (rule kept_ok(2))

lemma push_one_ok:
  assumes "db_ok s" "okdb s j" "\<And>v. val_of s j key = Some v \<Longrightarrow> is_list v"
  shows "db_ok (push_one j key wh a s)" "ctx (push_one j key wh a s) = ctx s"
    "\<And>v. val_of (push_one j key wh a s) j key = Some v \<Longrightarrow> is_list v"
proof -
  define t where "t = (if val_of s j key = None then dbAdd j key (ListObj ZIPLIST []) s else s)"
  have j: "j < length (dbs s)" using assms(2) by simp
  have t: "db_ok_but j key t" "ctx t = ctx s" using assms by (auto simp: t_def)
  have jt: "j < length (dbs t)" using j by (simp add: t_def)
  obtain enc xs where l: "val_of t j key = Some (ListObj enc xs)"
  proof (cases "val_of s j key")
    case None then show thesis using j that by (simp add: t_def)
  next
    case (Some v) then show thesis using assms(3)[OF Some] that by (cases v) (auto simp: t_def)
  qed
  have p: "push_one j key wh a s = upd_list j key (listTypePush t (enc, xs) (arg_obj a) wh) t"
    using l j jt by (simp add: push_one_def Let_def val_nth flip: t_def)
  show "ctx (push_one j key wh a s) = ctx s" using t by (simp add: p)
  have v: "val_of (push_one j key wh a s) j key =
      Some (ListObj (fst (listTypePush t (enc, xs) (arg_obj a) wh)) (snd (listTypePush t (enc, xs) (arg_obj a) wh)))"
    using jt by (simp add: p)
  show "db_ok (push_one j key wh a s)" by (rule but_done[OF _ v]) (use t in \<open>simp_all add: p\<close>)
  show "\<And>v. val_of (push_one j key wh a s) j key = Some v \<Longrightarrow> is_list v" using v by simp
qed

lemma fold_push_ok:
  assumes "db_ok s" "okdb s j" "\<And>v. val_of s j key = Some v \<Longrightarrow> is_list v"
  shows "db_ok (fold (push_one j key wh) as s) \<and> ctx (fold (push_one j key wh) as s) = ctx s"
  using assms
proof (induction as arbitrary: s)
  case (Cons a as)
  note p = push_one_ok[OF Cons.prems]
  have "okdb (push_one j key wh a s) j" using Cons.prems(2) okdb_ctx[OF p(2)] by simp
  from Cons.IH[OF p(1) this p(3)] p(2) show ?case by simp
qed simp

lemma db_ok_list_end:
  \<comment> \<open>a list is stored, or its key is deleted when nothing is left of it\<close>
  assumes "db_ok_but j key s" "val_of s j key = Some (ListObj enc xs)"
  shows "xs \<noteq> [] \<Longrightarrow> db_ok s" "xs = [] \<Longrightarrow> db_ok (fst (dbDelete j key s))"
  using assms but_done by auto

section \<open>Every list command keeps the invariant\<close>

lemma popGenericCommand_ok:
  "db_ok s \<Longrightarrow> okdb s (cdb (cl s c)) \<Longrightarrow> db_ok (popGenericCommand c wh s)"
  by (simp add: popGenericCommand_def Let_def case_prod_beta split: option.split robj.split)

lemma pushGenericCommand_ok:
  assumes "db_ok s" "okdb s (cdb (cl s c))"
  shows "db_ok (pushGenericCommand c wh s)"
proof -
  let ?j = "cdb (cl s c)" and ?key = "argv s c ! 1"
  let ?t = "fst (lookupKeyWrite ?j ?key s)"
  have "\<And>v. val_of ?t ?j ?key = Some v \<Longrightarrow> is_list v" if "kept s ?j ?key ?key = None \<or> is_list (the (kept s ?j ?key ?key))"
    using that assms by auto
  then have "kept s ?j ?key ?key = None \<or> is_list (the (kept s ?j ?key ?key)) \<Longrightarrow>
      db_ok (fold (push_one ?j ?key wh) vals ?t)" for vals
    using fold_push_ok[of ?t ?j ?key] assms by simp
  then show ?thesis using assms by (auto simp: pushGenericCommand_def Let_def case_prod_beta)
qed

lemma list_readers_ok:
  assumes "db_ok s" "okdb s (cdb (cl s c))"
  shows "db_ok (llenCommand c s)" "db_ok (lindexCommand c s)" "db_ok (lrangeCommand c s)"
  using assms by (simp_all add: llenCommand_def lindexCommand_def lrangeCommand_def Let_def case_prod_beta
      split: option.split robj.split)

lemma kept_list:
  "db_ok s \<Longrightarrow> okdb s j \<Longrightarrow> kept s j key k = Some (ListObj enc xs) \<Longrightarrow> xs \<noteq> []"
  using kept_some by fastforce

lemma listTypeInsert_not_Nil [simp]: "listTypeInsert xs i v wh \<noteq> []"
  by (simp add: listTypeInsert_def)

lemma pushxGenericCommand_ok:
  "db_ok s \<Longrightarrow> okdb s (cdb (cl s c)) \<Longrightarrow> db_ok (pushxGenericCommand c refval v wh s)"
  using kept_list by (simp add: pushxGenericCommand_def Let_def case_prod_beta split: option.split robj.split)

lemma lsetCommand_ok:
  "db_ok s \<Longrightarrow> okdb s (cdb (cl s c)) \<Longrightarrow> db_ok (lsetCommand c s)"
  using kept_list by (simp add: lsetCommand_def Let_def case_prod_beta split: option.split robj.split)

lemma ltrimCommand_ok:
  "db_ok s \<Longrightarrow> okdb s (cdb (cl s c)) \<Longrightarrow> db_ok (ltrimCommand c s)"
  by (simp add: ltrimCommand_def Let_def case_prod_beta split: option.split robj.split)

lemma lremCommand_ok:
  "db_ok s \<Longrightarrow> okdb s (cdb (cl s c)) \<Longrightarrow> db_ok (lremCommand c s)"
  by (simp add: lremCommand_def Let_def case_prod_beta split: option.split robj.split)

end
