(* ===== verification/BlockedInv.thy ===== *)
theory BlockedInv
  imports ListInv
begin

text \<open>
  The clients that wait for lists: the table of waiting clients agrees with the keys that each client waits for
  (\<open>blocked_ok\<close>); blocking and unblocking keep this, so no assertion about it fails.
  Clients are served in the order in which they blocked, and the serving of clients ends.
\<close>

section \<open>Who waits for what\<close>

definition waiting :: "server \<Rightarrow> nat \<Rightarrow> string \<Rightarrow> nat list" where
  "waiting s j key = (case blocking_keys (the_db s j) key of None \<Rightarrow> [] | Some l \<Rightarrow> l)"

definition blocked_ok :: "server \<Rightarrow> bool" where
  "blocked_ok s \<longleftrightarrow>
     (\<forall>c. (btype (cl s c) = REDIS_BLOCKED_LIST \<longleftrightarrow> bpop_keys (cl s c) \<noteq> []) \<and> distinct (bpop_keys (cl s c)) \<and>
        (bpop_keys (cl s c) \<noteq> [] \<longrightarrow> cdb (cl s c) < length (dbs s) \<and> c \<in> set (clients s))) \<and>
     (\<forall>j < length (dbs s). \<forall>key. blocking_keys (the_db s j) key \<noteq> Some [] \<and> distinct (waiting s j key) \<and>
        (\<forall>c. c \<in> set (waiting s j key) \<longleftrightarrow> cdb (cl s c) = j \<and> key \<in> set (bpop_keys (cl s c))))"

lemma blocked_okD:
  assumes "blocked_ok s"
  shows "btype (cl s c) = REDIS_BLOCKED_LIST \<longleftrightarrow> bpop_keys (cl s c) \<noteq> []" "distinct (bpop_keys (cl s c))"
    "bpop_keys (cl s c) \<noteq> [] \<Longrightarrow> cdb (cl s c) < length (dbs s)" "bpop_keys (cl s c) \<noteq> [] \<Longrightarrow> c \<in> set (clients s)"
    "j < length (dbs s) \<Longrightarrow> blocking_keys (the_db s j) key \<noteq> Some []" "j < length (dbs s) \<Longrightarrow> distinct (waiting s j key)"
    "j < length (dbs s) \<Longrightarrow> c \<in> set (waiting s j key) \<longleftrightarrow> cdb (cl s c) = j \<and> key \<in> set (bpop_keys (cl s c))"
  using assms by (auto simp: blocked_ok_def)

text \<open>The state without the table of waiting clients.\<close>

definition unblocked_view :: "server \<Rightarrow> server" where
  "unblocked_view s = s\<lparr>dbs := map (\<lambda>d. d\<lparr>blocking_keys := Map.empty\<rparr>) (dbs s)\<rparr>"

lemma view_dbs:
  assumes "unblocked_view t = unblocked_view s"
  shows "length (dbs t) = length (dbs s)"
    "j < length (dbs s) \<Longrightarrow> (the_db t j)\<lparr>blocking_keys := Map.empty\<rparr> = (the_db s j)\<lparr>blocking_keys := Map.empty\<rparr>"
proof -
  have e: "map (\<lambda>d. d\<lparr>blocking_keys := Map.empty\<rparr>) (dbs t) = map (\<lambda>d. d\<lparr>blocking_keys := Map.empty\<rparr>) (dbs s)"
    using arg_cong[OF assms, of dbs] by (simp add: unblocked_view_def)
  show l: "length (dbs t) = length (dbs s)" using arg_cong[OF e, of length] by simp
  show "j < length (dbs s) \<Longrightarrow> (the_db t j)\<lparr>blocking_keys := Map.empty\<rparr> = (the_db s j)\<lparr>blocking_keys := Map.empty\<rparr>"
    using arg_cong[OF e, of "\<lambda>l. l ! j"] l by simp
qed

lemma viewD:
  assumes "unblocked_view t = unblocked_view s"
  shows "cl t = cl s" "clients t = clients s" "crashed t = crashed s" "ready_keys t = ready_keys s"
    "unblocked_clients t = unblocked_clients s" "bpop_blocked_clients t = bpop_blocked_clients s"
    "slots_to_keys t = slots_to_keys s" "cluster_enabled t = cluster_enabled s"
    "j < length (dbs s) \<Longrightarrow> kv (the_db t j) = kv (the_db s j)"
    "j < length (dbs s) \<Longrightarrow> expires (the_db t j) = expires (the_db s j)"
    "j < length (dbs s) \<Longrightarrow> watched_keys (the_db t j) = watched_keys (the_db s j)"
  using arg_cong[OF assms, of cl] arg_cong[OF assms, of clients] arg_cong[OF assms, of crashed]
    arg_cong[OF assms, of ready_keys] arg_cong[OF assms, of unblocked_clients]
    arg_cong[OF assms, of bpop_blocked_clients] arg_cong[OF assms, of slots_to_keys]
    arg_cong[OF assms, of cluster_enabled]
    arg_cong[OF view_dbs(2)[OF assms], of j kv] arg_cong[OF view_dbs(2)[OF assms], of j expires]
    arg_cong[OF view_dbs(2)[OF assms], of j watched_keys]
  by (simp_all add: unblocked_view_def)

lemma view_upd_blocking [simp]:
  "unblocked_view (upd_db j (\<lambda>d. d\<lparr>blocking_keys := f d\<rparr>) s) = unblocked_view s"
  using map_upd_same[of "\<lambda>d. d\<lparr>blocking_keys := Map.empty\<rparr>" "\<lambda>d. d\<lparr>blocking_keys := f d\<rparr>"]
  by (simp add: unblocked_view_def upd_db_def)

section \<open>Unblocking\<close>

lemma unblock_keys:
  assumes "distinct ks" "j = cdb (cl s c)" "j < length (dbs s)" "\<And>k. k \<in> set ks \<Longrightarrow> c \<in> set (waiting s j k)"
  shows "unblocked_view (fold (unblock_key c) ks s) = unblocked_view s \<and>
    (\<forall>i < length (dbs s). \<forall>k. blocking_keys (the_db (fold (unblock_key c) ks s) i) k =
       (if i = j \<and> k \<in> set ks then
          (if remove1 c (waiting s j k) = [] then None else Some (remove1 c (waiting s j k)))
        else blocking_keys (the_db s i) k))"
  using assms
proof (induction ks arbitrary: s)
  case (Cons k ks)
  let ?t = "unblock_key c k s"
  obtain l where l: "blocking_keys (the_db s j) k = Some l" "c \<in> set l"
    using Cons.prems(4)[of k] by (cases "blocking_keys (the_db s j) k") (auto simp: waiting_def)
  have t: "?t = upd_db j (\<lambda>d. d\<lparr>blocking_keys := (blocking_keys d)(k := if remove1 c l = [] then None else Some (remove1 c l))\<rparr>) s"
    using l Cons.prems(2) by (simp add: unblock_key_def Let_def)
  have v: "unblocked_view ?t = unblocked_view s" by (simp add: t)
  have b: "blocking_keys (the_db ?t i) k' =
      (if i = j \<and> k' = k then (if remove1 c l = [] then None else Some (remove1 c l)) else blocking_keys (the_db s i) k')"
    if "i < length (dbs s)" for i k'
    using that by (cases "i = j") (auto simp: t)
  have w: "waiting ?t i k' = waiting s i k'" if "i < length (dbs s)" "k' \<noteq> k" for i k'
    using b[OF that(1)] that(2) by (simp add: waiting_def)
  have len: "length (dbs ?t) = length (dbs s)" by (rule view_dbs(1)[OF v])
  have ih: "unblocked_view (fold (unblock_key c) ks ?t) = unblocked_view ?t \<and>
    (\<forall>i < length (dbs ?t). \<forall>k. blocking_keys (the_db (fold (unblock_key c) ks ?t) i) k =
       (if i = j \<and> k \<in> set ks then
          (if remove1 c (waiting ?t j k) = [] then None else Some (remove1 c (waiting ?t j k)))
        else blocking_keys (the_db ?t i) k))"
  proof (rule Cons.IH)
    show "distinct ks" "j = cdb (cl ?t c)" "j < length (dbs ?t)"
      using Cons.prems len by (simp_all add: viewD(1)[OF v])
    fix k' assume k': "k' \<in> set ks"
    then have "k' \<noteq> k" using Cons.prems(1) by auto
    with k' Cons.prems(3,4) w show "c \<in> set (waiting ?t j k')" by simp
  qed
  have wk: "waiting s j k = l" using l by (simp add: waiting_def)
  show ?case using ih v b w len Cons.prems(1,3) wk by auto
qed simp

lemma unblockClient_list:
  assumes ok: "blocked_ok s" and b: "btype (cl s c) = REDIS_BLOCKED_LIST"
  defines "t \<equiv> unblockClient c s"
  shows "crashed t = crashed s" "clients t = clients s" "length (dbs t) = length (dbs s)" "ready_keys t = ready_keys s"
    "cl t = (cl s)(c := (cl s c)\<lparr>bpop_keys := [], bpop_target := None, f_blocked := False,
        f_unblocked := True, btype := REDIS_BLOCKED_NONE\<rparr>)"
    "unblocked_clients t = unblocked_clients s @ [c]" "bpop_blocked_clients t = bpop_blocked_clients s - 1"
    "i < length (dbs s) \<Longrightarrow> kv (the_db t i) = kv (the_db s i)"
    "i < length (dbs s) \<Longrightarrow> expires (the_db t i) = expires (the_db s i)"
    "i < length (dbs s) \<Longrightarrow> waiting t i k = remove1 c (waiting s i k)"
    "blocked_ok t"
proof -
  let ?j = "cdb (cl s c)"
  have ks: "bpop_keys (cl s c) \<noteq> []" "distinct (bpop_keys (cl s c))" "?j < length (dbs s)"
    using blocked_okD[OF ok, of c] b by auto
  let ?u = "fold (unblock_key c) (bpop_keys (cl s c)) s"
  have "\<And>k. k \<in> set (bpop_keys (cl s c)) \<Longrightarrow> c \<in> set (waiting s ?j k)"
    using blocked_okD(7)[OF ok ks(3)] by simp
  note u = unblock_keys[OF ks(2) refl ks(3) this]
  have v: "unblocked_view ?u = unblocked_view s" using u by blast
  have t: "t = upd_client c (\<lambda>x. x\<lparr>f_blocked := False, f_unblocked := True, btype := REDIS_BLOCKED_NONE\<rparr>)
      (upd_client c (\<lambda>x. x\<lparr>bpop_keys := [], bpop_target := None\<rparr>) ?u)
      \<lparr>bpop_blocked_clients := bpop_blocked_clients s - 1, unblocked_clients := unblocked_clients s @ [c]\<rparr>"
    using b ks(1) viewD(5,6)[OF v] by (simp add: t_def unblockClient_def unblockClientWaitingData_def Let_def upd_client_def)
  show crash: "crashed t = crashed s" "clients t = clients s" "ready_keys t = ready_keys s"
    "unblocked_clients t = unblocked_clients s @ [c]" "bpop_blocked_clients t = bpop_blocked_clients s - 1"
    using viewD[OF v] by (simp_all add: t)
  show len: "length (dbs t) = length (dbs s)" using view_dbs(1)[OF v] by (simp add: t)
  show cl: "cl t = (cl s)(c := (cl s c)\<lparr>bpop_keys := [], bpop_target := None, f_blocked := False,
        f_unblocked := True, btype := REDIS_BLOCKED_NONE\<rparr>)"
    using viewD(1)[OF v] by (simp add: t)
  show "i < length (dbs s) \<Longrightarrow> kv (the_db t i) = kv (the_db s i)"
    "i < length (dbs s) \<Longrightarrow> expires (the_db t i) = expires (the_db s i)"
    using viewD(9,10)[OF v] by (simp_all add: t)
  have bk: "blocking_keys (the_db t i) k =
      (if i = ?j \<and> k \<in> set (bpop_keys (cl s c)) then
         (if remove1 c (waiting s i k) = [] then None else Some (remove1 c (waiting s i k)))
       else blocking_keys (the_db s i) k)" if "i < length (dbs s)" for i k
    using u that by (simp add: t)
  show w: "waiting t i k = remove1 c (waiting s i k)" if "i < length (dbs s)" for i k
    using bk[OF that] blocked_okD(7)[OF ok that, of c k] by (auto simp: waiting_def remove1_idem split: option.splits)
  show "blocked_ok t"
    unfolding blocked_ok_def cl crash len
  proof (intro conjI allI impI)
    fix i k assume i: "i < length (dbs s)"
    show "blocking_keys (the_db t i) k \<noteq> Some []" using bk[OF i] blocked_okD(5)[OF ok i] by simp
    show "distinct (waiting t i k)" using w[OF i] blocked_okD(6)[OF ok i] by simp
    show "(d \<in> set (waiting t i k)) = (cdb (((cl s)(c := (cl s c)\<lparr>bpop_keys := [], bpop_target := None, f_blocked := False,
        f_unblocked := True, btype := REDIS_BLOCKED_NONE\<rparr>)) d) = i \<and>
      k \<in> set (bpop_keys (((cl s)(c := (cl s c)\<lparr>bpop_keys := [], bpop_target := None, f_blocked := False,
        f_unblocked := True, btype := REDIS_BLOCKED_NONE\<rparr>)) d)))" for d
      using w[OF i] blocked_okD(6,7)[OF ok i] by (auto simp: set_remove1_eq)
  qed (use blocked_okD[OF ok] in \<open>auto split: if_splits\<close>)
qed

section \<open>Blocking\<close>

lemma block_key_ok:
  fixes s c k
  assumes "cdb (cl s c) < length (dbs s)"
  defines "t \<equiv> block_key c k s"
  shows "crashed t = crashed s" "clients t = clients s" "length (dbs t) = length (dbs s)"
    "cdb (cl t d) = cdb (cl s d)" "btype (cl t d) = btype (cl s d)"
    "bpop_keys (cl t d) = (if d = c \<and> k \<notin> set (bpop_keys (cl s c)) then bpop_keys (cl s c) @ [k] else bpop_keys (cl s d))"
    "i < length (dbs s) \<Longrightarrow> waiting t i k' =
      (if i = cdb (cl s c) \<and> k' = k \<and> k \<notin> set (bpop_keys (cl s c)) then waiting s i k @ [c] else waiting s i k')"
    "i < length (dbs s) \<Longrightarrow> blocking_keys (the_db s i) k' \<noteq> Some [] \<Longrightarrow> blocking_keys (the_db t i) k' \<noteq> Some []"
proof -
  show "crashed t = crashed s" "clients t = clients s" "length (dbs t) = length (dbs s)"
    "cdb (cl t d) = cdb (cl s d)" "btype (cl t d) = btype (cl s d)"
    "bpop_keys (cl t d) = (if d = c \<and> k \<notin> set (bpop_keys (cl s c)) then bpop_keys (cl s c) @ [k] else bpop_keys (cl s d))"
    by (simp_all add: t_def block_key_def Let_def)
  show "i < length (dbs s) \<Longrightarrow> waiting t i k' =
      (if i = cdb (cl s c) \<and> k' = k \<and> k \<notin> set (bpop_keys (cl s c)) then waiting s i k @ [c] else waiting s i k')"
    "i < length (dbs s) \<Longrightarrow> blocking_keys (the_db s i) k' \<noteq> Some [] \<Longrightarrow> blocking_keys (the_db t i) k' \<noteq> Some []"
    by (cases "i = cdb (cl s c)"; auto simp: t_def block_key_def Let_def waiting_def)+
qed

text \<open>The agreement of the table with the keys of each client, without the marking of the clients as
  blocked.\<close>

definition table_ok :: "server \<Rightarrow> bool" where
  "table_ok s \<longleftrightarrow>
     (\<forall>c. distinct (bpop_keys (cl s c)) \<and>
        (bpop_keys (cl s c) \<noteq> [] \<longrightarrow> cdb (cl s c) < length (dbs s) \<and> c \<in> set (clients s))) \<and>
     (\<forall>j < length (dbs s). \<forall>key. blocking_keys (the_db s j) key \<noteq> Some [] \<and> distinct (waiting s j key) \<and>
        (\<forall>c. c \<in> set (waiting s j key) \<longleftrightarrow> cdb (cl s c) = j \<and> key \<in> set (bpop_keys (cl s c))))"

lemma blocked_ok_table:
  "blocked_ok s \<longleftrightarrow> table_ok s \<and> (\<forall>c. btype (cl s c) = REDIS_BLOCKED_LIST \<longleftrightarrow> bpop_keys (cl s c) \<noteq> [])"
  by (auto simp: blocked_ok_def table_ok_def)

lemma block_key_table:
  assumes "table_ok s" "cdb (cl s c) < length (dbs s)" "c \<in> set (clients s)"
  shows "table_ok (block_key c k s)"
proof -
  note b = block_key_ok[OF assms(2), where k = k]
  have s: "distinct (bpop_keys (cl s d))" "bpop_keys (cl s d) \<noteq> [] \<Longrightarrow> cdb (cl s d) < length (dbs s)"
    "bpop_keys (cl s d) \<noteq> [] \<Longrightarrow> d \<in> set (clients s)" for d
    using assms(1) by (auto simp: table_ok_def)
  have w: "blocking_keys (the_db s j) key \<noteq> Some []" "distinct (waiting s j key)"
    "d \<in> set (waiting s j key) \<longleftrightarrow> cdb (cl s d) = j \<and> key \<in> set (bpop_keys (cl s d))" if "j < length (dbs s)" for j key d
    using assms(1) that by (auto simp: table_ok_def)
  show ?thesis unfolding table_ok_def b(2,3)
  proof (intro conjI allI impI)
    fix j key assume j: "j < length (dbs s)"
    show "blocking_keys (the_db (block_key c k s) j) key \<noteq> Some []" using b(8)[OF j w(1)[OF j]] .
    show "distinct (waiting (block_key c k s) j key)" using b(7)[OF j] w[OF j] by auto
    show "(d \<in> set (waiting (block_key c k s) j key)) =
        (cdb (cl (block_key c k s) d) = j \<and> key \<in> set (bpop_keys (cl (block_key c k s) d)))" for d
      using b(7)[OF j] b(4,6) w(3)[OF j] by auto
  next
    fix d
    show "distinct (bpop_keys (cl (block_key c k s) d))" using s(1) by (simp add: b(6))
    assume "bpop_keys (cl (block_key c k s) d) \<noteq> []"
    then have "d = c \<or> bpop_keys (cl s d) \<noteq> []" by (auto simp: b(6) split: if_splits)
    then show "cdb (cl (block_key c k s) d) < length (dbs s)" "d \<in> set (clients s)"
      using s(2,3) assms(2,3) by (auto simp: b(4))
  qed
qed

lemma fold_block_key:
  assumes "table_ok s" "cdb (cl s c) < length (dbs s)" "c \<in> set (clients s)"
  shows "table_ok (fold (block_key c) ks s) \<and> crashed (fold (block_key c) ks s) = crashed s \<and>
    (\<forall>d. btype (cl (fold (block_key c) ks s) d) = btype (cl s d)) \<and>
    (\<forall>d. d \<noteq> c \<longrightarrow> bpop_keys (cl (fold (block_key c) ks s) d) = bpop_keys (cl s d)) \<and>
    set (bpop_keys (cl (fold (block_key c) ks s) c)) = set (bpop_keys (cl s c)) \<union> set ks"
  using assms
proof (induction ks arbitrary: s)
  case (Cons k ks)
  note b = block_key_ok[OF Cons.prems(2), where k = k]
  have "table_ok (block_key c k s)" by (rule block_key_table[OF Cons.prems])
  from Cons.IH[OF this] b Cons.prems show ?case by (auto split: if_splits)
qed simp

lemma table_ok_cong:
  assumes "\<And>c. bpop_keys (cl t c) = bpop_keys (cl s c)" "\<And>c. cdb (cl t c) = cdb (cl s c)" "clients t = clients s"
    "length (dbs t) = length (dbs s)"
    "\<And>j. j < length (dbs s) \<Longrightarrow> blocking_keys (the_db t j) = blocking_keys (the_db s j)"
  shows "table_ok t = table_ok s"
  by (simp add: table_ok_def waiting_def assms cong: conj_cong)

lemma blockForKeys_ok:
  assumes "blocked_ok s" "cdb (cl s c) < length (dbs s)" "c \<in> set (clients s)" "bpop_keys (cl s c) = []" "ks \<noteq> []"
  shows "blocked_ok (blockForKeys c ks timeout target s)" "crashed (blockForKeys c ks timeout target s) = crashed s"
    "set (bpop_keys (cl (blockForKeys c ks timeout target s) c)) = set ks"
proof -
  let ?s = "upd_client c (\<lambda>x. x\<lparr>bpop_timeout := timeout, bpop_target := target\<rparr>) s"
  let ?u = "fold (block_key c) ks ?s"
  have "table_ok ?s = table_ok s" by (rule table_ok_cong) simp_all
  then have t: "table_ok ?s" "cdb (cl ?s c) < length (dbs ?s)" "c \<in> set (clients ?s)"
    using assms by (simp_all add: blocked_ok_table)
  note u = fold_block_key[OF t, of ks]
  let ?t = "blockForKeys c ks timeout target s"
  have e: "?t = (upd_client c (\<lambda>x. x\<lparr>f_blocked := True, btype := REDIS_BLOCKED_LIST\<rparr>) ?u)\<lparr>bpop_blocked_clients :=
      bpop_blocked_clients (upd_client c (\<lambda>x. x\<lparr>f_blocked := True, btype := REDIS_BLOCKED_LIST\<rparr>) ?u) + 1\<rparr>"
    by (simp add: blockForKeys_def blockClient_def Let_def)
  have k: "set (bpop_keys (cl ?u c)) = set ks" using u assms(4) by simp
  have "table_ok ?t = table_ok ?u" unfolding e by (rule table_ok_cong) simp_all
  moreover have "btype (cl ?t d) = REDIS_BLOCKED_LIST \<longleftrightarrow> bpop_keys (cl ?t d) \<noteq> []" for d
    using u k assms(1,5) blocked_okD(1)[OF assms(1), of d] by (cases "d = c") (auto simp: e)
  ultimately show "blocked_ok ?t" using u by (simp add: blocked_ok_table)
  show "crashed ?t = crashed s" using u by (simp add: e)
  show "set (bpop_keys (cl ?t c)) = set ks" using k by (simp add: e)
qed

lemma blocked_ok_ctx: "ctx t = ctx s \<Longrightarrow> blocked_ok t = blocked_ok s"
proof -
  assume c: "ctx t = ctx s"
  have l: "length (dbs t) = length (dbs s)" "clients t = clients s" by (rule ctxD[OF c])+
  have b: "btype (cl t d) = btype (cl s d)" "bpop_keys (cl t d) = bpop_keys (cl s d)" "cdb (cl t d) = cdb (cl s d)" for d
    using arg_cong[OF ctx_client[OF c, of d], of btype] arg_cong[OF ctx_client[OF c, of d], of bpop_keys]
      arg_cong[OF ctx_client[OF c, of d], of cdb] by simp_all
  have "table_ok t = table_ok s" by (rule table_ok_cong) (use l b ctx_watchers(2)[OF c] in simp_all)
  then show "blocked_ok t = blocked_ok s" by (simp only: blocked_ok_table b)
qed

lemma waiting_ctx: "ctx t = ctx s \<Longrightarrow> j < length (dbs s) \<Longrightarrow> waiting t j key = waiting s j key"
  using ctx_watchers(2)[of t s j] by (simp add: waiting_def)

section \<open>Serving\<close>

lemma arg_obj_bytes [simp]: "str_bytes (arg_obj a) = a"
  using tryObjectEncoding_sound[of "createStringObject a"]
  by (simp add: createStringObject_def createEmbeddedStringObject_def createRawStringObject_def)

lemma pop_Cons [simp]: "listTypePop (enc, x # xs) REDIS_HEAD = Some (arg_obj x, enc, xs)"
  by (simp add: listTypePop_def)

lemma upd_list_blocked:
  assumes "j < length (dbs s)"
  shows "blocked_ok (upd_list j key ob s) = blocked_ok s" "waiting (upd_list j key ob s) i k = waiting s i k"
    "cl (upd_list j key ob s) = cl s"
  using blocked_ok_ctx[of "upd_list j key ob s" s] by (cases "i = j"; simp add: waiting_def assms)+

lemma propagate_fields [simp]:
  "cl (propagate j av a r s) = cl s" "dbs (propagate j av a r s) = dbs s" "clients (propagate j av a r s) = clients s"
  "crashed (propagate j av a r s) = crashed s" "unblocked_clients (propagate j av a r s) = unblocked_clients s"
  "ready_keys (propagate j av a r s) = ready_keys s"
  by (simp_all add: propagate_def Let_def feedAppendOnlyFile_def replicationFeedSlaves_def)

lemma blocked_ok_dbs: "dbs t = dbs s \<Longrightarrow> clients t = clients s \<Longrightarrow>
    (\<And>c. btype (cl t c) = btype (cl s c) \<and> bpop_keys (cl t c) = bpop_keys (cl s c) \<and> cdb (cl t c) = cdb (cl s c)) \<Longrightarrow>
    blocked_ok t = blocked_ok s"
  by (simp add: blocked_ok_def waiting_def)

lemma addReplies_creply:
  "creply (cl (addReplies c rs s) d) = (if d = c then creply (cl s c) @ rs else creply (cl s d)) \<and>
   (d \<noteq> c \<longrightarrow> cl (addReplies c rs s) d = cl s d) \<and>
   btype (cl (addReplies c rs s) d) = btype (cl s d) \<and>
   unblocked_clients (addReplies c rs s) = unblocked_clients s"
proof (induction rs arbitrary: s)
  case (Cons r rs)
  from Cons[of "addReply c r s"] show ?case by (auto simp: addReplies_def addReply_def upd_client_def)
qed (simp add: addReplies_def)

text \<open>One client that waits with \<open>BLPOP\<close> for a list that is not empty.\<close>

lemma serve_one:
  fixes s j key c xs
  assumes ok: "blocked_ok s" and j: "j < length (dbs s)" and w: "waiting s j key = c # cs"
    and l: "kv (the_db s j) key = Some (ListObj enc (x # xs))"
    and c: "bpop_target (cl s c) = None" "blocked_where (cl s c) = REDIS_HEAD"
  obtains t where "serve_clients (Suc n) j key s = serve_clients n j key t" "blocked_ok t" "length (dbs t) = length (dbs s)"
    "crashed t = crashed s" "waiting t j key = cs" "kv (the_db t j) key = Some (ListObj enc xs)"
    "creply (cl t c) = creply (cl s c) @ [RMulti 2, RBulk key, RBulk x]" "\<forall>d. d \<noteq> c \<longrightarrow> cl t d = cl s d"
    "unblocked_clients t = unblocked_clients s @ [c]" "ready_keys t = ready_keys s"
proof -
  have b: "blocking_keys (the_db s j) key = Some (c # cs)"
    using w by (auto simp: waiting_def split: option.splits)
  define u where "u = upd_list j key (enc, xs) s"
  have u: "blocked_ok u" "length (dbs u) = length (dbs s)" "cl u = cl s" "crashed u = crashed s"
    "waiting u j key = c # cs" "kv (the_db u j) key = Some (ListObj enc xs)" "unblocked_clients u = unblocked_clients s"
    "ready_keys u = ready_keys s"
    using ok j w upd_list_blocked[OF j, of key "(enc, xs)"] by (simp_all add: u_def) (simp add: upd_db_def)
  have "c \<in> set (waiting u j key)" using u(5) by simp
  then have bt: "btype (cl u c) = REDIS_BLOCKED_LIST"
    using blocked_okD(1,7)[OF u(1)] j u(2) by fastforce
  define v where "v = unblockClient c u"
  note v = unblockClient_list[OF u(1) bt, folded v_def]
  define t where "t = addReplies c [RMulti 2, RBulk key, RBulk x] (propagate j [''LPOP'', key] True True v)"
  have e: "serve_clients (Suc n) j key s = serve_clients n j key t"
    using c by (simp add: b l serveClientBlockedOnList_def Let_def t_def v_def u_def)
  have tc: "creply (cl t d) = (if d = c then creply (cl v c) @ [RMulti 2, RBulk key, RBulk x] else creply (cl v d))"
    "d \<noteq> c \<Longrightarrow> cl t d = cl v d" "btype (cl t d) = btype (cl v d)" "unblocked_clients t = unblocked_clients v" for d
    using addReplies_creply[of c "[RMulti 2, RBulk key, RBulk x]" "propagate j [''LPOP'', key] True True v"]
    by (simp_all add: t_def)
  have ts: "dbs t = dbs v" "clients t = clients v" "crashed t = crashed v" "ready_keys t = ready_keys v"
    "bpop_keys (cl t d) = bpop_keys (cl v d)" "cdb (cl t d) = cdb (cl v d)" for d
    by (simp_all add: t_def)
  have "blocked_ok t = blocked_ok v" by (rule blocked_ok_dbs) (simp_all add: ts tc)
  moreover have "waiting t j key = cs" using v(10)[of j key] u(2,5) j ts(1) by (simp add: waiting_def)
  ultimately show thesis
    using that[of t] e v u j ts tc by simp
qed

lemma serve_fifo:
  assumes "blocked_ok s" "j < length (dbs s)" "n \<le> length (waiting s j key)"
    "kv (the_db s j) key = Some (ListObj enc xs)"
    "\<And>c. c \<in> set (waiting s j key) \<Longrightarrow> bpop_target (cl s c) = None \<and> blocked_where (cl s c) = REDIS_HEAD"
  shows "blocked_ok (serve_clients n j key s) \<and> crashed (serve_clients n j key s) = crashed s \<and>
    kv (the_db (serve_clients n j key s) j) key = Some (ListObj enc (drop n xs)) \<and>
    waiting (serve_clients n j key s) j key = drop (min n (length xs)) (waiting s j key) \<and>
    unblocked_clients (serve_clients n j key s) = unblocked_clients s @ take (min n (length xs)) (waiting s j key) \<and>
    (\<forall>i < min n (length xs). creply (cl (serve_clients n j key s) (waiting s j key ! i)) =
       creply (cl s (waiting s j key ! i)) @ [RMulti 2, RBulk key, RBulk (xs ! i)]) \<and>
    (\<forall>d. d \<notin> set (take (min n (length xs)) (waiting s j key)) \<longrightarrow> cl (serve_clients n j key s) d = cl s d)"
  using assms
proof (induction n arbitrary: s xs)
  case (Suc n)
  obtain c cs where w: "waiting s j key = c # cs" using Suc.prems(3) by (cases "waiting s j key") auto
  show ?case
  proof (cases xs)
    case Nil
    have "blocking_keys (the_db s j) key = Some (c # cs)"
      using w by (auto simp: waiting_def split: option.splits)
    then have "serve_clients (Suc n) j key s = s" using Suc.prems(4) Nil by (simp add: listTypePop_def)
    then show ?thesis using Suc.prems Nil by (simp del: serve_clients.simps)
  next
    case (Cons x ys)
    have c: "bpop_target (cl s c) = None" "blocked_where (cl s c) = REDIS_HEAD" using Suc.prems(5)[of c] w by auto
    have l: "kv (the_db s j) key = Some (ListObj enc (x # ys))" using Suc.prems(4) Cons by simp
    obtain t where t: "serve_clients (Suc n) j key s = serve_clients n j key t" "blocked_ok t" "length (dbs t) = length (dbs s)"
      "crashed t = crashed s" "waiting t j key = cs" "kv (the_db t j) key = Some (ListObj enc ys)"
      "creply (cl t c) = creply (cl s c) @ [RMulti 2, RBulk key, RBulk x]" "\<forall>d. d \<noteq> c \<longrightarrow> cl t d = cl s d"
      "unblocked_clients t = unblocked_clients s @ [c]" "ready_keys t = ready_keys s"
      by (rule serve_one[OF Suc.prems(1,2) w l c, where n = n])
    have d: "distinct (c # cs)" using blocked_okD(6)[OF Suc.prems(1,2), of key] w by simp
    have cs: "bpop_target (cl t d) = None \<and> blocked_where (cl t d) = REDIS_HEAD" if "d \<in> set (waiting t j key)" for d
      using that d Suc.prems(5)[of d] t(5,8) w by (cases "d = c") auto
    have ih: "blocked_ok (serve_clients n j key t) \<and> crashed (serve_clients n j key t) = crashed t \<and>
      kv (the_db (serve_clients n j key t) j) key = Some (ListObj enc (drop n ys)) \<and>
      waiting (serve_clients n j key t) j key = drop (min n (length ys)) (waiting t j key) \<and>
      unblocked_clients (serve_clients n j key t) = unblocked_clients t @ take (min n (length ys)) (waiting t j key) \<and>
      (\<forall>i < min n (length ys). creply (cl (serve_clients n j key t) (waiting t j key ! i)) =
         creply (cl t (waiting t j key ! i)) @ [RMulti 2, RBulk key, RBulk (ys ! i)]) \<and>
      (\<forall>d. d \<notin> set (take (min n (length ys)) (waiting t j key)) \<longrightarrow> cl (serve_clients n j key t) d = cl t d)"
      by (rule Suc.IH[OF t(2) _ _ t(6) cs]) (use t(3,5) w Suc.prems(2,3) in auto)
    have "c \<notin> set (take (min n (length ys)) cs)" using d by (auto dest: in_set_takeD)
    then have keep: "cl (serve_clients n j key t) c = cl t c" using ih t(5) by blast
    have nth: "cs ! i \<noteq> c" if "i < min n (length ys)" for i
      using that d w Suc.prems(3) by (auto simp: in_set_conv_nth)
    have "creply (cl (serve_clients n j key t) ((c # cs) ! i)) = creply (cl s ((c # cs) ! i)) @ [RMulti 2, RBulk key, RBulk ((x # ys) ! i)]"
      if "i < Suc (min n (length ys))" for i
      using that keep t(5,7,8) ih nth by (cases i) auto
    then show ?thesis using ih t(1,4,5,8,9) w Cons by (auto simp del: serve_clients.simps)
  qed
qed simp

section \<open>The serving of blocked clients ends\<close>

definition blocked_set :: "server \<Rightarrow> nat set" where
  "blocked_set s = {c \<in> set (clients s). bpop_keys (cl s c) \<noteq> []}"

definition ready_ok :: "server \<Rightarrow> bool" where
  "ready_ok s \<longleftrightarrow> (\<forall>rl \<in> set (ready_keys s). fst rl < length (dbs s))"

lemma blocked_set_finite [simp]: "finite (blocked_set s)"
  by (simp add: blocked_set_def)

lemma blocked_set_ctx: "ctx t = ctx s \<Longrightarrow> blocked_set t = blocked_set s"
proof -
  assume c: "ctx t = ctx s"
  have "bpop_keys (cl t d) = bpop_keys (cl s d)" for d
    using arg_cong[OF ctx_client[OF c, of d], of bpop_keys] by simp
  then show "blocked_set t = blocked_set s" by (simp add: blocked_set_def ctxD(2)[OF c])
qed

lemma ready_fields [simp]:
  "ready_keys (redisAssert b s) = ready_keys s" "ready_keys (slotToKeyDel key s) = ready_keys s"
  "ready_keys (slotToKeyAdd key s) = ready_keys s" "ready_keys (propagateExpire j key s) = ready_keys s"
  "ready_keys (touchWatchedKey j key s) = ready_keys s" "ready_keys (snd (getExpire j key s)) = ready_keys s"
  "ready_keys (fst (dbDelete j key s)) = ready_keys s" "ready_keys (snd (mstime s)) = ready_keys s"
proof -
  have f: "ready_keys (fold flag_dirty_cas cs s) = ready_keys s" for cs
    by (induction cs arbitrary: s) (simp_all add: flag_dirty_cas_def)
  show "ready_keys (touchWatchedKey j key s) = ready_keys s" by (simp add: touchWatchedKey_def f split: option.split)
  show del: "ready_keys (slotToKeyDel key s) = ready_keys s" for s by (simp add: slotToKeyDel_def)
  show "ready_keys (fst (dbDelete j key s)) = ready_keys s" by (simp add: dbDelete_def Let_def del)
qed (simp_all add: redisAssert_def slotToKeyAdd_def propagateExpire_def getExpire_def feedAppendOnlyFile_def
    replicationFeedSlaves_def Let_def mstime_def split: option.split)

lemma ready_lookup [simp]:
  "ready_keys (fst (expireIfNeeded j key s)) = ready_keys s" "ready_keys (fst (lookupKeyWrite j key s)) = ready_keys s"
proof -
  show e: "ready_keys (fst (expireIfNeeded j key s)) = ready_keys s"
    by (simp add: expireIfNeeded_def Let_def case_prod_beta)
  show "ready_keys (fst (lookupKeyWrite j key s)) = ready_keys s" by (simp add: lookupKeyWrite_def Let_def e)
qed

lemma ready_dbAdd:
  "ready_keys (dbAdd j key v s) = ready_keys s \<or> ready_keys (dbAdd j key v s) = ready_keys s @ [(j, key)]"
  by (simp add: dbAdd_def signalListAsReady_def Let_def)

lemma ready_handlePush:
  "ready_keys (rpoplpushHandlePush c dst dobj v s) = ready_keys s \<or>
   ready_keys (rpoplpushHandlePush c dst dobj v s) = ready_keys s @ [(cdb (cl s c), dst)]"
  using ready_dbAdd[of "cdb (cl s c)" dst "ListObj ZIPLIST []" s]
  by (auto simp: rpoplpushHandlePush_def Let_def signalModifiedKey_def split: option.split robj.split)

lemma handlePush_ctx [simp]: "ctx (rpoplpushHandlePush c dst dobj v s) = ctx s"
  by (simp add: rpoplpushHandlePush_def Let_def signalModifiedKey_def split: option.split robj.split)

lemma propagate_ctx [simp]: "ctx (propagate j av a r s) = ctx s"
  by (simp add: propagate_def feedAppendOnlyFile_def replicationFeedSlaves_def ctx_def)

lemma serve_client_ctx [simp]: "ctx (fst (serveClientBlockedOnList c key dst j v wh s)) = ctx s"
  by (simp add: serveClientBlockedOnList_def Let_def case_prod_beta split: option.split)

lemma serve_client_ready:
  "ready_keys (fst (serveClientBlockedOnList c key dst j v wh s)) = ready_keys s \<or>
   (\<exists>k. ready_keys (fst (serveClientBlockedOnList c key dst j v wh s)) = ready_keys s @ [(cdb (cl s c), k)])"
proof (cases dst)
  case None
  then show ?thesis by (simp add: serveClientBlockedOnList_def)
next
  case (Some d)
  let ?s = "propagate j [''RPOP'', key] True True (redisAssert
      (kv (the_db (fst (lookupKeyWrite (cdb (cl s c)) d s)) j) key \<noteq> None) (fst (lookupKeyWrite (cdb (cl s c)) d s)))"
  have "cdb (cl ?s c) = cdb (cl s c)" "ready_keys ?s = ready_keys s" by simp_all
  with ready_handlePush[of c d "snd (lookupKeyWrite (cdb (cl s c)) d s)" v ?s] Some show ?thesis
    by (auto simp: serveClientBlockedOnList_def Let_def case_prod_beta)
qed

text \<open>What a step of the serving may do: it keeps the table and adds a key to the list of ready keys only
  if it has unblocked a client.\<close>

definition served :: "server \<Rightarrow> server \<Rightarrow> bool" where
  "served s t \<longleftrightarrow> blocked_ok t \<and> length (dbs t) = length (dbs s) \<and> blocked_set t \<subseteq> blocked_set s \<and> (ready_ok s \<longrightarrow> ready_ok t) \<and>
     (blocked_set t = blocked_set s \<longrightarrow> ready_keys t = ready_keys s)"

lemma served_trans: "served s t \<Longrightarrow> served t u \<Longrightarrow> served s u"
  by (auto simp: served_def)

lemma served_ctx: "blocked_ok s \<Longrightarrow> ctx t = ctx s \<Longrightarrow> ready_keys t = ready_keys s \<Longrightarrow> served s t"
  by (simp add: served_def blocked_ok_ctx[of t s] blocked_set_ctx[of t s] ctxD(1)[of t s] ready_ok_def)

lemma unblock_served:
  assumes ok: "blocked_ok s" and c: "c \<in> set (waiting s j key)" "j < length (dbs s)"
    and t: "ctx t = ctx (unblockClient c s)" "ready_keys t = ready_keys s \<or> (\<exists>k. ready_keys t = ready_keys s @ [(j, k)])"
  shows "served s t"
proof -
  have k: "key \<in> set (bpop_keys (cl s c))" using blocked_okD(7)[OF ok c(2)] c(1) by blast
  then have ne: "bpop_keys (cl s c) \<noteq> []" by auto
  then have b: "btype (cl s c) = REDIS_BLOCKED_LIST" using blocked_okD(1)[OF ok] by blast
  note u = unblockClient_list[OF ok b]
  have "blocked_set t = blocked_set s - {c}"
    unfolding blocked_set_ctx[OF t(1)] by (auto simp: blocked_set_def u(2,5))
  moreover have "c \<in> blocked_set s" using ne blocked_okD(4)[OF ok ne] by (simp add: blocked_set_def)
  moreover have "length (dbs t) = length (dbs s)" using ctxD(1)[OF t(1)] u(3) by simp
  moreover have "blocked_ok t" using blocked_ok_ctx[OF t(1)] u(11) by simp
  ultimately show ?thesis using t(2) c(2) by (auto simp: served_def ready_ok_def)
qed

lemma serve_clients_served: "blocked_ok s \<Longrightarrow> j < length (dbs s) \<Longrightarrow> served s (serve_clients n j key s)"
proof (induction n arbitrary: s)
  case 0
  then show ?case by (simp add: served_ctx)
next
  case (Suc n)
  have idle: "served s (redisAssert b s)" for b by (rule served_ctx[OF Suc.prems(1)]) simp_all
  show ?case
  proof (cases "\<exists>c cs enc xs. blocking_keys (the_db s j) key = Some (c # cs) \<and>
      kv (the_db s j) key = Some (ListObj enc xs) \<and> listTypePop (enc, xs) (blocked_where (cl s c)) \<noteq> None")
    case False
    show ?thesis
    proof (cases "blocking_keys (the_db s j) key")
      case (Some l)
      with False idle[of True] idle[of False] show ?thesis
        by (cases l) (auto simp: Let_def listTypePop_def split: option.splits robj.splits)
    qed (use idle in simp)
  next
    case True
    then obtain c cs enc xs val ob where b: "blocking_keys (the_db s j) key = Some (c # cs)"
      and l: "kv (the_db s j) key = Some (ListObj enc xs)"
      and p: "listTypePop (enc, xs) (blocked_where (cl s c)) = Some (val, ob)" by (auto simp del: listTypePop_None)
    let ?u = "upd_list j key ob s" and ?wh = "blocked_where (cl s c)"
    let ?v = "fst (serveClientBlockedOnList c key (bpop_target (cl s c)) j val ?wh (unblockClient c ?u))"
    let ?ok = "snd (serveClientBlockedOnList c key (bpop_target (cl s c)) j val ?wh (unblockClient c ?u))"
    define t where "t = (if ?ok then ?v else case kv (the_db ?v j) key of
        Some (ListObj enc xs) \<Rightarrow> upd_list j key (listTypePush ?v (enc, xs) val ?wh) ?v | _ \<Rightarrow> ?v)"
    have e: "serve_clients (Suc n) j key s = serve_clients n j key t"
      unfolding t_def by (simp add: b l p case_prod_beta Let_def cong: option.case_cong robj.case_cong)
    have c: "c \<in> set (waiting s j key)" using b by (simp add: waiting_def)
    then have j: "cdb (cl s c) = j" using blocked_okD(7)[OF Suc.prems] by blast
    have u: "blocked_ok ?u" "waiting ?u j key = waiting s j key" using upd_list_blocked[OF Suc.prems(2)] Suc.prems(1) by simp_all
    have "key \<in> set (bpop_keys (cl ?u c))" using blocked_okD(7)[OF Suc.prems] c by simp
    then have bt: "btype (cl ?u c) = REDIS_BLOCKED_LIST" using blocked_okD(1)[OF u(1), of c] by auto
    note ub = unblockClient_list[OF u(1) bt]
    have vt: "ctx t = ctx ?v" "ready_keys t = ready_keys ?v" by (simp_all add: t_def split: option.split robj.split)
    have "ready_keys ?v = ready_keys s \<or> (\<exists>k. ready_keys ?v = ready_keys s @ [(j, k)])"
      using serve_client_ready[of c key "bpop_target (cl s c)" j val ?wh "unblockClient c ?u"] ub(4,5) j by simp
    then have "served ?u t"
      using unblock_served[OF u(1), of c j key t] c u(2) Suc.prems(2) vt by simp
    then have st: "served s t" using served_trans[OF served_ctx[of s ?u]] Suc.prems(1) by simp
    then have "served t (serve_clients n j key t)" using Suc by (simp add: served_def)
    then show ?thesis using served_trans[OF st] e by simp
  qed
qed

lemma serve_key_served:
  assumes "blocked_ok s" "fst rl < length (dbs s)"
  shows "served s (serve_key rl s)"
proof -
  obtain j key where rl: "rl = (j, key)" by (cases rl)
  let ?u = "upd_db j (\<lambda>d. d\<lparr>db_ready_keys := db_ready_keys d - {key}\<rparr>) s"
  let ?v = "fst (lookupKeyWrite j key ?u)"
  have uv: "served s ?v" by (rule served_ctx[OF assms(1)]) simp_all
  show ?thesis
  proof (cases "\<exists>enc xs. snd (lookupKeyWrite j key ?u) = Some (ListObj enc xs)")
    case False
    then have "serve_key rl s = ?v" by (auto simp: serve_key_def rl Let_def split: prod.split option.split robj.split)
    then show ?thesis using uv by simp
  next
    case True
    define w where "w = (case blocking_keys (the_db ?v j) key of Some l \<Rightarrow> serve_clients (length l) j key ?v | None \<Rightarrow> ?v)"
    have e: "serve_key rl s = (if list_length j key w = 0 then fst (dbDelete j key w) else w)"
      using True by (auto simp: serve_key_def rl Let_def w_def split: prod.split option.split)
    have ok: "blocked_ok ?v" "j < length (dbs ?v)" using uv assms(2) by (simp_all add: served_def rl)
    have vw: "served ?v w" using serve_clients_served[OF ok] served_ctx[OF ok(1)] by (simp add: w_def split: option.split)
    have "served w (serve_key rl s)" using served_ctx[of w "fst (dbDelete j key w)"] served_ctx[of w w] vw
      by (simp add: e served_def)
    then show ?thesis using uv vw served_trans by blast
  qed
qed

lemma serve_keys_served:
  "blocked_ok s \<Longrightarrow> (\<And>rl. rl \<in> set rls \<Longrightarrow> fst rl < length (dbs s)) \<Longrightarrow> served s (fold serve_key rls s)"
proof (induction rls arbitrary: s)
  case Nil
  then show ?case by (simp add: served_ctx)
next
  case (Cons rl rls)
  have s: "served s (serve_key rl s)" using serve_key_served[OF Cons.prems(1)] Cons.prems(2) by simp
  then have "served (serve_key rl s) (fold serve_key rls (serve_key rl s))"
    using Cons by (simp add: served_def)
  then show ?case using served_trans[OF s] by simp
qed

lemma handle_ends:
  "blocked_ok s \<Longrightarrow> ready_ok s \<Longrightarrow> card (blocked_set s) < n \<Longrightarrow>
   \<exists>t. handleClientsBlockedOnLists n s = Some t \<and> ready_keys t = [] \<and> blocked_ok t \<and> blocked_set t \<subseteq> blocked_set s"
proof (induction n arbitrary: s)
  case (Suc n)
  show ?case
  proof (cases "ready_keys s = []")
    case True
    then show ?thesis using Suc.prems by simp
  next
    case False
    let ?s = "s\<lparr>ready_keys := []\<rparr>"
    let ?t = "fold serve_key (ready_keys s) ?s"
    have c: "ctx ?s = ctx s" by (simp add: ctx_def)
    have s: "blocked_ok ?s" "ready_ok ?s" "blocked_set ?s = blocked_set s"
      using Suc.prems blocked_ok_ctx[OF c] blocked_set_ctx[OF c] by (simp_all add: ready_ok_def)
    have f: "served ?s ?t"
      by (rule serve_keys_served[OF s(1)]) (use Suc.prems(2) in \<open>auto simp: ready_ok_def\<close>)
    show ?thesis
    proof (cases "blocked_set ?t = blocked_set s")
      case True
      then have "ready_keys ?t = []" using f s(3) by (simp add: served_def)
      then have "handleClientsBlockedOnLists (Suc n) s = Some ?t" using False by (cases n) simp_all
      then show ?thesis using f s(3) \<open>ready_keys ?t = []\<close> by (auto simp: served_def)
    next
      case less: False
      then have "blocked_set ?t \<subset> blocked_set s" using f s(3) by (auto simp: served_def)
      then have "card (blocked_set ?t) < card (blocked_set s)" by (rule psubset_card_mono[rotated]) simp
      then have "\<exists>t. handleClientsBlockedOnLists n ?t = Some t \<and> ready_keys t = [] \<and> blocked_ok t \<and> blocked_set t \<subseteq> blocked_set ?t"
        using Suc f s by (simp add: served_def)
      then show ?thesis using False f s(3) by (auto simp: served_def)
    qed
  qed
qed simp

end
