(* ===== verification/Commands.thy ===== *)
theory Commands
  imports Server Numstr
begin

text \<open>
  The command table (\<open>redisCommandTable\<close> of \<open>src/redis-3.0/src/redis.c\<close>), with the names of the
  procedures for the pointers to them, its flags, the lookup of a command, and the extraction of
  the keys among the arguments of a command (\<open>db.c\<close>).
\<close>

section \<open>The table\<close>

type_synonym entry = "string \<times> string \<times> int \<times> string \<times> getkeys option \<times> int \<times> int \<times> int"

definition redisCommandTable :: "entry list" where
  "redisCommandTable =
    [(''get'', ''getCommand'', 2, ''rF'', None, 1, 1, 1),
     (''set'', ''setCommand'', - 3, ''wm'', None, 1, 1, 1),
     (''setnx'', ''setnxCommand'', 3, ''wmF'', None, 1, 1, 1),
     (''setex'', ''setexCommand'', 4, ''wm'', None, 1, 1, 1),
     (''psetex'', ''psetexCommand'', 4, ''wm'', None, 1, 1, 1),
     (''append'', ''appendCommand'', 3, ''wm'', None, 1, 1, 1),
     (''strlen'', ''strlenCommand'', 2, ''rF'', None, 1, 1, 1),
     (''del'', ''delCommand'', - 2, ''w'', None, 1, - 1, 1),
     (''exists'', ''existsCommand'', - 2, ''rF'', None, 1, - 1, 1),
     (''setbit'', ''setbitCommand'', 4, ''wm'', None, 1, 1, 1),
     (''getbit'', ''getbitCommand'', 3, ''rF'', None, 1, 1, 1),
     (''setrange'', ''setrangeCommand'', 4, ''wm'', None, 1, 1, 1),
     (''getrange'', ''getrangeCommand'', 4, ''r'', None, 1, 1, 1),
     (''substr'', ''getrangeCommand'', 4, ''r'', None, 1, 1, 1),
     (''incr'', ''incrCommand'', 2, ''wmF'', None, 1, 1, 1),
     (''decr'', ''decrCommand'', 2, ''wmF'', None, 1, 1, 1),
     (''mget'', ''mgetCommand'', - 2, ''r'', None, 1, - 1, 1),
     (''rpush'', ''rpushCommand'', - 3, ''wmF'', None, 1, 1, 1),
     (''lpush'', ''lpushCommand'', - 3, ''wmF'', None, 1, 1, 1),
     (''rpushx'', ''rpushxCommand'', 3, ''wmF'', None, 1, 1, 1),
     (''lpushx'', ''lpushxCommand'', 3, ''wmF'', None, 1, 1, 1),
     (''linsert'', ''linsertCommand'', 5, ''wm'', None, 1, 1, 1),
     (''rpop'', ''rpopCommand'', 2, ''wF'', None, 1, 1, 1),
     (''lpop'', ''lpopCommand'', 2, ''wF'', None, 1, 1, 1),
     (''brpop'', ''brpopCommand'', - 3, ''ws'', None, 1, 1, 1),
     (''brpoplpush'', ''brpoplpushCommand'', 4, ''wms'', None, 1, 2, 1),
     (''blpop'', ''blpopCommand'', - 3, ''ws'', None, 1, - 2, 1),
     (''llen'', ''llenCommand'', 2, ''rF'', None, 1, 1, 1),
     (''lindex'', ''lindexCommand'', 3, ''r'', None, 1, 1, 1),
     (''lset'', ''lsetCommand'', 4, ''wm'', None, 1, 1, 1),
     (''lrange'', ''lrangeCommand'', 4, ''r'', None, 1, 1, 1),
     (''ltrim'', ''ltrimCommand'', 4, ''w'', None, 1, 1, 1),
     (''lrem'', ''lremCommand'', 4, ''w'', None, 1, 1, 1),
     (''rpoplpush'', ''rpoplpushCommand'', 3, ''wm'', None, 1, 2, 1),
     (''sadd'', ''saddCommand'', - 3, ''wmF'', None, 1, 1, 1),
     (''srem'', ''sremCommand'', - 3, ''wF'', None, 1, 1, 1),
     (''smove'', ''smoveCommand'', 4, ''wF'', None, 1, 2, 1),
     (''sismember'', ''sismemberCommand'', 3, ''rF'', None, 1, 1, 1),
     (''scard'', ''scardCommand'', 2, ''rF'', None, 1, 1, 1),
     (''spop'', ''spopCommand'', 2, ''wRsF'', None, 1, 1, 1),
     (''srandmember'', ''srandmemberCommand'', - 2, ''rR'', None, 1, 1, 1),
     (''sinter'', ''sinterCommand'', - 2, ''rS'', None, 1, - 1, 1),
     (''sinterstore'', ''sinterstoreCommand'', - 3, ''wm'', None, 1, - 1, 1),
     (''sunion'', ''sunionCommand'', - 2, ''rS'', None, 1, - 1, 1),
     (''sunionstore'', ''sunionstoreCommand'', - 3, ''wm'', None, 1, - 1, 1),
     (''sdiff'', ''sdiffCommand'', - 2, ''rS'', None, 1, - 1, 1),
     (''sdiffstore'', ''sdiffstoreCommand'', - 3, ''wm'', None, 1, - 1, 1),
     (''smembers'', ''sinterCommand'', 2, ''rS'', None, 1, 1, 1),
     (''sscan'', ''sscanCommand'', - 3, ''rR'', None, 1, 1, 1),
     (''zadd'', ''zaddCommand'', - 4, ''wmF'', None, 1, 1, 1),
     (''zincrby'', ''zincrbyCommand'', 4, ''wmF'', None, 1, 1, 1),
     (''zrem'', ''zremCommand'', - 3, ''wF'', None, 1, 1, 1),
     (''zremrangebyscore'', ''zremrangebyscoreCommand'', 4, ''w'', None, 1, 1, 1),
     (''zremrangebyrank'', ''zremrangebyrankCommand'', 4, ''w'', None, 1, 1, 1),
     (''zremrangebylex'', ''zremrangebylexCommand'', 4, ''w'', None, 1, 1, 1),
     (''zunionstore'', ''zunionstoreCommand'', - 4, ''wm'', Some zunionInterGetKeysProc, 0, 0, 0),
     (''zinterstore'', ''zinterstoreCommand'', - 4, ''wm'', Some zunionInterGetKeysProc, 0, 0, 0),
     (''zrange'', ''zrangeCommand'', - 4, ''r'', None, 1, 1, 1),
     (''zrangebyscore'', ''zrangebyscoreCommand'', - 4, ''r'', None, 1, 1, 1),
     (''zrevrangebyscore'', ''zrevrangebyscoreCommand'', - 4, ''r'', None, 1, 1, 1),
     (''zrangebylex'', ''zrangebylexCommand'', - 4, ''r'', None, 1, 1, 1),
     (''zrevrangebylex'', ''zrevrangebylexCommand'', - 4, ''r'', None, 1, 1, 1),
     (''zcount'', ''zcountCommand'', 4, ''rF'', None, 1, 1, 1),
     (''zlexcount'', ''zlexcountCommand'', 4, ''rF'', None, 1, 1, 1),
     (''zrevrange'', ''zrevrangeCommand'', - 4, ''r'', None, 1, 1, 1),
     (''zcard'', ''zcardCommand'', 2, ''rF'', None, 1, 1, 1),
     (''zscore'', ''zscoreCommand'', 3, ''rF'', None, 1, 1, 1),
     (''zrank'', ''zrankCommand'', 3, ''rF'', None, 1, 1, 1),
     (''zrevrank'', ''zrevrankCommand'', 3, ''rF'', None, 1, 1, 1),
     (''zscan'', ''zscanCommand'', - 3, ''rR'', None, 1, 1, 1),
     (''hset'', ''hsetCommand'', 4, ''wmF'', None, 1, 1, 1),
     (''hsetnx'', ''hsetnxCommand'', 4, ''wmF'', None, 1, 1, 1),
     (''hget'', ''hgetCommand'', 3, ''rF'', None, 1, 1, 1),
     (''hmset'', ''hmsetCommand'', - 4, ''wm'', None, 1, 1, 1),
     (''hmget'', ''hmgetCommand'', - 3, ''r'', None, 1, 1, 1),
     (''hincrby'', ''hincrbyCommand'', 4, ''wmF'', None, 1, 1, 1),
     (''hincrbyfloat'', ''hincrbyfloatCommand'', 4, ''wmF'', None, 1, 1, 1),
     (''hdel'', ''hdelCommand'', - 3, ''wF'', None, 1, 1, 1),
     (''hlen'', ''hlenCommand'', 2, ''rF'', None, 1, 1, 1),
     (''hkeys'', ''hkeysCommand'', 2, ''rS'', None, 1, 1, 1),
     (''hvals'', ''hvalsCommand'', 2, ''rS'', None, 1, 1, 1),
     (''hgetall'', ''hgetallCommand'', 2, ''r'', None, 1, 1, 1),
     (''hexists'', ''hexistsCommand'', 3, ''rF'', None, 1, 1, 1),
     (''hscan'', ''hscanCommand'', - 3, ''rR'', None, 1, 1, 1),
     (''incrby'', ''incrbyCommand'', 3, ''wmF'', None, 1, 1, 1),
     (''decrby'', ''decrbyCommand'', 3, ''wmF'', None, 1, 1, 1),
     (''incrbyfloat'', ''incrbyfloatCommand'', 3, ''wmF'', None, 1, 1, 1),
     (''getset'', ''getsetCommand'', 3, ''wm'', None, 1, 1, 1),
     (''mset'', ''msetCommand'', - 3, ''wm'', None, 1, - 1, 2),
     (''msetnx'', ''msetnxCommand'', - 3, ''wm'', None, 1, - 1, 2),
     (''randomkey'', ''randomkeyCommand'', 1, ''rR'', None, 0, 0, 0),
     (''select'', ''selectCommand'', 2, ''rlF'', None, 0, 0, 0),
     (''move'', ''moveCommand'', 3, ''wF'', None, 1, 1, 1),
     (''rename'', ''renameCommand'', 3, ''w'', None, 1, 2, 1),
     (''renamenx'', ''renamenxCommand'', 3, ''wF'', None, 1, 2, 1),
     (''expire'', ''expireCommand'', 3, ''wF'', None, 1, 1, 1),
     (''expireat'', ''expireatCommand'', 3, ''wF'', None, 1, 1, 1),
     (''pexpire'', ''pexpireCommand'', 3, ''wF'', None, 1, 1, 1),
     (''pexpireat'', ''pexpireatCommand'', 3, ''wF'', None, 1, 1, 1),
     (''keys'', ''keysCommand'', 2, ''rS'', None, 0, 0, 0),
     (''scan'', ''scanCommand'', - 2, ''rR'', None, 0, 0, 0),
     (''dbsize'', ''dbsizeCommand'', 1, ''rF'', None, 0, 0, 0),
     (''auth'', ''authCommand'', 2, ''rsltF'', None, 0, 0, 0),
     (''ping'', ''pingCommand'', - 1, ''rtF'', None, 0, 0, 0),
     (''echo'', ''echoCommand'', 2, ''rF'', None, 0, 0, 0),
     (''save'', ''saveCommand'', 1, ''ars'', None, 0, 0, 0),
     (''bgsave'', ''bgsaveCommand'', 1, ''ar'', None, 0, 0, 0),
     (''bgrewriteaof'', ''bgrewriteaofCommand'', 1, ''ar'', None, 0, 0, 0),
     (''shutdown'', ''shutdownCommand'', - 1, ''arlt'', None, 0, 0, 0),
     (''lastsave'', ''lastsaveCommand'', 1, ''rRF'', None, 0, 0, 0),
     (''type'', ''typeCommand'', 2, ''rF'', None, 1, 1, 1),
     (''multi'', ''multiCommand'', 1, ''rsF'', None, 0, 0, 0),
     (''exec'', ''execCommand'', 1, ''sM'', None, 0, 0, 0),
     (''discard'', ''discardCommand'', 1, ''rsF'', None, 0, 0, 0),
     (''sync'', ''syncCommand'', 1, ''ars'', None, 0, 0, 0),
     (''psync'', ''syncCommand'', 3, ''ars'', None, 0, 0, 0),
     (''replconf'', ''replconfCommand'', - 1, ''arslt'', None, 0, 0, 0),
     (''flushdb'', ''flushdbCommand'', 1, ''w'', None, 0, 0, 0),
     (''flushall'', ''flushallCommand'', 1, ''w'', None, 0, 0, 0),
     (''sort'', ''sortCommand'', - 2, ''wm'', Some sortGetKeysProc, 1, 1, 1),
     (''info'', ''infoCommand'', - 1, ''rlt'', None, 0, 0, 0),
     (''monitor'', ''monitorCommand'', 1, ''ars'', None, 0, 0, 0),
     (''ttl'', ''ttlCommand'', 2, ''rF'', None, 1, 1, 1),
     (''pttl'', ''pttlCommand'', 2, ''rF'', None, 1, 1, 1),
     (''persist'', ''persistCommand'', 2, ''wF'', None, 1, 1, 1),
     (''slaveof'', ''slaveofCommand'', 3, ''ast'', None, 0, 0, 0),
     (''role'', ''roleCommand'', 1, ''lst'', None, 0, 0, 0),
     (''debug'', ''debugCommand'', - 2, ''as'', None, 0, 0, 0),
     (''config'', ''configCommand'', - 2, ''art'', None, 0, 0, 0),
     (''subscribe'', ''subscribeCommand'', - 2, ''rpslt'', None, 0, 0, 0),
     (''unsubscribe'', ''unsubscribeCommand'', - 1, ''rpslt'', None, 0, 0, 0),
     (''psubscribe'', ''psubscribeCommand'', - 2, ''rpslt'', None, 0, 0, 0),
     (''punsubscribe'', ''punsubscribeCommand'', - 1, ''rpslt'', None, 0, 0, 0),
     (''publish'', ''publishCommand'', 3, ''pltrF'', None, 0, 0, 0),
     (''pubsub'', ''pubsubCommand'', - 2, ''pltrR'', None, 0, 0, 0),
     (''watch'', ''watchCommand'', - 2, ''rsF'', None, 1, - 1, 1),
     (''unwatch'', ''unwatchCommand'', 1, ''rsF'', None, 0, 0, 0),
     (''cluster'', ''clusterCommand'', - 2, ''ar'', None, 0, 0, 0),
     (''restore'', ''restoreCommand'', - 4, ''wm'', None, 1, 1, 1),
     (''restore-asking'', ''restoreCommand'', - 4, ''wmk'', None, 1, 1, 1),
     (''migrate'', ''migrateCommand'', - 6, ''w'', None, 0, 0, 0),
     (''asking'', ''askingCommand'', 1, ''r'', None, 0, 0, 0),
     (''readonly'', ''readonlyCommand'', 1, ''rF'', None, 0, 0, 0),
     (''readwrite'', ''readwriteCommand'', 1, ''rF'', None, 0, 0, 0),
     (''dump'', ''dumpCommand'', 2, ''r'', None, 1, 1, 1),
     (''object'', ''objectCommand'', 3, ''r'', None, 2, 2, 2),
     (''client'', ''clientCommand'', - 2, ''rs'', None, 0, 0, 0),
     (''eval'', ''evalCommand'', - 3, ''s'', Some evalGetKeysProc, 0, 0, 0),
     (''evalsha'', ''evalShaCommand'', - 3, ''s'', Some evalGetKeysProc, 0, 0, 0),
     (''slowlog'', ''slowlogCommand'', - 2, ''r'', None, 0, 0, 0),
     (''script'', ''scriptCommand'', - 2, ''rs'', None, 0, 0, 0),
     (''time'', ''timeCommand'', 1, ''rRF'', None, 0, 0, 0),
     (''bitop'', ''bitopCommand'', - 4, ''wm'', None, 2, - 1, 1),
     (''bitcount'', ''bitcountCommand'', - 2, ''r'', None, 1, 1, 1),
     (''bitpos'', ''bitposCommand'', - 3, ''r'', None, 1, 1, 1),
     (''wait'', ''waitCommand'', 3, ''rs'', None, 0, 0, 0),
     (''command'', ''commandCommand'', 0, ''rlt'', None, 0, 0, 0),
     (''pfselftest'', ''pfselftestCommand'', 1, ''r'', None, 0, 0, 0),
     (''pfadd'', ''pfaddCommand'', - 2, ''wmF'', None, 1, 1, 1),
     (''pfcount'', ''pfcountCommand'', - 2, ''r'', None, 1, - 1, 1),
     (''pfmerge'', ''pfmergeCommand'', - 2, ''wm'', None, 1, - 1, 1),
     (''pfdebug'', ''pfdebugCommand'', - 3, ''w'', None, 0, 0, 0),
     (''latency'', ''latencyCommand'', - 2, ''arslt'', None, 0, 0, 0)]"

fun set_flag :: "char \<Rightarrow> command \<Rightarrow> command option" where
  \<comment> \<open>the switch of \<open>populateCommandTable\<close>; \<open>None\<close> is a panic\<close>
  "set_flag f c =
     (if f = CHR ''w'' then Some (c\<lparr>cmd_write := True\<rparr>)
      else if f = CHR ''r'' then Some (c\<lparr>cmd_readonly := True\<rparr>)
      else if f = CHR ''m'' then Some (c\<lparr>cmd_denyoom := True\<rparr>)
      else if f = CHR ''a'' then Some (c\<lparr>cmd_admin := True\<rparr>)
      else if f = CHR ''p'' then Some (c\<lparr>cmd_pubsub := True\<rparr>)
      else if f = CHR ''s'' then Some (c\<lparr>cmd_noscript := True\<rparr>)
      else if f = CHR ''R'' then Some (c\<lparr>cmd_random := True\<rparr>)
      else if f = CHR ''S'' then Some (c\<lparr>cmd_sort_for_script := True\<rparr>)
      else if f = CHR ''l'' then Some (c\<lparr>cmd_loading := True\<rparr>)
      else if f = CHR ''t'' then Some (c\<lparr>cmd_stale := True\<rparr>)
      else if f = CHR ''M'' then Some (c\<lparr>cmd_skip_monitor := True\<rparr>)
      else if f = CHR ''k'' then Some (c\<lparr>cmd_asking := True\<rparr>)
      else if f = CHR ''F'' then Some (c\<lparr>cmd_fast := True\<rparr>)
      else None)"

fun set_flags_loop :: "string \<Rightarrow> command \<Rightarrow> command option" where
  "set_flags_loop [] c = Some c"
| "set_flags_loop (f # fs) c = (case set_flag f c of None \<Rightarrow> None | Some c \<Rightarrow> set_flags_loop fs c)"

fun populateCommandTable :: "entry list \<Rightarrow> (string \<rightharpoonup> command) \<Rightarrow> (string \<rightharpoonup> command) option" where
  \<comment> \<open>the loop over the table; \<open>None\<close> is a panic, for an unknown flag or a name that occurs twice. The
     second dictionary, \<open>orig_commands\<close>, gets the same entries\<close>
  "populateCommandTable [] cs = Some cs"
| "populateCommandTable ((name, prc, ar, sflags, gk, fk, lk, step) # es) cs =
     (case set_flags_loop sflags (no_flags_command name prc ar gk fk lk step) of
        None \<Rightarrow> None
      | Some c \<Rightarrow> if cs name \<noteq> None then None else populateCommandTable es (cs(name \<mapsto> c)))"

definition lookupCommand :: "(string \<rightharpoonup> command) \<Rightarrow> string \<Rightarrow> command option" where
  \<comment> \<open>the dictionary is keyed by names without regard to case: it is looked up with the name in
     lower case, in which all names of the table are\<close>
  "lookupCommand cs name = cs (map (\<lambda>c. char_of (nat (c_tolower (of_char c)))) name)"

section \<open>Keys among the arguments\<close>

text \<open>A result is \<open>None\<close> where the code would fail: an assertion, an allocation of a negative number of
  bytes, or a write outside the array.\<close>

fun key_loop :: "nat \<Rightarrow> int \<Rightarrow> int \<Rightarrow> int \<Rightarrow> int \<Rightarrow> int list \<Rightarrow> int list option" where
  \<comment> \<open>\<open>for (j = first; j <= last; j += step)\<close>, with fuel for a step of 0\<close>
  "key_loop 0 j lst step argc keys = None"
| "key_loop (Suc n) j lst step argc keys =
     (if j \<le> lst then (if j < argc then key_loop n (j + step) lst step argc (keys @ [j]) else None)
      else Some keys)"

definition getKeysUsingCommandTable :: "command \<Rightarrow> int \<Rightarrow> int list option" where
  "getKeysUsingCommandTable cmd argc =
     (if firstkey cmd = 0 then Some []
      else
        let lst = (if lastkey cmd < 0 then argc + lastkey cmd else lastkey cmd) in
        if lst - firstkey cmd + 1 < 0 then None
        else key_loop (nat (lst - firstkey cmd + 2)) (firstkey cmd) lst (keystep cmd) argc [])"

definition atoi :: "string \<Rightarrow> int" where
  \<comment> \<open>\<open>atoi\<close>, which behaves like \<open>(int) strtol\<close> for the numbers it is defined on\<close>
  "atoi str = s32 (fst (strtoll str))"

definition zunionInterGetKeys :: "string list \<Rightarrow> int list option" where
  "zunionInterGetKeys av =
     (let argc = int (length av); num = atoi (av ! 2) in
      if num > argc - 3 then Some []
      else if num < 0 then None
      else Some (map (\<lambda>i. 3 + int i) [0..<nat num] @ [1]))"

definition evalGetKeys :: "string list \<Rightarrow> int list option" where
  "evalGetKeys av =
     (let argc = int (length av); num = atoi (av ! 2) in
      if num > argc - 3 then Some []
      else if num < 0 then None
      else Some (map (\<lambda>i. 3 + int i) [0..<nat num]))"

definition sort_skip :: "string \<Rightarrow> nat option" where
  \<comment> \<open>the number of arguments to skip after an option of the \<open>skiplist\<close>\<close>
  "sort_skip a =
     (if eq_nocase_str a ''limit'' then Some 2
      else if eq_nocase_str a ''get'' then Some 1
      else if eq_nocase_str a ''by'' then Some 1
      else None)"

function sort_loop :: "string list \<Rightarrow> nat \<Rightarrow> int option \<Rightarrow> int option" where
  \<comment> \<open>the loop from the second argument on: the position of the key of the last STORE\<close>
  "sort_loop av i store =
     (if i < length av then
        (if eq_nocase_str (av ! i) ''store'' \<and> i + 1 < length av then sort_loop av (i + 1) (Some (int i + 1))
         else
           case sort_skip (av ! i) of
             Some skip \<Rightarrow> sort_loop av (i + skip + 1) store
           | None \<Rightarrow> sort_loop av (i + 1) store)
      else store)"
  by pat_completeness auto
termination by (relation "measure (\<lambda>(av, i, _). length av - i)") auto

declare sort_loop.simps [simp del]

definition sortGetKeys :: "string list \<Rightarrow> int list option" where
  "sortGetKeys av = Some ([1] @ (case sort_loop av 2 None of None \<Rightarrow> [] | Some k \<Rightarrow> [k]))"

definition getKeysFromCommand :: "command \<Rightarrow> string list \<Rightarrow> int list option" where
  "getKeysFromCommand cmd av =
     (case getkeys_proc cmd of
        Some zunionInterGetKeysProc \<Rightarrow> zunionInterGetKeys av
      | Some evalGetKeysProc \<Rightarrow> evalGetKeys av
      | Some sortGetKeysProc \<Rightarrow> sortGetKeys av
      | None \<Rightarrow> getKeysUsingCommandTable cmd (int (length av)))"

section \<open>The table is well formed\<close>

fun entry_command :: "entry \<Rightarrow> command option" where
  "entry_command (name, prc, ar, sflags, gk, fk, lk, step) =
     set_flags_loop sflags (no_flags_command name prc ar gk fk lk step)"

lemma set_flag_keeps:
  "set_flag f c = Some d \<Longrightarrow> cmd_name d = cmd_name c \<and> cmd_proc d = cmd_proc c \<and> arity d = arity c \<and>
    getkeys_proc d = getkeys_proc c \<and> firstkey d = firstkey c \<and> lastkey d = lastkey c \<and> keystep d = keystep c"
  unfolding set_flag.simps by (simp split: if_split_asm) (drule sym, simp)+

declare set_flag.simps [simp del]

lemma set_flags_keeps:
  "set_flags_loop fs c = Some d \<Longrightarrow> cmd_name d = cmd_name c \<and> cmd_proc d = cmd_proc c \<and> arity d = arity c \<and>
    getkeys_proc d = getkeys_proc c \<and> firstkey d = firstkey c \<and> lastkey d = lastkey c \<and> keystep d = keystep c"
proof (induction fs arbitrary: c)
  case (Cons f fs)
  then obtain e where e: "set_flag f c = Some e" "set_flags_loop fs e = Some d" by (auto split: option.splits)
  from set_flag_keeps[OF e(1)] Cons.IH[OF e(2)] show ?case by simp
qed simp

lemma populate_ok:
  assumes "distinct (map fst es)" "\<forall>e \<in> set es. entry_command e \<noteq> None" "\<forall>e \<in> set es. cs (fst e) = None"
  shows "populateCommandTable es cs = Some (\<lambda>name. case map_of (map (\<lambda>e. (fst e, the (entry_command e))) es) name of
    None \<Rightarrow> cs name | Some c \<Rightarrow> Some c)"
  using assms
proof (induction es arbitrary: cs)
  case (Cons e es)
  obtain name r where nr: "e = (name, r)" by (rule prod.exhaust)
  obtain prc ar sflags gk fk lk step where r: "r = (prc, ar, sflags, gk, fk, lk, step)" by (rule prod_cases7)
  from nr r have e: "e = (name, prc, ar, sflags, gk, fk, lk, step)" by simp
  from Cons.prems(2) obtain c where c: "entry_command e = Some c" by auto
  have n: "map_of (map (\<lambda>e. (fst e, the (entry_command e))) es) name = None"
    using Cons.prems(1) by (force simp: e map_of_eq_None_iff)
  have "populateCommandTable (e # es) cs = populateCommandTable es (cs(name \<mapsto> c))"
    using c Cons.prems(3) by (simp add: e)
  also have "\<dots> = Some (\<lambda>x. case map_of (map (\<lambda>e. (fst e, the (entry_command e))) es) x of
      None \<Rightarrow> (cs(name \<mapsto> c)) x | Some c \<Rightarrow> Some c)"
    using Cons.prems by (intro Cons.IH) (auto simp: e)
  finally show ?case using c n by (auto simp: e fun_eq_iff split: option.split)
qed (simp add: fun_eq_iff)

definition name_code :: "string \<Rightarrow> int" where
  "name_code s = foldl (\<lambda>n c. n * 256 + of_char c) 1 s"

fun increasing :: "int list \<Rightarrow> bool" where
  "increasing (x # y # xs) \<longleftrightarrow> x < y \<and> increasing (y # xs)"
| "increasing _ \<longleftrightarrow> True"

lemma increasing_distinct: "increasing xs \<Longrightarrow> distinct xs \<and> (\<forall>y \<in> set (tl xs). hd xs < y)"
  by (induction xs rule: increasing.induct) (auto 4 3)

lemma table_distinct: "distinct (map fst redisCommandTable)"
proof -
  have "increasing (sort (map (\<lambda>e. name_code (fst e)) redisCommandTable))"
    unfolding redisCommandTable_def by code_simp
  then have "distinct (map name_code (map fst redisCommandTable))"
    using increasing_distinct distinct_sort by (fastforce simp: o_def)
  then show ?thesis by (simp only: distinct_map[of name_code])
qed

lemma table_flags: "list_all (\<lambda>e. entry_command e \<noteq> None) redisCommandTable"
  unfolding redisCommandTable_def by code_simp

definition lower_str :: "string \<Rightarrow> string" where
  "lower_str name = map (\<lambda>c. char_of (nat (c_tolower (of_char c)))) name"

lemma lookup_lower: "lookupCommand cs name = cs (lower_str name)"
  by (simp add: lookupCommand_def lower_str_def)

text \<open>What the checks on a request guarantee about the number of its arguments.\<close>

definition arity_ok :: "command \<Rightarrow> int \<Rightarrow> bool" where
  "arity_ok c argc \<longleftrightarrow> \<not> ((arity c > 0 \<and> arity c \<noteq> argc) \<or> argc < - arity c)"

fun raw_wf :: "entry \<Rightarrow> bool" where
  "raw_wf (name, prc, ar, sflags, gk, fk, lk, step) \<longleftrightarrow> list_all (\<lambda>c. of_char c < (65 :: int) \<or> 90 < (of_char c :: int)) name \<and>
     \<not> (list_ex (\<lambda>f. f = CHR ''w'') sflags \<and> list_ex (\<lambda>f. f = CHR ''r'') sflags) \<and>
     (list_ex (\<lambda>f. f = CHR ''m'') sflags \<longrightarrow> list_ex (\<lambda>f. f = CHR ''w'') sflags) \<and>
     (fk = 0 \<or> 0 < fk \<and> 0 < step \<and> ar \<noteq> 0 \<and> fk < \<bar>ar\<bar> \<and>
       (if lk < 0 then fk - 1 \<le> \<bar>ar\<bar> + lk else fk - 1 \<le> lk \<and> lk < \<bar>ar\<bar>))"

lemma table_raw: "list_all raw_wf redisCommandTable"
  unfolding redisCommandTable_def by code_simp

lemma lower_same: "list_all (\<lambda>c. of_char c < (65 :: int) \<or> 90 < (of_char c :: int)) name \<Longrightarrow> lower_str name = name"
  by (induction name) (auto simp: lower_str_def c_tolower_def of_char_int_nat)

lemma set_flag_bits:
  "set_flag f c = Some d \<Longrightarrow> cmd_write d = (cmd_write c \<or> f = CHR ''w'') \<and> cmd_readonly d = (cmd_readonly c \<or> f = CHR ''r'') \<and>
    cmd_denyoom d = (cmd_denyoom c \<or> f = CHR ''m'')"
  unfolding set_flag.simps by (simp split: if_split_asm) (drule sym, simp)+

lemma set_flags_bits:
  "set_flags_loop fs c = Some d \<Longrightarrow> cmd_write d = (cmd_write c \<or> CHR ''w'' \<in> set fs) \<and>
    cmd_readonly d = (cmd_readonly c \<or> CHR ''r'' \<in> set fs) \<and> cmd_denyoom d = (cmd_denyoom c \<or> CHR ''m'' \<in> set fs)"
proof (induction fs arbitrary: c)
  case (Cons f fs)
  then obtain e where e: "set_flag f c = Some e" "set_flags_loop fs e = Some d" by (auto split: option.splits)
  from set_flag_bits[OF e(1)] Cons.IH[OF e(2)] show ?case by auto
qed simp

lemma entry_wf:
  assumes "e \<in> set redisCommandTable" "entry_command e = Some c"
  shows "lower_str (fst e) = fst e" "\<not> (cmd_write c \<and> cmd_readonly c)" "cmd_denyoom c \<longrightarrow> cmd_write c"
    "firstkey c = 0 \<or> 0 < firstkey c \<and> 0 < keystep c \<and> arity c \<noteq> 0 \<and> firstkey c < \<bar>arity c\<bar> \<and>
      (if lastkey c < 0 then firstkey c - 1 \<le> \<bar>arity c\<bar> + lastkey c
       else firstkey c - 1 \<le> lastkey c \<and> lastkey c < \<bar>arity c\<bar>)"
proof -
  obtain name r where nr: "e = (name, r)" by (rule prod.exhaust)
  obtain prc ar sflags gk fk lk step where r: "r = (prc, ar, sflags, gk, fk, lk, step)" by (rule prod_cases7)
  have loop: "set_flags_loop sflags (no_flags_command name prc ar gk fk lk step) = Some c"
    using assms(2) by (simp add: nr r)
  have raw: "raw_wf (name, prc, ar, sflags, gk, fk, lk, step)"
    using bspec[OF table_raw[unfolded list_all_iff] assms(1)] by (simp only: nr r)
  note k = set_flags_keeps[OF loop] and b = set_flags_bits[OF loop]
  show "lower_str (fst e) = fst e" using raw by (simp add: nr lower_same)
  show "\<not> (cmd_write c \<and> cmd_readonly c)" "cmd_denyoom c \<longrightarrow> cmd_write c"
    using raw b by (auto simp: no_flags_command_def list_ex_iff)
  show "firstkey c = 0 \<or> 0 < firstkey c \<and> 0 < keystep c \<and> arity c \<noteq> 0 \<and> firstkey c < \<bar>arity c\<bar> \<and>
      (if lastkey c < 0 then firstkey c - 1 \<le> \<bar>arity c\<bar> + lastkey c
       else firstkey c - 1 \<le> lastkey c \<and> lastkey c < \<bar>arity c\<bar>)"
    using raw k by (auto simp: no_flags_command_def)
qed

lemma key_loop_bounds:
  "0 < step \<Longrightarrow> 0 < j \<Longrightarrow> lst < argc \<Longrightarrow> nat (lst - j + 1) < n \<Longrightarrow> \<forall>k \<in> set keys. 0 < k \<and> k < argc \<Longrightarrow>
   \<exists>ks. key_loop n j lst step argc keys = Some ks \<and> (\<forall>k \<in> set ks. 0 < k \<and> k < argc)"
proof (induction n arbitrary: j keys)
  case (Suc n)
  show ?case
  proof (cases "j \<le> lst")
    case True
    with Suc.prems have "nat (lst - (j + step) + 1) < n" "0 < j + step" "j < argc" by linarith+
    moreover have "\<forall>k \<in> set (keys @ [j]). 0 < k \<and> k < argc" using Suc.prems \<open>j < argc\<close> by auto
    ultimately show ?thesis using Suc.IH[of "j + step" "keys @ [j]"] Suc.prems(1,3) True by simp
  qed (use Suc.prems in simp)
qed simp

text \<open>C30: the table of commands is accepted at start-up: every flag is known and no name occurs twice.
  Each name is looked up to its own entry, no command is both a write and a read command, and only
  write commands are refused for lack of memory.\<close>

theorem commandTable_loads:
  "\<exists>cs. populateCommandTable redisCommandTable Map.empty = Some cs \<and>
     (\<forall>e \<in> set redisCommandTable. lookupCommand cs (fst e) = entry_command e \<and>
        (\<exists>c. entry_command e = Some c \<and> \<not> (cmd_write c \<and> cmd_readonly c) \<and> (cmd_denyoom c \<longrightarrow> cmd_write c)))"
proof -
  let ?m = "map_of (map (\<lambda>e. (fst e, the (entry_command e))) redisCommandTable)"
  have ok: "\<forall>e \<in> set redisCommandTable. entry_command e \<noteq> None" using table_flags by (simp add: list_all_iff)
  have "populateCommandTable redisCommandTable Map.empty = Some (\<lambda>x. case ?m x of None \<Rightarrow> None | Some c \<Rightarrow> Some c)"
    using populate_ok[OF table_distinct ok, of Map.empty] by simp
  then have pop: "populateCommandTable redisCommandTable Map.empty = Some ?m"
    by (simp add: option.case_eq_if fun_eq_iff)
  have look: "?m (fst e) = entry_command e" if "e \<in> set redisCommandTable" for e
  proof -
    have "(fst e, the (entry_command e)) \<in> set (map (\<lambda>e. (fst e, the (entry_command e))) redisCommandTable)"
      using that by auto
    moreover have "distinct (map fst (map (\<lambda>e. (fst e, the (entry_command e))) redisCommandTable))"
      using table_distinct by (simp add: o_def)
    ultimately have "?m (fst e) = Some (the (entry_command e))" by (rule map_of_is_SomeI[rotated])
    with ok that show ?thesis by auto
  qed
  have some: "\<exists>c. entry_command e = Some c" if "e \<in> set redisCommandTable" for e
    using ok that by auto
  have "lookupCommand ?m (fst e) = entry_command e \<and>
      (\<exists>c. entry_command e = Some c \<and> \<not> (cmd_write c \<and> cmd_readonly c) \<and> (cmd_denyoom c \<longrightarrow> cmd_write c))"
    if e: "e \<in> set redisCommandTable" for e
  proof -
    obtain c where c: "entry_command e = Some c" using some[OF e] by blast
    have "lookupCommand ?m (fst e) = ?m (fst e)" by (simp only: lookup_lower entry_wf(1)[OF e c])
    then show ?thesis using look[OF e] c entry_wf(2,3)[OF e c] by simp
  qed
  with pop show ?thesis by blast
qed

theorem commandTable_loads_witness:
  "\<exists>cs c. populateCommandTable redisCommandTable Map.empty = Some cs \<and> lookupCommand cs ''get'' = Some c \<and> \<not> (cmd_write c \<and> cmd_readonly c)"
proof -
  have "hd redisCommandTable \<in> set redisCommandTable" "fst (hd redisCommandTable) = ''get''"
    by (simp_all only: redisCommandTable_def list.sel list.set_intros fst_conv)
  with commandTable_loads show ?thesis by metis
qed

text \<open>C29: for a request with as many arguments as its command asks for, the positions of the keys that
  are read off the command table lie among the arguments: no assertion fails and no array is
  overrun.\<close>

theorem keys_in_bounds:
  assumes "e \<in> set redisCommandTable" "entry_command e = Some c" "getkeys_proc c = None"
    "arity_ok c (int (length av))" "av \<noteq> []"
  shows "\<exists>ks. getKeysFromCommand c av = Some ks \<and> (\<forall>k \<in> set ks. 0 < k \<and> k < int (length av))"
proof (cases "firstkey c = 0")
  case True
  then show ?thesis using assms(3) by (simp add: getKeysFromCommand_def getKeysUsingCommandTable_def)
next
  case False
  let ?argc = "int (length av)"
  let ?lst = "if lastkey c < 0 then ?argc + lastkey c else lastkey c"
  have k: "0 < firstkey c" "0 < keystep c" "arity c \<noteq> 0" "firstkey c < \<bar>arity c\<bar>"
    "if lastkey c < 0 then firstkey c - 1 \<le> \<bar>arity c\<bar> + lastkey c
     else firstkey c - 1 \<le> lastkey c \<and> lastkey c < \<bar>arity c\<bar>"
    using entry_wf(4)[OF assms(1,2)] False by auto
  have argc: "\<bar>arity c\<bar> \<le> ?argc" using assms(4) k(3) by (auto simp: arity_ok_def)
  have l: "?lst < ?argc" "0 \<le> ?lst - firstkey c + 1" using k(5) argc by (auto split: if_splits)
  obtain ks where "key_loop (nat (?lst - firstkey c + 2)) (firstkey c) ?lst (keystep c) ?argc [] = Some ks"
    "\<forall>k \<in> set ks. 0 < k \<and> k < ?argc"
    using key_loop_bounds[OF k(2,1) l(1), of "nat (?lst - firstkey c + 2)" "[]"] l(2) by auto
  then show ?thesis
    using assms(3) False l(2) by (auto simp: getKeysFromCommand_def getKeysUsingCommandTable_def Let_def)
qed

theorem keys_in_bounds_witness:
  "\<exists>e c ks. e \<in> set redisCommandTable \<and> entry_command e = Some c \<and>
     getKeysFromCommand c [''GET'', ''k''] = Some ks \<and> (\<forall>k \<in> set ks. 0 < k \<and> k < 2)"
proof -
  have e: "hd redisCommandTable \<in> set redisCommandTable"
    "hd redisCommandTable = (''get'', ''getCommand'', 2, ''rF'', None, 1, 1, 1)"
    by (simp_all only: redisCommandTable_def list.sel list.set_intros)
  obtain c where c: "entry_command (hd redisCommandTable) = Some c" "getkeys_proc c = None" "arity c = 2"
    unfolding e(2) by (simp add: set_flag.simps no_flags_command_def)
  have "\<exists>ks. getKeysFromCommand c [''GET'', ''k''] = Some ks \<and> (\<forall>k \<in> set ks. 0 < k \<and> k < 2)"
    using keys_in_bounds[OF e(1) c(1,2), of "[''GET'', ''k'']"] c(3) by (simp add: arity_ok_def)
  with e(1) c(1) show ?thesis by blast
qed

text \<open>the functions that read a number of keys from the arguments accept a negative one, which passes
  the arity check and the only test on it: the array is then allocated with a negative size and
  written before its start.\<close>

theorem numkeys_negative:
  "zunionInterGetKeys [''ZUNIONSTORE'', ''dst'', ''-1'', ''src''] = None \<and> evalGetKeys [''EVAL'', ''return 1'', ''-1''] = None"
proof -
  have "atoi ''-1'' = - 1" by code_simp
  then show ?thesis by (simp add: zunionInterGetKeys_def evalGetKeys_def)
qed

end
