(* ===== verification/Multi.thy ===== *)
theory Multi
  imports CommandInv Commands
begin

text \<open>
  Transactions (\<open>src/redis-3.0/src/multi.c\<close>) and the execution of a command (\<open>call\<close> of
  \<open>redis.c\<close>). A command points to its procedure: \<open>call\<close> and \<open>EXEC\<close> take the table of procedures as an
  argument, from the name of a procedure to its effect. The slow log, the latency samples and the
  statistics of a command are left out of \<open>call\<close>, and so is \<open>alsoPropagate\<close>, which no command uses.
\<close>

type_synonym procs = "string \<Rightarrow> nat \<Rightarrow> server \<Rightarrow> server"

section \<open>The code\<close>

definition queueMultiCommand :: "nat \<Rightarrow> server \<Rightarrow> server" where
  "queueMultiCommand c = upd_client c (\<lambda>x. x\<lparr>mcommands := mcommands x @ [(ccmd x, cargv x)]\<rparr>)"

definition initClientMultiState :: "nat \<Rightarrow> server \<Rightarrow> server" where
  "initClientMultiState c = upd_client c (\<lambda>x. x\<lparr>mcommands := []\<rparr>)"

definition discardTransaction :: "nat \<Rightarrow> server \<Rightarrow> server" where
  "discardTransaction c s =
     (let s = initClientMultiState c s;
          s = upd_client c (\<lambda>x. x\<lparr>f_multi := False, f_dirty_cas := False, f_dirty_exec := False\<rparr>) s
      in unwatchAllKeys c s)"

definition flagTransaction :: "nat \<Rightarrow> server \<Rightarrow> server" where
  "flagTransaction c s = (if f_multi (cl s c) then upd_client c (\<lambda>x. x\<lparr>f_dirty_exec := True\<rparr>) s else s)"

definition multiCommand :: "nat \<Rightarrow> server \<Rightarrow> server" where
  "multiCommand c s =
     (if f_multi (cl s c) then addReply c (RError ''ERR MULTI calls can not be nested'') s
      else addReply c shared_ok (upd_client c (\<lambda>x. x\<lparr>f_multi := True\<rparr>) s))"

definition discardCommand :: "nat \<Rightarrow> server \<Rightarrow> server" where
  "discardCommand c s =
     (if \<not> f_multi (cl s c) then addReply c (RError ''ERR DISCARD without MULTI'') s
      else addReply c shared_ok (discardTransaction c s))"

definition replicationFeedMonitors :: "nat \<Rightarrow> string list \<Rightarrow> server \<Rightarrow> server" where
  \<comment> \<open>what the monitors are shown, without the time and the address of the client\<close>
  "replicationFeedMonitors dbid av s = s\<lparr>monitor_log := monitor_log s @ [(dbid, av)]\<rparr>"

definition propagate_call :: "nat \<Rightarrow> int \<Rightarrow> server \<Rightarrow> server" where
  \<comment> \<open>the propagation of a command that has made a number of changes\<close>
  "propagate_call c changes s =
     (let repl = (f_force_repl (cl s c) \<or> changes \<noteq> 0); aof = (f_force_aof (cl s c) \<or> changes \<noteq> 0)
      in if aof \<or> repl then propagate (cdb (cl s c)) (argv s c) aof repl s else s)"

definition call :: "procs \<Rightarrow> bool \<Rightarrow> nat \<Rightarrow> server \<Rightarrow> server" where
  \<comment> \<open>the flag is \<open>REDIS_CALL_PROPAGATE\<close>\<close>
  "call prc call_propagate c s =
     (let cmd = ccmd (cl s c);
          old_aof = f_force_aof (cl s c); old_repl = f_force_repl (cl s c);
          s = (if monitors s \<noteq> [] \<and> \<not> loading s \<and> \<not> (cmd_skip_monitor cmd \<or> cmd_admin cmd)
               then replicationFeedMonitors (cdb (cl s c)) (argv s c) s else s);
          s = upd_client c (\<lambda>x. x\<lparr>f_force_aof := False, f_force_repl := False\<rparr>) s;
          before = dirty s;
          s = prc (cmd_proc cmd) c s;
          changes = dirty s - before;
          changes = (if changes < 0 then 0 else changes);
          s = (if call_propagate then propagate_call c changes s else s);
          s = upd_client c (\<lambda>x. x\<lparr>f_force_aof := old_aof, f_force_repl := old_repl\<rparr>) s
      in s\<lparr>stat_numcommands := stat_numcommands s + 1\<rparr>)"

definition execCommandPropagateMulti :: "nat \<Rightarrow> server \<Rightarrow> server" where
  "execCommandPropagateMulti c s = propagate (cdb (cl s c)) [''MULTI''] True True s"

fun exec_loop :: "procs \<Rightarrow> nat \<Rightarrow> (command \<times> string list) list \<Rightarrow> bool \<Rightarrow> server \<Rightarrow> server \<times> bool" where
  \<comment> \<open>the queue is dropped when the loop ends: what commands do to their arguments is not written back\<close>
  "exec_loop prc c [] must s = (s, must)"
| "exec_loop prc c ((cmd, av) # cs) must s =
     (let s = upd_client c (\<lambda>x. x\<lparr>cargv := av, ccmd := cmd\<rparr>) s;
          (s, must) = (if \<not> must \<and> \<not> cmd_readonly cmd then (execCommandPropagateMulti c s, True) else (s, must));
          s = call prc True c s
      in exec_loop prc c cs must s)"

definition feed_exec_monitors :: "nat \<Rightarrow> server \<Rightarrow> server" where
  "feed_exec_monitors c s =
     (if monitors s \<noteq> [] \<and> \<not> loading s then replicationFeedMonitors (cdb (cl s c)) (argv s c) s else s)"

definition execCommand :: "procs \<Rightarrow> nat \<Rightarrow> server \<Rightarrow> server" where
  "execCommand prc c s =
     (if \<not> f_multi (cl s c) then addReply c (RError ''ERR EXEC without MULTI'') s
      else if f_dirty_cas (cl s c) \<or> f_dirty_exec (cl s c) then
        (let s = addReply c (if f_dirty_exec (cl s c)
                   then RError ''EXECABORT Transaction discarded because of previous errors.'' else RNullMulti) s;
             s = discardTransaction c s
         in feed_exec_monitors c s)
      else
        let s = unwatchAllKeys c s;
            orig_argv = argv s c; orig_cmd = ccmd (cl s c);
            queue = mcommands (cl s c);
            s = addReply c (RMulti (int (length queue))) s;
            (s, must_propagate) = exec_loop prc c queue False s;
            s = upd_client c (\<lambda>x. x\<lparr>cargv := orig_argv, ccmd := orig_cmd\<rparr>) s;
            s = discardTransaction c s;
            s = (if must_propagate then s\<lparr>dirty := dirty s + 1\<rparr> else s)
        in feed_exec_monitors c s)"

definition watchCommand :: "nat \<Rightarrow> server \<Rightarrow> server" where
  "watchCommand c s =
     (if f_multi (cl s c) then addReply c (RError ''ERR WATCH inside MULTI is not allowed'') s
      else addReply c shared_ok (fold (watchForKey c) (tl (argv s c)) s))"

definition unwatchCommand :: "nat \<Rightarrow> server \<Rightarrow> server" where
  "unwatchCommand c s =
     addReply c shared_ok (upd_client c (\<lambda>x. x\<lparr>f_dirty_cas := False\<rparr>) (unwatchAllKeys c s))"

end
