(* ===== verification/CommandLoop.thy ===== *)
theory CommandLoop
  imports BlockedInv Multi
begin

text \<open>
  From a request to the execution of a command (\<open>processCommand\<close> of \<open>src/redis-3.0/src/redis.c\<close>): the
  checks that a request must pass, the redirection of requests in a cluster
  (\<open>getNodeByQuery\<close> of \<open>cluster.c\<close>), and the password check of \<open>AUTH\<close>.

  The settings and the states of other subsystems that the checks read are a record
  (\<open>config\<close>). \<open>freeMemoryIfNeeded\<close> evicts keys according to the bytes that the allocator reports: it is a
  field of the record, a function on the state with a flag that is True for \<open>REDIS_OK\<close>. Scripts do not pass through
  these functions, so there is no Lua client here.
\<close>

section \<open>Passwords\<close>

definition c_str :: "string \<Rightarrow> string" where
  \<comment> \<open>the bytes that a C string function sees of an sds\<close>
  "c_str b = takeWhile (\<lambda>c. c \<noteq> NUL) b"

definition strlen :: "string \<Rightarrow> nat" where
  "strlen b = length (takeWhile (\<lambda>c. c \<noteq> NUL) b)"

abbreviation REDIS_AUTHPASS_MAX_LEN :: nat where
  "REDIS_AUTHPASS_MAX_LEN \<equiv> 512"

definition auth_buf :: "string \<Rightarrow> char list" where
  \<comment> \<open>\<open>memset\<close> and \<open>memcpy\<close> of a buffer\<close>
  "auth_buf a = take (strlen a) a @ replicate (REDIS_AUTHPASS_MAX_LEN - strlen a) NUL"

definition time_independent_strcmp :: "string \<Rightarrow> string \<Rightarrow> nat" where
  "time_independent_strcmp a b =
     (let alen = strlen a; blen = strlen b in
      if alen > REDIS_AUTHPASS_MAX_LEN \<or> blen > REDIS_AUTHPASS_MAX_LEN then 1
      else
        let diff = fold (\<lambda>j diff. diff OR (of_char (auth_buf a ! j) XOR of_char (auth_buf b ! j)))
                     [0..<REDIS_AUTHPASS_MAX_LEN] (0 :: nat)
        in diff OR (alen XOR blen))"

section \<open>Settings\<close>

datatype redir =
    REDIR_NONE | REDIR_CROSS_SLOT | REDIR_UNSTABLE | REDIR_ASK | REDIR_MOVED | REDIR_DOWN_STATE | REDIR_DOWN_UNBOUND

text \<open>A node of the cluster is named by a number.\<close>

record cluster_state =
  cluster_ok :: bool
  myself :: nat
  slot_node :: "nat \<rightharpoonup> nat"
  migrating_slots_to :: "nat \<rightharpoonup> nat"
  importing_slots_from :: "nat \<rightharpoonup> nat"
  myself_is_slave :: bool
  slaveof :: "nat option"
  node_addr :: "nat \<Rightarrow> string \<times> int"

record config =
  commands :: "string \<rightharpoonup> command"
  requirepass :: "string option"
  cluster :: cluster_state
  maxmemory :: nat
  freeMemoryIfNeeded :: "server \<Rightarrow> server \<times> bool"
  stop_writes_on_bgsave_err :: bool
  saveparamslen :: nat
  lastbgsave_ok :: bool
  aof_last_write_ok :: bool
  aof_last_write_errno :: string
  repl_min_slaves_to_write :: int
  repl_min_slaves_max_lag :: int
  repl_good_slaves_count :: int
  repl_slave_ro :: bool
  repl_connected :: bool
  repl_serve_stale_data :: bool
  lua_timedout :: bool

definition authCommand :: "config \<Rightarrow> nat \<Rightarrow> server \<Rightarrow> server" where
  "authCommand cfg c s =
     (case requirepass cfg of
        None \<Rightarrow> addReply c (RError ''ERR Client sent AUTH, but no password is set'') s
      | Some pass \<Rightarrow>
          if time_independent_strcmp (argv s c ! 1) pass = 0 then
            addReply c shared_ok (upd_client c (\<lambda>x. x\<lparr>authenticated := True\<rparr>) s)
          else
            addReply c (RError ''ERR invalid password'') (upd_client c (\<lambda>x. x\<lparr>authenticated := False\<rparr>) s))"

section \<open>Redirection in a cluster\<close>

record query =
  q_first :: "string option"
  q_slot :: nat
  q_node :: "nat option"
  q_multiple :: bool
  q_migrating :: bool
  q_importing :: bool
  q_missing :: nat

definition query0 :: query where
  "query0 = \<lparr>q_first = None, q_slot = 0, q_node = None, q_multiple = False, q_migrating = False, q_importing = False,
     q_missing = 0\<rparr>"

definition query_key :: "cluster_state \<Rightarrow> string \<Rightarrow> query \<Rightarrow> redir + query" where
  \<comment> \<open>the slot and the node of one key; an error ends the search\<close>
  "query_key cs key q =
     (let thisslot = keyHashSlot key in
      case q_first q of
        None \<Rightarrow>
          (case slot_node cs thisslot of
             None \<Rightarrow> Inl REDIR_DOWN_UNBOUND
           | Some n \<Rightarrow>
               let q = q\<lparr>q_first := Some key, q_slot := thisslot, q_node := Some n\<rparr> in
               if n = myself cs \<and> migrating_slots_to cs thisslot \<noteq> None then Inr (q\<lparr>q_migrating := True\<rparr>)
               else if importing_slots_from cs thisslot \<noteq> None then Inr (q\<lparr>q_importing := True\<rparr>)
               else Inr q)
      | Some first \<Rightarrow>
          if first \<noteq> key then
            (if q_slot q \<noteq> thisslot then Inl REDIR_CROSS_SLOT else Inr (q\<lparr>q_multiple := True\<rparr>))
          else Inr q)"

fun query_keys :: "cluster_state \<Rightarrow> string list \<Rightarrow> query \<Rightarrow> server \<Rightarrow> server \<times> (redir + query)" where
  "query_keys cs [] q s = (s, Inr q)"
| "query_keys cs (key # keys) q s =
     (case query_key cs key q of
        Inl e \<Rightarrow> (s, Inl e)
      | Inr q \<Rightarrow>
          if q_migrating q \<or> q_importing q then
            (case lookupKeyRead 0 key s of
               (s, None) \<Rightarrow> query_keys cs keys (q\<lparr>q_missing := q_missing q + 1\<rparr>) s
             | (s, Some _) \<Rightarrow> query_keys cs keys q s)
          else query_keys cs keys q s)"

fun query_commands :: "cluster_state \<Rightarrow> (command \<times> string list) list \<Rightarrow> query \<Rightarrow> server \<Rightarrow> server \<times> (redir + query)" where
  "query_commands cs [] q s = (s, Inr q)"
| "query_commands cs ((mcmd, margv) # ms) q s =
     (case getKeysFromCommand mcmd margv of
        None \<Rightarrow> (redisAssert False s, Inr q)
      | Some keyindex \<Rightarrow>
          case query_keys cs (map (\<lambda>i. margv ! nat i) keyindex) q s of
            (s, Inl e) \<Rightarrow> (s, Inl e)
          | (s, Inr q) \<Rightarrow> query_commands cs ms q s)"

definition getNodeByQuery :: "cluster_state \<Rightarrow> nat \<Rightarrow> command \<Rightarrow> string list \<Rightarrow> server \<Rightarrow> server \<times> nat option \<times> nat \<times> redir" where
  \<comment> \<open>the node, if any, the hash slot and the error code\<close>
  "getNodeByQuery cs c cmd av s =
     (if cmd_proc cmd = ''execCommand'' \<and> \<not> f_multi (cl s c) then (s, Some (myself cs), 0, REDIR_NONE)
      else
        case query_commands cs (if cmd_proc cmd = ''execCommand'' then mcommands (cl s c) else [(cmd, av)]) query0 s of
          (s, Inl e) \<Rightarrow> (s, None, 0, e)
        | (s, Inr q) \<Rightarrow>
            case q_node q of
              None \<Rightarrow> (s, Some (myself cs), 0, REDIR_NONE)
            | Some n \<Rightarrow>
                if q_migrating q \<and> q_missing q \<noteq> 0 then (s, migrating_slots_to cs (q_slot q), q_slot q, REDIR_ASK)
                else if q_importing q \<and> (f_asking (cl s c) \<or> cmd_asking cmd) then
                  (if q_multiple q \<and> q_missing q \<noteq> 0 then (s, None, q_slot q, REDIR_UNSTABLE)
                   else (s, Some (myself cs), q_slot q, REDIR_NONE))
                else if f_readonly (cl s c) \<and> cmd_readonly cmd \<and> myself_is_slave cs \<and> slaveof cs = Some n then
                  (s, Some (myself cs), q_slot q, REDIR_NONE)
                else (s, Some n, q_slot q, if n \<noteq> myself cs then REDIR_MOVED else REDIR_NONE))"

definition clusterRedirectClient :: "cluster_state \<Rightarrow> nat \<Rightarrow> nat option \<Rightarrow> nat \<Rightarrow> redir \<Rightarrow> server \<Rightarrow> server" where
  "clusterRedirectClient cs c n hashslot error_code s =
     (case error_code of
        REDIR_CROSS_SLOT \<Rightarrow> addReply c (RError ''CROSSSLOT Keys in request don't hash to the same slot'') s
      | REDIR_UNSTABLE \<Rightarrow> addReply c (RError ''TRYAGAIN Multiple keys request during rehashing of slot'') s
      | REDIR_DOWN_STATE \<Rightarrow> addReply c (RError ''CLUSTERDOWN The cluster is down'') s
      | REDIR_DOWN_UNBOUND \<Rightarrow> addReply c (RError ''CLUSTERDOWN Hash slot not served'') s
      | REDIR_NONE \<Rightarrow> redisAssert False s
      | _ \<Rightarrow>
          (case n of
             None \<Rightarrow> redisAssert False s
           | Some n \<Rightarrow>
               let (ip, port) = node_addr cs n in
               addReply c (RError ((if error_code = REDIR_ASK then ''ASK '' else ''MOVED '') @ dec_int (int hashslot) @
                 '' '' @ ip @ '':'' @ dec_int port)) s))"

fun redirect_blocked :: "cluster_state \<Rightarrow> nat \<Rightarrow> string list \<Rightarrow> server \<Rightarrow> server \<times> bool" where
  \<comment> \<open>the loop of \<open>clusterRedirectBlockedClientIfNeeded\<close>\<close>
  "redirect_blocked cs c [] s = (s, False)"
| "redirect_blocked cs c (key # keys) s =
     (let slot = keyHashSlot key in
      if slot_node cs slot \<noteq> Some (myself cs) \<and> importing_slots_from cs slot = None then
        (case slot_node cs slot of
           None \<Rightarrow> (clusterRedirectClient cs c None 0 REDIR_DOWN_UNBOUND s, True)
         | Some n \<Rightarrow> (clusterRedirectClient cs c (Some n) slot REDIR_MOVED s, True))
      else redirect_blocked cs c keys s)"

definition clusterRedirectBlockedClientIfNeeded :: "cluster_state \<Rightarrow> nat \<Rightarrow> server \<Rightarrow> server \<times> bool" where
  "clusterRedirectBlockedClientIfNeeded cs c s =
     (if f_blocked (cl s c) \<and> btype (cl s c) = REDIS_BLOCKED_LIST then
        if \<not> cluster_ok cs then (clusterRedirectClient cs c None 0 REDIR_DOWN_STATE s, True)
        else redirect_blocked cs c (bpop_keys (cl s c)) s
      else (s, False))"

definition askingCommand :: "nat \<Rightarrow> server \<Rightarrow> server" where
  "askingCommand c s =
     (if \<not> cluster_enabled s then addReply c (RError ''ERR This instance has cluster support disabled'') s
      else addReply c shared_ok (upd_client c (\<lambda>x. x\<lparr>f_asking := True\<rparr>) s))"

definition readonlyCommand :: "nat \<Rightarrow> server \<Rightarrow> server" where
  "readonlyCommand c s =
     (if \<not> cluster_enabled s then addReply c (RError ''ERR This instance has cluster support disabled'') s
      else addReply c shared_ok (upd_client c (\<lambda>x. x\<lparr>f_readonly := True\<rparr>) s))"

definition readwriteCommand :: "nat \<Rightarrow> server \<Rightarrow> server" where
  "readwriteCommand c s = addReply c shared_ok (upd_client c (\<lambda>x. x\<lparr>f_readonly := False\<rparr>) s)"

section \<open>The checks of a request\<close>

definition first_letter_is :: "char \<Rightarrow> string \<Rightarrow> bool" where
  \<comment> \<open>\<open>tolower(s[0]) == c\<close>\<close>
  "first_letter_is x a \<longleftrightarrow> c_tolower (of_char (if a = [] then NUL else hd a)) = of_char x"

definition arity_ok :: "command \<Rightarrow> nat \<Rightarrow> bool" where
  "arity_ok cmd argc \<longleftrightarrow> \<not> (arity cmd > 0 \<and> arity cmd \<noteq> int argc \<or> int argc < - arity cmd)"

definition write_disk_error :: "config \<Rightarrow> command \<Rightarrow> server \<Rightarrow> bool" where
  "write_disk_error cfg cmd s \<longleftrightarrow>
     (stop_writes_on_bgsave_err cfg \<and> saveparamslen cfg > 0 \<and> \<not> lastbgsave_ok cfg \<or> \<not> aof_last_write_ok cfg) \<and>
     masterhost s = None \<and> (cmd_write cmd \<or> cmd_proc cmd = ''pingCommand'')"

definition too_few_slaves :: "config \<Rightarrow> command \<Rightarrow> server \<Rightarrow> bool" where
  "too_few_slaves cfg cmd s \<longleftrightarrow>
     masterhost s = None \<and> repl_min_slaves_to_write cfg \<noteq> 0 \<and> repl_min_slaves_max_lag cfg \<noteq> 0 \<and> cmd_write cmd \<and>
     repl_good_slaves_count cfg < repl_min_slaves_to_write cfg"

definition write_to_slave :: "config \<Rightarrow> command \<Rightarrow> nat \<Rightarrow> server \<Rightarrow> bool" where
  "write_to_slave cfg cmd c s \<longleftrightarrow> masterhost s \<noteq> None \<and> repl_slave_ro cfg \<and> \<not> f_master (cl s c) \<and> cmd_write cmd"

definition not_in_pubsub :: "command \<Rightarrow> nat \<Rightarrow> server \<Rightarrow> bool" where
  "not_in_pubsub cmd c s \<longleftrightarrow>
     f_pubsub (cl s c) \<and> cmd_proc cmd \<noteq> ''pingCommand'' \<and> cmd_proc cmd \<noteq> ''subscribeCommand'' \<and>
     cmd_proc cmd \<noteq> ''unsubscribeCommand'' \<and> cmd_proc cmd \<noteq> ''psubscribeCommand'' \<and>
     cmd_proc cmd \<noteq> ''punsubscribeCommand''"

definition stale_slave :: "config \<Rightarrow> command \<Rightarrow> server \<Rightarrow> bool" where
  "stale_slave cfg cmd s \<longleftrightarrow>
     masterhost s \<noteq> None \<and> \<not> repl_connected cfg \<and> \<not> repl_serve_stale_data cfg \<and> \<not> cmd_stale cmd"

definition script_blocks :: "config \<Rightarrow> command \<Rightarrow> nat \<Rightarrow> server \<Rightarrow> bool" where
  "script_blocks cfg cmd c s \<longleftrightarrow>
     lua_timedout cfg \<and> cmd_proc cmd \<noteq> ''authCommand'' \<and> cmd_proc cmd \<noteq> ''replconfCommand'' \<and>
     \<not> (cmd_proc cmd = ''shutdownCommand'' \<and> length (argv s c) = 2 \<and> first_letter_is CHR ''n'' (argv s c ! 1)) \<and>
     \<not> (cmd_proc cmd = ''scriptCommand'' \<and> length (argv s c) = 2 \<and> first_letter_is CHR ''k'' (argv s c ! 1))"

definition queued_in_multi :: "command \<Rightarrow> nat \<Rightarrow> server \<Rightarrow> bool" where
  "queued_in_multi cmd c s \<longleftrightarrow>
     f_multi (cl s c) \<and> cmd_proc cmd \<noteq> ''execCommand'' \<and> cmd_proc cmd \<noteq> ''discardCommand'' \<and>
     cmd_proc cmd \<noteq> ''multiCommand'' \<and> cmd_proc cmd \<noteq> ''watchCommand''"

definition run_command :: "procs \<Rightarrow> nat \<Rightarrow> server \<Rightarrow> server option" where
  \<comment> \<open>the end of \<open>processCommand\<close>; there are rounds for every client of the server\<close>
  "run_command prc c s =
     (let s = call prc True c s;
          s = upd_client c (\<lambda>x. x\<lparr>woff := master_repl_offset s\<rparr>) s
      in if ready_keys s \<noteq> [] then handleClientsBlockedOnLists (Suc (length (clients s))) s else Some s)"

definition check_cluster :: "config \<Rightarrow> command \<Rightarrow> nat \<Rightarrow> server \<Rightarrow> server \<times> bool" where
  \<comment> \<open>the flag says that the request has been answered with a redirection\<close>
  "check_cluster cfg cmd c s =
     (if cluster_enabled s \<and> \<not> f_master (cl s c) \<and> \<not> (getkeys_proc cmd = None \<and> firstkey cmd = 0) then
        if \<not> cluster_ok (cluster cfg) then
          (clusterRedirectClient (cluster cfg) c None 0 REDIR_DOWN_STATE (flagTransaction c s), True)
        else
          (case getNodeByQuery (cluster cfg) c cmd (argv s c) s of
             (s, n, hashslot, error_code) \<Rightarrow>
               if n \<noteq> Some (myself (cluster cfg)) then
                 (clusterRedirectClient (cluster cfg) c n hashslot error_code (flagTransaction c s), True)
               else (s, False))
      else (s, False))"

definition check_memory :: "config \<Rightarrow> command \<Rightarrow> nat \<Rightarrow> server \<Rightarrow> server \<times> bool" where
  "check_memory cfg cmd c s =
     (if maxmemory cfg \<noteq> 0 then
        (case freeMemoryIfNeeded cfg s of
           (s, ok) \<Rightarrow>
             if cmd_denyoom cmd \<and> \<not> ok then
               (addReply c (RError ''OOM command not allowed when used memory > 'maxmemory'.'') (flagTransaction c s), True)
             else (s, False))
      else (s, False))"

definition processCommand :: "config \<Rightarrow> procs \<Rightarrow> nat \<Rightarrow> server \<Rightarrow> server option" where
  \<comment> \<open>\<open>None\<close> when the rounds of \<open>handleClientsBlockedOnLists\<close> are used up\<close>
  "processCommand cfg prc c s =
     (if eq_nocase_str (argv s c ! 0) ''quit'' then
        Some (upd_client c (\<lambda>x. x\<lparr>f_close_after_reply := True\<rparr>) (addReply c shared_ok s))
      else
        let found = lookupCommand (commands cfg) (argv s c ! 0);
            s = upd_client c (\<lambda>x. x\<lparr>lastcmd := found\<rparr>) s in
        case found of
          None \<Rightarrow>
            Some (addReply c (RError (err_text (''unknown command '' @ quoted (argv s c ! 0)))) (flagTransaction c s))
        | Some cmd \<Rightarrow>
            let s = upd_client c (\<lambda>x. x\<lparr>ccmd := cmd\<rparr>) s in
            if \<not> arity_ok cmd (length (argv s c)) then
              Some (addReply c (RError (err_text (''wrong number of arguments for '' @ quoted (cmd_name cmd) @ '' command'')))
                (flagTransaction c s))
            else if requirepass cfg \<noteq> None \<and> \<not> authenticated (cl s c) \<and> cmd_proc cmd \<noteq> ''authCommand'' then
              Some (addReply c (RError ''NOAUTH Authentication required.'') (flagTransaction c s))
            else
              case check_cluster cfg cmd c s of
                (s, True) \<Rightarrow> Some s
              | (s, False) \<Rightarrow>
                case check_memory cfg cmd c s of
                  (s, True) \<Rightarrow> Some s
                | (s, False) \<Rightarrow>
                    if write_disk_error cfg cmd s then
                      Some (addReply c (RError (if aof_last_write_ok cfg then
                          ''MISCONF Redis is configured to save RDB snapshots, but is currently not able to persist on disk. Commands that may modify the data set are disabled. Please check Redis logs for details about the error.''
                        else ''MISCONF Errors writing to the AOF file: '' @ aof_last_write_errno cfg)) (flagTransaction c s))
                    else if too_few_slaves cfg cmd s then
                      Some (addReply c (RError ''NOREPLICAS Not enough good slaves to write.'') (flagTransaction c s))
                    else if write_to_slave cfg cmd c s then
                      Some (addReply c (RError ''READONLY You can't write against a read only slave.'') s)
                    else if not_in_pubsub cmd c s then
                      Some (addReply c (RError ''ERR only (P)SUBSCRIBE / (P)UNSUBSCRIBE / QUIT allowed in this context'') s)
                    else if stale_slave cfg cmd s then
                      Some (addReply c (RError ''MASTERDOWN Link with MASTER is down and slave-serve-stale-data is set to 'no'.'')
                        (flagTransaction c s))
                    else if loading s \<and> \<not> cmd_loading cmd then
                      Some (addReply c (RError ''LOADING Redis is loading the dataset in memory'') s)
                    else if script_blocks cfg cmd c s then
                      Some (addReply c (RError ''BUSY Redis is busy running a script. You can only call SCRIPT KILL or SHUTDOWN NOSAVE.'')
                        (flagTransaction c s))
                    else if queued_in_multi cmd c s then
                      Some (addReply c (RStatus ''QUEUED'') (queueMultiCommand c s))
                    else run_command prc c s)"

end
