(* ===== verification/Watch.thy ===== *)
theory Watch
  imports Multi
begin

text \<open>
  Watched keys: the table of watchers agrees with the clients, and every command that changes a
  key flags the transactions that watch it, but for the two that move a key away or take its
  expire from it.
\<close>

section \<open>The table of watchers\<close>

definition watch_ok :: "server \<Rightarrow> bool" where
  "watch_ok s \<longleftrightarrow>
     (\<forall>c j key. j < length (dbs s) \<longrightarrow> (c \<in> watchers s j key \<longleftrightarrow> (j, key) \<in> set (wkeys (cl s c)))) \<and>
     (\<forall>c. distinct (wkeys (cl s c)) \<and> (\<forall>(j, key) \<in> set (wkeys (cl s c)). j < length (dbs s))) \<and>
     (\<forall>c. wkeys (cl s c) \<noteq> [] \<longrightarrow> c \<in> set (clients s)) \<and>
     (\<forall>j < length (dbs s). \<forall>key cs. watched_keys (the_db s j) key = Some cs \<longrightarrow> distinct cs \<and> cs \<noteq> [])"

lemma watch_ok_client: "watch_ok s \<Longrightarrow> wk \<in> set (wkeys (cl s c)) \<Longrightarrow> c \<in> set (clients s)"
  unfolding watch_ok_def by (metis empty_iff list.set(1))

lemma watch_okD:
  assumes "watch_ok s" "(j, key) \<in> set (wkeys (cl s c))"
  shows "j < length (dbs s)" "c \<in> watchers s j key"
proof -
  show j: "j < length (dbs s)" using assms unfolding watch_ok_def by (metis (no_types, lifting) case_prodD)
  show "c \<in> watchers s j key" using assms j unfolding watch_ok_def by blast
qed

lemma ctx_watched:
  assumes "ctx s = ctx t" "j < length (dbs t)"
  shows "watched_keys (the_db s j) = watched_keys (the_db t j)"
proof -
  have "dbs (ctx s) ! j = dbs (ctx t) ! j" using assms(1) by simp
  then have "(the_db s j)\<lparr>kv := Map.empty, expires := Map.empty, db_ready_keys := {}\<rparr> =
      (the_db t j)\<lparr>kv := Map.empty, expires := Map.empty, db_ready_keys := {}\<rparr>"
    using assms(2) ctxD(1)[OF assms(1)] by (simp add: ctx_def)
  from arg_cong[OF this, of watched_keys] show ?thesis by simp
qed

lemma watch_ok_ctx:
  assumes "ctx s = ctx t"
  shows "watch_ok s = watch_ok t"
proof -
  note l = ctxD(1,2)[OF assms] ctx_clientD(6)[OF assms]
  have w: "watchers s j key = watchers t j key" "watched_keys (the_db s j) = watched_keys (the_db t j)"
    if "j < length (dbs t)" for j key
    using ctx_watchers[OF assms that] ctx_watched[OF assms that] by simp_all
  show ?thesis unfolding watch_ok_def l by (simp add: w cong: conj_cong imp_cong)
qed

text \<open>What the functions on watched keys leave alone.\<close>

definition unwatched :: "server \<Rightarrow> server" where
  "unwatched s = s\<lparr>dbs := map (\<lambda>d. d\<lparr>watched_keys := Map.empty\<rparr>) (dbs s), cl := (\<lambda>c. (cl s c)\<lparr>wkeys := []\<rparr>),
     crashed := False\<rparr>"

lemma unwatchedD:
  assumes "unwatched s = unwatched t"
  shows "length (dbs s) = length (dbs t)" "clients s = clients t" "dirty s = dirty t" "loading s = loading t"
    "cluster_enabled s = cluster_enabled t" "masterhost s = masterhost t" "in_lua s = in_lua t"
    "lua_time_start s = lua_time_start t" "clk s = clk t" "clk_reads s = clk_reads t" "aof_on s = aof_on t"
    "aof_log s = aof_log t" "repl_log s = repl_log t" "slots_to_keys s = slots_to_keys t" "monitors s = monitors t"
    "ready_keys s = ready_keys t"
proof -
  have "length (dbs (unwatched s)) = length (dbs (unwatched t))" using assms by simp
  then show "length (dbs s) = length (dbs t)" by (simp add: unwatched_def)
qed (use arg_cong[OF assms, of clients] arg_cong[OF assms, of dirty] arg_cong[OF assms, of loading]
      arg_cong[OF assms, of cluster_enabled] arg_cong[OF assms, of masterhost] arg_cong[OF assms, of in_lua]
      arg_cong[OF assms, of lua_time_start] arg_cong[OF assms, of clk] arg_cong[OF assms, of clk_reads]
      arg_cong[OF assms, of aof_on] arg_cong[OF assms, of aof_log] arg_cong[OF assms, of repl_log]
      arg_cong[OF assms, of slots_to_keys] arg_cong[OF assms, of monitors] arg_cong[OF assms, of ready_keys]
      in \<open>simp_all add: unwatched_def\<close>)

lemma unwatched_clientD:
  assumes "unwatched s = unwatched t"
  shows "(cl s c)\<lparr>wkeys := []\<rparr> = (cl t c)\<lparr>wkeys := []\<rparr>"
  using arg_cong[OF assms, of "\<lambda>s. cl s c"] by (simp add: unwatched_def)

lemma unwatched_client:
  assumes "unwatched s = unwatched t"
  shows "cdb (cl s c) = cdb (cl t c)" "cargv (cl s c) = cargv (cl t c)" "ccmd (cl s c) = ccmd (cl t c)"
    "f_multi (cl s c) = f_multi (cl t c)" "f_dirty_cas (cl s c) = f_dirty_cas (cl t c)"
    "f_dirty_exec (cl s c) = f_dirty_exec (cl t c)" "mcommands (cl s c) = mcommands (cl t c)"
    "creply (cl s c) = creply (cl t c)"
  using arg_cong[OF unwatched_clientD[OF assms, of c], of cdb] arg_cong[OF unwatched_clientD[OF assms, of c], of cargv]
    arg_cong[OF unwatched_clientD[OF assms, of c], of ccmd] arg_cong[OF unwatched_clientD[OF assms, of c], of f_multi]
    arg_cong[OF unwatched_clientD[OF assms, of c], of f_dirty_cas]
    arg_cong[OF unwatched_clientD[OF assms, of c], of f_dirty_exec]
    arg_cong[OF unwatched_clientD[OF assms, of c], of mcommands] arg_cong[OF unwatched_clientD[OF assms, of c], of creply]
  by simp_all

lemma unwatched_vals:
  assumes "unwatched s = unwatched t" "j < length (dbs t)"
  shows "val_of s j = val_of t j" "exp_of s j = exp_of t j"
proof -
  have "dbs (unwatched s) ! j = dbs (unwatched t) ! j" using assms(1) by simp
  then have d: "(the_db s j)\<lparr>watched_keys := Map.empty\<rparr> = (the_db t j)\<lparr>watched_keys := Map.empty\<rparr>"
    using assms(2) unwatchedD(1)[OF assms(1)] by (simp add: unwatched_def)
  from arg_cong[OF d, of kv] arg_cong[OF d, of expires]
  show "val_of s j = val_of t j" "exp_of s j = exp_of t j" by (simp_all add: val_of_def exp_of_def)
qed

lemma unwatched_redisAssert [simp]: "unwatched (redisAssert b s) = unwatched s"
  by (simp add: unwatched_def redisAssert_def)

lemma unwatched_upd [simp]:
  "unwatched (upd_db j (\<lambda>d. d\<lparr>watched_keys := f d\<rparr>) s) = unwatched s"
  "unwatched (upd_client c (\<lambda>x. x\<lparr>wkeys := g x\<rparr>) s) = unwatched s"
  using map_upd_same[of "\<lambda>d. d\<lparr>watched_keys := Map.empty\<rparr>" "\<lambda>d. d\<lparr>watched_keys := f d\<rparr>" "dbs s" j]
  by (simp_all add: unwatched_def upd_db_def upd_client_def fun_eq_iff)

lemma unwatch_one_unwatched [simp]: "unwatched (unwatch_one c wk s) = unwatched s"
  by (simp add: unwatch_one_def Let_def case_prod_beta)

lemma watchForKey_unwatched [simp]: "unwatched (watchForKey c key s) = unwatched s"
  by (simp add: watchForKey_def Let_def)

lemma unwatchAllKeys_unwatched [simp]: "unwatched (unwatchAllKeys c s) = unwatched s"
proof -
  have "unwatched (fold (unwatch_one c) ws s) = unwatched s" for ws
    by (induction ws arbitrary: s) simp_all
  then show ?thesis by (simp add: unwatchAllKeys_def)
qed

lemma upd_watched:
  "j < length (dbs s) \<Longrightarrow> watchers (upd_db j (\<lambda>d. d\<lparr>watched_keys := (watched_keys d)(key := w)\<rparr>) s) i k =
    (if i = j \<and> k = key then (case w of None \<Rightarrow> {} | Some cs \<Rightarrow> set cs) else watchers s i k)"
  by (auto simp: watchers_def nth_list_update)

lemma watchers_client [simp]: "watchers (upd_client c f s) = watchers s"
  by (simp add: watchers_def fun_eq_iff)

lemma watchers_assert [simp]: "watchers (redisAssert b s) = watchers s"
  by (simp add: watchers_def fun_eq_iff)

lemma watchForKey_fields:
  assumes "cdb (cl s c) < length (dbs s)"
  defines "j \<equiv> cdb (cl s c)"
  shows "wkeys (cl (watchForKey c key s) d) =
      (if d = c \<and> (j, key) \<notin> set (wkeys (cl s c)) then wkeys (cl s c) @ [(j, key)] else wkeys (cl s d))"
    "watchers (watchForKey c key s) i k =
      (if (i, k) = (j, key) \<and> (j, key) \<notin> set (wkeys (cl s c)) then insert c (watchers s i k) else watchers s i k)"
    "crashed (watchForKey c key s) = crashed s"
    "watched_keys (the_db (watchForKey c key s) i) =
      (if i = j \<and> (j, key) \<notin> set (wkeys (cl s c)) then (watched_keys (the_db s j))(key \<mapsto>
        (case watched_keys (the_db s j) key of None \<Rightarrow> [] | Some cs \<Rightarrow> cs) @ [c]) else watched_keys (the_db s i))"
  using assms by (auto simp: watchForKey_def Let_def upd_watched watchers_def nth_list_update split: option.split)

lemma watchForKey_ok:
  assumes "watch_ok s" "cdb (cl s c) < length (dbs s)" "c \<in> set (clients s)"
  shows "watch_ok (watchForKey c key s)"
proof (cases "(cdb (cl s c), key) \<in> set (wkeys (cl s c))")
  case True
  then show ?thesis using assms(1) by (simp add: watchForKey_def Let_def)
next
  case False
  let ?s = "watchForKey c key s" and ?j = "cdb (cl s c)"
  note f = watchForKey_fields[OF assms(2), of key]
  have l: "length (dbs ?s) = length (dbs s)" "clients ?s = clients s" by (rule unwatchedD; simp)+
  have w: "\<And>d j k. j < length (dbs s) \<Longrightarrow> d \<in> watchers s j k \<longleftrightarrow> (j, k) \<in> set (wkeys (cl s d))"
    "\<And>d. distinct (wkeys (cl s d)) \<and> (\<forall>(j, k) \<in> set (wkeys (cl s d)). j < length (dbs s))"
    "\<And>j k cs. j < length (dbs s) \<Longrightarrow> watched_keys (the_db s j) k = Some cs \<Longrightarrow> distinct cs \<and> cs \<noteq> []"
    using assms(1) unfolding watch_ok_def by blast+
  have "c \<notin> watchers s ?j key" using w(1)[OF assms(2)] False by simp
  then have new: "distinct ((case watched_keys (the_db s ?j) key of None \<Rightarrow> [] | Some cs \<Rightarrow> cs) @ [c])"
    using w(3)[OF assms(2), of key] by (auto simp: watchers_def split: option.splits)
  show ?thesis
    unfolding watch_ok_def l
  proof (intro conjI allI impI)
    fix d j k
    assume "j < length (dbs s)"
    then show "d \<in> watchers ?s j k \<longleftrightarrow> (j, k) \<in> set (wkeys (cl ?s d))" using w(1)[of j d k] False by (auto simp: f)
  next
    fix d show "distinct (wkeys (cl ?s d))" using w(2)[of d] False by (auto simp: f)
    show "\<forall>(j, k) \<in> set (wkeys (cl ?s d)). j < length (dbs s)" using w(2)[of d] assms(2) by (auto simp: f)
    show "wkeys (cl ?s d) \<noteq> [] \<Longrightarrow> d \<in> set (clients s)" using assms(1,3) by (auto simp: f watch_ok_def split: if_splits)
  next
    fix j k cs
    assume a: "j < length (dbs s)" "watched_keys (the_db ?s j) k = Some cs"
    show "distinct cs" "cs \<noteq> []" using a(2) w(3)[OF a(1), of k cs] new False by (auto simp: f(4) split: if_splits)
  qed
qed

lemma unwatch_one_fields:
  assumes ok: "watch_ok s" and wk: "(j, key) \<in> set (wkeys (cl s c))"
  shows "wkeys (cl (unwatch_one c (j, key) s) d) = (if d = c then remove1 (j, key) (wkeys (cl s c)) else wkeys (cl s d))"
    "watchers (unwatch_one c (j, key) s) i k = (if (i, k) = (j, key) then watchers s i k - {c} else watchers s i k)"
    "crashed (unwatch_one c (j, key) s) = crashed s"
    "watched_keys (the_db (unwatch_one c (j, key) s) i) k' = Some cs' \<Longrightarrow> i < length (dbs s) \<Longrightarrow> distinct cs' \<and> cs' \<noteq> []"
proof -
  have j: "j < length (dbs s)" using ok wk by (auto simp: watch_ok_def)
  have "c \<in> watchers s j key" using ok wk j by (auto simp: watch_ok_def)
  then obtain cs where cs: "watched_keys (the_db s j) key = Some cs" "c \<in> set cs"
    by (auto simp: watchers_def split: option.splits)
  have d: "distinct cs" using ok cs(1) j by (auto simp: watch_ok_def)
  have eq: "unwatch_one c (j, key) s = upd_client c (\<lambda>x. x\<lparr>wkeys := remove1 (j, key) (wkeys x)\<rparr>)
      (upd_db j (\<lambda>d. d\<lparr>watched_keys := (watched_keys d)(key := if remove1 c cs = [] then None else Some (remove1 c cs))\<rparr>) s)"
    using cs by (simp add: unwatch_one_def Let_def)
  show "wkeys (cl (unwatch_one c (j, key) s) d) = (if d = c then remove1 (j, key) (wkeys (cl s c)) else wkeys (cl s d))"
    "crashed (unwatch_one c (j, key) s) = crashed s"
    by (simp_all add: eq)
  have "watchers s j key = set cs" using cs by (simp add: watchers_def)
  moreover have "remove1 c cs = [] \<Longrightarrow> set cs - {c} = {}" using d by (metis list.set(1) set_remove1_eq)
  ultimately show "watchers (unwatch_one c (j, key) s) i k = (if (i, k) = (j, key) then watchers s i k - {c} else watchers s i k)"
    using d j by (auto simp: eq upd_watched)
  show "watched_keys (the_db (unwatch_one c (j, key) s) i) k' = Some cs' \<Longrightarrow> i < length (dbs s) \<Longrightarrow> distinct cs' \<and> cs' \<noteq> []"
    using ok d j by (auto simp: eq nth_list_update watch_ok_def split: if_splits)
qed

lemma unwatch_one_ok:
  assumes "watch_ok s" "(j, key) \<in> set (wkeys (cl s c))"
  shows "watch_ok (unwatch_one c (j, key) s)"
proof -
  note f = unwatch_one_fields[OF assms]
  have l: "length (dbs (unwatch_one c (j, key) s)) = length (dbs s)"
    "clients (unwatch_one c (j, key) s) = clients s"
    by (rule unwatchedD; simp)+
  have "distinct (wkeys (cl s c))" using assms(1) by (simp add: watch_ok_def)
  then show ?thesis
    using assms(1) watch_ok_client[OF assms] unfolding watch_ok_def l by (auto simp: f(1,2) dest: f(4))
qed

lemma unwatchAllKeys_fields:
  assumes "watch_ok s"
  shows "watch_ok (unwatchAllKeys c s)" "wkeys (cl (unwatchAllKeys c s) c) = []"
    "crashed (unwatchAllKeys c s) = crashed s" "d \<noteq> c \<Longrightarrow> wkeys (cl (unwatchAllKeys c s) d) = wkeys (cl s d)"
proof -
  have "watch_ok (fold (unwatch_one c) ws s) \<and> wkeys (cl (fold (unwatch_one c) ws s) c) = [] \<and>
      crashed (fold (unwatch_one c) ws s) = crashed s \<and>
      (d \<noteq> c \<longrightarrow> wkeys (cl (fold (unwatch_one c) ws s) d) = wkeys (cl s d))"
    if "watch_ok s" "wkeys (cl s c) = ws" for ws
    using that
  proof (induction ws arbitrary: s)
    case (Cons w ws)
    obtain j key where w: "w = (j, key)" by fastforce
    have m: "(j, key) \<in> set (wkeys (cl s c))" using Cons.prems(2) w by simp
    note f = unwatch_one_fields[OF Cons.prems(1) m] and k = unwatch_one_ok[OF Cons.prems(1) m]
    have "wkeys (cl (unwatch_one c (j, key) s) c) = ws" using f(1)[of c] Cons.prems(2) w by simp
    from Cons.IH[OF k this] f(1)[of d] f(3) show ?case by (simp add: w)
  qed simp
  from this[OF assms refl]
  show "watch_ok (unwatchAllKeys c s)" "wkeys (cl (unwatchAllKeys c s) c) = []"
    "crashed (unwatchAllKeys c s) = crashed s" "d \<noteq> c \<Longrightarrow> wkeys (cl (unwatchAllKeys c s) d) = wkeys (cl s d)"
    by (simp_all add: unwatchAllKeys_def)
qed

section \<open>Changes are noticed\<close>

text \<open>Between two states, the transactions that watch a key are flagged if the key has changed, unless it
  has merely expired.\<close>

definition gone :: "server \<Rightarrow> server \<Rightarrow> nat \<Rightarrow> string \<Rightarrow> bool" where
  "gone s t j key \<longleftrightarrow> exp_of s j key \<noteq> None \<and> val_of t j key = None \<and> exp_of t j key = None"

definition same_key :: "server \<Rightarrow> server \<Rightarrow> nat \<Rightarrow> string \<Rightarrow> bool" where
  "same_key s t j key \<longleftrightarrow> val_of t j key = val_of s j key \<and> exp_of t j key = exp_of s j key"

definition flagged :: "server \<Rightarrow> server \<Rightarrow> nat \<Rightarrow> string \<Rightarrow> bool" where
  "flagged s t j key \<longleftrightarrow> (\<forall>c \<in> watchers s j key. f_dirty_cas (cl t c))"

definition only :: "(nat \<times> string) set \<Rightarrow> server \<Rightarrow> server \<Rightarrow> bool" where
  \<comment> \<open>nothing but the keys of a set has changed, the table of watchers has not, and flags stay\<close>
  "only K s t \<longleftrightarrow> length (dbs t) = length (dbs s) \<and> (\<forall>j < length (dbs s). watchers t j = watchers s j) \<and>
     (\<forall>c. f_dirty_cas (cl s c) \<longrightarrow> f_dirty_cas (cl t c)) \<and>
     (\<forall>j key. (j, key) \<notin> K \<longrightarrow> same_key s t j key)"

definition heeds :: "server \<Rightarrow> server \<Rightarrow> bool" where
  "heeds s t \<longleftrightarrow> only UNIV s t \<and>
     (\<forall>j < length (dbs s). \<forall>key. same_key s t j key \<or> gone s t j key \<or> flagged s t j key)"

lemma only_refl [simp]: "only K s s"
  by (simp add: only_def same_key_def)

lemma heeds_refl [simp]: "heeds s s"
  by (simp add: heeds_def same_key_def)

lemma heeds_trans:
  assumes "heeds s t" "heeds t u"
  shows "heeds s u"
proof -
  have o: "only UNIV s u" using assms by (auto simp: heeds_def only_def)
  have l: "length (dbs t) = length (dbs s)" "\<And>j. j < length (dbs s) \<Longrightarrow> watchers t j = watchers s j"
    "\<And>c. f_dirty_cas (cl t c) \<Longrightarrow> f_dirty_cas (cl u c)"
    using assms by (auto simp: heeds_def only_def)
  have "same_key s u j key \<or> gone s u j key \<or> flagged s u j key" if "j < length (dbs s)" for j key
  proof -
    have st: "same_key s t j key \<or> gone s t j key \<or> flagged s t j key"
      and tu: "same_key t u j key \<or> gone t u j key \<or> flagged t u j key"
      using assms that l(1) by (auto simp: heeds_def)
    have "flagged s t j key \<Longrightarrow> flagged s u j key" "flagged t u j key \<Longrightarrow> flagged s u j key"
      using l(2)[OF that] l(3) by (auto simp: flagged_def)
    with st tu show ?thesis unfolding same_key_def gone_def by metis
  qed
  with o show ?thesis by (simp add: heeds_def)
qed

lemma heeds_writes:
  assumes "only K s t" "\<And>j key. (j, key) \<in> K \<Longrightarrow> j < length (dbs s) \<Longrightarrow> flagged s t j key"
  shows "heeds s t"
  using assms unfolding heeds_def only_def by blast

lemma only_ctx:
  assumes "only K s t" "ctx u = ctx t" "\<And>c. f_dirty_cas (cl t c) \<Longrightarrow> f_dirty_cas (cl u c)"
    "\<And>j key. (j, key) \<notin> K \<Longrightarrow> same_key t u j key"
  shows "only K s u"
proof -
  have l: "length (dbs t) = length (dbs s)" using assms(1) by (simp add: only_def)
  have "watchers u j = watchers s j" if "j < length (dbs s)" for j
    using ctx_watchers(1)[OF assms(2), of j] that l assms(1) by (auto simp: only_def)
  then show ?thesis using assms(1,3,4) l ctxD(1)[OF assms(2)] by (auto simp: only_def same_key_def)
qed

lemma only_ops [simp]:
  assumes "only K s t" "(j, key) \<in> K" "j < length (dbs t)"
  shows "only K s (fst (lookupKeyWrite j key t))" "only K s (fst (lookupKeyRead j key t))"
    "only K s (fst (expireIfNeeded j key t))" "only K s (dbAdd j key v t)" "only K s (dbOverwrite j key v t)"
    "only K s (setKey j key v t)" "only K s (fst (dbDelete j key t))" "only K s (setExpire j key when t)"
    "only K s (fst (removeExpire j key t))" "only K s (upd_db j (\<lambda>d. d\<lparr>kv := (kv d)(key \<mapsto> v)\<rparr>) t)"
  using assms(2,3) by (auto intro!: only_ctx[OF assms(1)] simp: same_key_def kept_def kept_exp_def val_nth)

lemma only_free [simp]:
  assumes "only K s t"
  shows "only K s (addReply c r t)" "only K s (addReplies c rs t)" "only K s (notifyKeyspaceEvent cls ev key j t)"
    "only K s (touchWatchedKey j key t)" "only K s (t\<lparr>dirty := n\<rparr>)" "only K s (t\<lparr>clk_reads := m\<rparr>)"
    "only K s (snd (getExpire j key t))"
    "only K s (redisAssert b t)" "only K s (touchWatchedKeysOnFlush dbid t)"
    "only K s (fst (getLongLongFromSdsOrReply c a msg t))" "only K s (fst (getLongFromSdsOrReply c a msg t))"
    "only K s (fst (checkStringLength c len t))"
  by (auto intro!: only_ctx[OF assms] simp: same_key_def)

lemma only_cargv [simp]: "only K s t \<Longrightarrow> only K s (upd_client c (\<lambda>x. x\<lparr>cargv := av\<rparr>) t)"
  by (auto simp: only_def same_key_def watchers_def)

lemma only_unshare [simp]:
  "only K s t \<Longrightarrow> (j, key) \<in> K \<Longrightarrow> j < length (dbs t) \<Longrightarrow> only K s (fst (dbUnshareStringValue j key ob t))"
  by (simp add: dbUnshareStringValue_def Let_def split: strobj.split)

lemma heeds_key:
  assumes "only {(j, key)} s t" "\<And>c. c \<in> watchers s j key \<Longrightarrow> f_dirty_cas (cl t c)"
  shows "heeds s t"
  by (rule heeds_writes[OF assms(1)]) (auto simp: flagged_def assms(2))

lemma heeds_expire:
  assumes "heeds s t" "ctx u = ctx t" "\<And>c. f_dirty_cas (cl t c) \<Longrightarrow> f_dirty_cas (cl u c)" "j < length (dbs t)"
    "val_of u = (val_of t)(j := kept t j key)" "exp_of u = (exp_of t)(j := kept_exp t j key)"
  shows "heeds s u"
proof (rule heeds_trans[OF assms(1)])
  have "only UNIV t u" by (rule only_ctx[OF only_refl assms(2,3)]) simp_all
  moreover have "same_key t u i k \<or> gone t u i k" for i k
    using assms(5,6) by (auto simp: same_key_def gone_def kept_def kept_exp_def expired_at_def split: option.splits)
  ultimately show "heeds t u" by (auto simp: heeds_def)
qed

lemma heeds_lookup [simp]:
  assumes "heeds s t" "j < length (dbs t)"
  shows "heeds s (fst (lookupKeyWrite j key t))" "heeds s (fst (lookupKeyRead j key t))"
    "heeds s (fst (expireIfNeeded j key t))"
  using assms(2) by (auto intro!: heeds_expire[OF assms(1), where j = j and key = key] simp: expireIfNeeded_kept
      simp del: expireIfNeeded_val)

lemma heeds_same:
  assumes "heeds s t" "ctx u = ctx t" "\<And>c. f_dirty_cas (cl t c) \<Longrightarrow> f_dirty_cas (cl u c)" "val_of u = val_of t" "exp_of u = exp_of t"
  shows "heeds s u"
proof (rule heeds_trans[OF assms(1)])
  have "only {} t u" by (rule only_ctx[OF only_refl assms(2,3)]) (simp_all add: same_key_def assms(4,5))
  then show "heeds t u" by (rule heeds_writes) simp
qed

lemma heeds_free [simp]:
  assumes "heeds s t"
  shows "heeds s (addReply c r t)" "heeds s (addReplies c rs t)" "heeds s (t\<lparr>dirty := n\<rparr>)" "heeds s (t\<lparr>clk_reads := m\<rparr>)"
    "heeds s (fst (getLongLongFromSdsOrReply c a msg t))" "heeds s (fst (getLongFromSdsOrReply c a msg t))"
    "heeds s (fst (checkStringLength c len t))" "heeds s (snd (getExpire j key t))"
  by (auto intro!: heeds_same[OF assms])

section \<open>The commands\<close>

lemma signalModifiedKey_touch: "signalModifiedKey j key = touchWatchedKey j key"
  by (simp add: signalModifiedKey_def fun_eq_iff)

lemma watchers_dbs: "dbs s = dbs t \<Longrightarrow> watchers s = watchers t"
  by (simp add: watchers_def fun_eq_iff)

lemma watchers_same [simp]:
  "watchers (addReply c r s) = watchers s" "watchers (addReplies c rs s) = watchers s"
  "watchers (notifyKeyspaceEvent cls ev key j s) = watchers s" "watchers (touchWatchedKey j key s) = watchers s"
  "watchers (s\<lparr>dirty := n\<rparr>) = watchers s" "watchers (s\<lparr>clk_reads := n'\<rparr>) = watchers s"
  "watchers (fst (getLongLongFromSdsOrReply c a msg s)) = watchers s"
  "watchers (fst (getLongFromSdsOrReply c a msg s)) = watchers s" "watchers (fst (checkStringLength c len s)) = watchers s"
  "watchers (snd (getExpire j key s)) = watchers s"
  by (rule watchers_dbs; simp)+

lemma watchers_upd_db [simp]: "watchers (upd_db j (\<lambda>d. d\<lparr>kv := f d\<rparr>) s) = watchers s"
  by (cases "j < length (dbs s)") (auto simp: watchers_def fun_eq_iff nth_list_update list_update_beyond)

lemmas command_simps = Let_def case_prod_beta signalModifiedKey_touch

lemma setGenericCommand_heeds:
  assumes "okdb s (cdb (cl s c))"
  shows "heeds s (setGenericCommand c fl key v expire unit ok abort s)"
  using assms
  by (simp add: setGenericCommand_def command_simps split: option.split)
    (intro conjI impI allI; rule heeds_key[where j = "cdb (cl s c)" and key = key]; simp)

lemma set_family_heeds:
  assumes "okdb s (cdb (cl s c))"
  shows "heeds s (setCommand c s)" "heeds s (setnxCommand c s)" "heeds s (setexCommand c s)" "heeds s (psetexCommand c s)"
  using assms
  by (simp_all add: setCommand_def setnxCommand_def setexCommand_def psetexCommand_def Let_def
      setGenericCommand_heeds split: option.split)

lemma getGenericCommand_heeds:
  assumes "okdb s (cdb (cl s c))"
  shows "heeds s (fst (getGenericCommand c s))" "heeds s (getCommand c s)"
  using assms by (simp_all add: getGenericCommand_def getCommand_def case_prod_beta split: option.split robj.split)

lemma getsetCommand_heeds:
  assumes "okdb s (cdb (cl s c))"
  shows "heeds s (getsetCommand c s)"
  using assms getGenericCommand_heeds(1)[OF assms]
  by (simp add: getsetCommand_def getGenericCommand_def command_simps split: option.split robj.split bool.split)
    (intro conjI impI allI; rule heeds_key[where j = "cdb (cl s c)" and key = "argv s c ! 1"]; simp)

lemma setrangeCommand_heeds:
  assumes "okdb s (cdb (cl s c))"
  shows "heeds s (setrangeCommand c s)"
  using assms
  by (simp add: setrangeCommand_def command_simps split: option.split robj.split bool.split)
    (intro conjI impI allI; rule heeds_key[where j = "cdb (cl s c)" and key = "argv s c ! 1"]; simp)

lemma string_reads_heed:
  assumes "okdb s (cdb (cl s c))"
  shows "heeds s (getrangeCommand c s)" "heeds s (strlenCommand c s)" "heeds s (typeCommand c s)"
    "heeds s (ttlGenericCommand c ms s)"
  using assms
  by (simp_all add: getrangeCommand_def strlenCommand_def typeCommand_def ttlGenericCommand_def command_simps
      split: option.split robj.split bool.split)

lemma appendCommand_heeds:
  assumes "okdb s (cdb (cl s c))"
  shows "heeds s (appendCommand c s)"
  using assms
  by (simp add: appendCommand_def command_simps split: option.split robj.split bool.split)
    (intro conjI impI allI; rule heeds_key[where j = "cdb (cl s c)" and key = "argv s c ! 1"]; simp)

lemma incrDecrCommand_heeds:
  assumes "okdb s (cdb (cl s c))"
  shows "heeds s (incrDecrCommand c incr s)"
  using assms
  by (simp add: incrDecrCommand_def command_simps split: option.split robj.split)
    (intro conjI impI allI; rule heeds_key[where j = "cdb (cl s c)" and key = "argv s c ! 1"]; simp)

lemma expireGenericCommand_heeds:
  assumes "okdb s (cdb (cl s c))"
  shows "heeds s (expireGenericCommand c b u s)"
  using assms
  by (simp add: expireGenericCommand_def command_simps split: option.split)
    (intro conjI impI allI; rule heeds_key[where j = "cdb (cl s c)" and key = "argv s c ! 1"]; simp)

lemma renameGenericCommand_heeds:
  assumes "okdb s (cdb (cl s c))"
  shows "heeds s (renameGenericCommand c nx s)"
  using assms
  by (simp add: renameGenericCommand_def command_simps split: option.split)
    (intro conjI impI allI; rule heeds_writes[where K = "{(cdb (cl s c), argv s c ! 1), (cdb (cl s c), argv s c ! 2)}"];
      auto simp: flagged_def)

lemma incr_family_heeds:
  assumes "okdb s (cdb (cl s c))"
  shows "heeds s (incrCommand c s)" "heeds s (decrCommand c s)" "heeds s (incrbyCommand c s)" "heeds s (decrbyCommand c s)"
proof -
  show "heeds s (incrCommand c s)" "heeds s (decrCommand c s)"
    using assms by (simp_all add: incrCommand_def decrCommand_def incrDecrCommand_heeds)
  have "heeds s (fst (getLongLongFromSdsOrReply c a None s))" for a by simp
  moreover have "okdb (fst (getLongLongFromSdsOrReply c a None s)) (cdb (cl (fst (getLongLongFromSdsOrReply c a None s)) c))" for a
    using assms by simp
  ultimately show "heeds s (incrbyCommand c s)" "heeds s (decrbyCommand c s)"
    by (auto simp: incrbyCommand_def decrbyCommand_def case_prod_beta intro: heeds_trans[OF _ incrDecrCommand_heeds]
        split: option.split)
qed

text \<open>A command that goes through its arguments is noticed if each step is.\<close>

lemma fold_heeds:
  assumes "\<And>x t. P t \<Longrightarrow> heeds t (f x t) \<and> P (f x t)" "heeds s t" "P t"
  shows "heeds s (fold f xs t) \<and> P (fold f xs t)"
  using assms(2,3)
proof (induction xs arbitrary: t)
  case (Cons x xs)
  from assms(1)[OF Cons.prems(2), of x] heeds_trans[OF Cons.prems(1)] Cons.IH[of "f x t"] show ?case by auto
qed simp

lemma fold_pair_heeds:
  assumes "\<And>x t. P (fst t) \<Longrightarrow> heeds (fst t) (fst (f x t)) \<and> P (fst (f x t))" "heeds s (fst t)" "P (fst t)"
  shows "heeds s (fst (fold f xs t)) \<and> P (fst (fold f xs t))"
  using assms(2,3)
proof (induction xs arbitrary: t)
  case (Cons x xs)
  from assms(1)[where x = x, OF Cons.prems(2)] heeds_trans[OF Cons.prems(1)] Cons.IH[of "f x t"]
  show ?case by auto
qed simp

lemma mget_one_heeds: "okdb t j \<Longrightarrow> cdb (cl t c) = j \<Longrightarrow> heeds t (mget_one c key t)"
  by (simp add: mget_one_def case_prod_beta split: option.split robj.split)

lemma mgetCommand_heeds:
  assumes "okdb s (cdb (cl s c))"
  shows "heeds s (mgetCommand c s)"
proof -
  have "heeds s (fold (mget_one c) xs t)" if "heeds s t" "okdb t (cdb (cl t c))" for xs t
    using that
  proof (induction xs arbitrary: t)
    case (Cons x xs)
    have m: "ctx (mget_one c x t) = ctx t" by (simp add: mget_one_def case_prod_beta split: option.split robj.split)
    have "okdb (mget_one c x t) (cdb (cl (mget_one c x t) c))"
      using Cons.prems(2) okdb_ctx[OF m] ctx_clientD(1)[OF m] by simp
    then show ?case using Cons.IH heeds_trans[OF Cons.prems(1) mget_one_heeds[OF Cons.prems(2) refl]] by simp
  qed simp
  then show ?thesis using assms by (simp add: mgetCommand_def)
qed

lemma msetGenericCommand_heeds:
  assumes "okdb s (cdb (cl s c))"
  shows "heeds s (msetGenericCommand c nx s)"
proof -
  let ?j = "cdb (cl s c)"
  have busy: "heeds (fst t) (fst (busy_one ?j x t)) \<and> okdb (fst (busy_one ?j x t)) ?j" if "okdb (fst t) ?j" for x t
    using that by (simp add: busy_one_def command_simps)
  have mset: "heeds t (mset_one ?j x t) \<and> okdb (mset_one ?j x t) ?j" if "okdb t ?j" for x t
    using that by (auto simp: mset_one_def intro!: heeds_key[where j = ?j and key = "fst x"])
  have b: "heeds s (fst (fold (busy_one ?j) xs (s, 0))) \<and> okdb (fst (fold (busy_one ?j) xs (s, 0))) ?j" for xs
    using fold_pair_heeds[where P = "\<lambda>t. okdb t ?j" and s = s and t = "(s, 0)" and f = "busy_one ?j", OF busy] assms by simp
  have m: "heeds s (fold (mset_one ?j) xs t)" if "heeds s t" "okdb t ?j" for xs t
    using fold_heeds[where P = "\<lambda>t. okdb t ?j" and f = "mset_one ?j", OF mset that] by simp
  show ?thesis using b m assms by (simp add: msetGenericCommand_def command_simps)
qed

lemma dbDelete_none:
  assumes "db_ok s" "okdb s j" "val_of s j key = None"
  shows "val_of (fst (dbDelete j key s)) = val_of s" "exp_of (fst (dbDelete j key s)) = exp_of s"
  using assms db_okD(2)[OF assms(1) okdb_less[OF assms(2)], of key] by (auto simp: fun_eq_iff)

lemma del_one_heeds:
  assumes "good (fst t) j"
  shows "heeds (fst t) (fst (del_one j key t))"
proof (cases "kept (fst t) j key key = None")
  case True
  have e: "good (fst (expireIfNeeded j key (fst t))) j" "val_of (fst (expireIfNeeded j key (fst t))) j key = None"
    using assms True by (simp_all add: expireIfNeeded_kept del: expireIfNeeded_val)
  have "fst (del_one j key t) = fst (dbDelete j key (fst (expireIfNeeded j key (fst t))))"
    using e by (simp add: del_one_def command_simps)
  moreover have "heeds (fst t) (fst (expireIfNeeded j key (fst t)))" using assms by simp
  ultimately show ?thesis
    using heeds_same[of "fst t" "fst (expireIfNeeded j key (fst t))" "fst (dbDelete j key (fst (expireIfNeeded j key (fst t))))"]
      dbDelete_none[OF _ _ e(2)] e(1) by simp
next
  case False
  have "heeds (fst t) (fst (del_one j key t))" if "snd (dbDelete j key (fst (expireIfNeeded j key (fst t))))"
    using assms that
    by (simp add: del_one_def command_simps) (rule heeds_key[where j = j and key = key]; simp)
  moreover have "snd (dbDelete j key (fst (expireIfNeeded j key (fst t))))"
    using assms False by (simp add: expireIfNeeded_kept del: expireIfNeeded_val)
  ultimately show ?thesis by blast
qed

lemma delCommand_heeds:
  assumes "good s (cdb (cl s c))"
  shows "heeds s (delCommand c s)"
proof -
  let ?j = "cdb (cl s c)"
  have "heeds s (fst (fold (del_one ?j) xs (s, 0)))" for xs
    using fold_pair_heeds[where P = "\<lambda>t. good t ?j" and s = s and t = "(s, 0)" and f = "del_one ?j"]
      del_one_heeds del_one_ok assms by simp
  then show ?thesis by (simp add: delCommand_def command_simps)
qed

lemma key_reads_heed:
  assumes "okdb s (cdb (cl s c))"
  shows "heeds s (existsCommand c s)" "heeds s (keysCommand c visit s)" "heeds s (dbsizeCommand c s)"
proof -
  let ?j = "cdb (cl s c)"
  have e: "heeds s (fst (fold (exists_one ?j) xs (s, 0)))" for xs
    using fold_pair_heeds[where P = "\<lambda>t. okdb t ?j" and s = s and t = "(s, 0)" and f = "exists_one ?j"] assms
    by (simp add: exists_one_def command_simps)
  have k: "heeds s (fst (fold (keys_one ?j m) xs (s, [])))" for xs m
    using fold_pair_heeds[where P = "\<lambda>t. okdb t ?j" and s = s and t = "(s, [])" and f = "keys_one ?j m"] assms
    by (simp add: keys_one_def command_simps split: bool.split)
  show "heeds s (existsCommand c s)" "heeds s (keysCommand c visit s)" "heeds s (dbsizeCommand c s)"
    using e k by (simp_all add: existsCommand_def keysCommand_def dbsizeCommand_def command_simps)
qed

lemma flush_heeds:
  assumes "watch_ok s" "only UNIV s t" "\<And>j key. j < length (dbs s) \<Longrightarrow> \<not> same_key s t j key \<Longrightarrow>
      flush_hits dbid s (j, key)"
    "\<And>d. d \<in> set (clients s) \<Longrightarrow> \<exists>wk \<in> set (wkeys (cl s d)). flush_hits dbid s wk \<Longrightarrow> f_dirty_cas (cl t d)"
  shows "heeds s t"
  unfolding heeds_def
proof (intro conjI allI impI)
  show "only UNIV s t" by (rule assms(2))
  fix j key
  assume j: "j < length (dbs s)"
  have "flagged s t j key" if "\<not> same_key s t j key"
    unfolding flagged_def
  proof
    fix d assume "d \<in> watchers s j key"
    then have w: "(j, key) \<in> set (wkeys (cl s d))" using assms(1) j by (auto simp: watch_ok_def)
    then have "d \<in> set (clients s)" by (rule watch_ok_client[OF assms(1)])
    with w assms(3)[OF j that] show "f_dirty_cas (cl t d)" by (intro assms(4)) auto
  qed
  then show "same_key s t j key \<or> gone s t j key \<or> flagged s t j key" by blast
qed


lemma flushdbCommand_heeds:
  assumes "watch_ok s" "db_ok s" "okdb s (cdb (cl s c))"
  shows "heeds s (flushdbCommand c s)"
proof -
  let ?j = "cdb (cl s c)"
  let ?t = "upd_db ?j empty_one (signalFlushedDb (Some ?j) (s\<lparr>dirty := dirty s + int (card (dom (kv (the_db s ?j))))\<rparr>))"
  have v: "val_of ?t = (val_of s)(?j := Map.empty)" "exp_of ?t = (exp_of s)(?j := Map.empty)"
    using assms(3) by (auto simp: val_of_def exp_of_def fun_eq_iff nth_list_update empty_one_def signalFlushedDb_def)
  have c: "ctx ?t = ctx s" by (subst ctx_upd_db) (simp_all add: empty_one_def signalFlushedDb_def)
  have f: "f_dirty_cas (cl ?t d) \<longleftrightarrow> f_dirty_cas (cl s d) \<or>
      (d \<in> set (clients s) \<and> (\<exists>wk \<in> set (wkeys (cl s d)). flush_hits (Some ?j) s wk))" for d
    by (simp add: signalFlushedDb_def flush_hits_def)
  have "heeds s ?t"
  proof (rule flush_heeds[OF assms(1)])
    show "only UNIV s ?t" by (rule only_ctx[OF only_refl c]) (simp_all add: signalFlushedDb_def)
    fix j key assume "j < length (dbs s)" "\<not> same_key s ?t j key"
    then show "flush_hits (Some ?j) s (j, key)"
      unfolding same_key_def flush_hits_def v using db_okD(2)[OF assms(2), of j key]
      by (cases "val_of s j key") (auto split: if_splits)
  next
    fix d assume "d \<in> set (clients s)" "\<exists>wk \<in> set (wkeys (cl s d)). flush_hits (Some ?j) s wk"
    with f show "f_dirty_cas (cl ?t d)" by blast
  qed
  then have "heeds s (if cluster_enabled ?t then slotToKeyFlush ?t else ?t)"
    using heeds_same[of s ?t "slotToKeyFlush ?t"] by simp
  then show ?thesis by (simp add: flushdbCommand_def Let_def)
qed

lemma flushallCommand_heeds:
  assumes "watch_ok s" "db_ok s"
  shows "heeds s (flushallCommand c s)"
proof -
  let ?u = "signalFlushedDb None s"
  let ?t = "fst (emptyDb ?u)"
  have t: "dbs ?t = map empty_one (dbs s)" "cl ?t = cl ?u"
    by (simp_all add: emptyDb_def Let_def signalFlushedDb_def slotToKeyFlush_def)
  have v: "val_of ?t j = Map.empty" "exp_of ?t j = Map.empty" if "j < length (dbs s)" for j
    using that by (simp_all add: t val_of_def exp_of_def empty_one_def)
  have w: "watchers ?t j = watchers s j" if "j < length (dbs s)" for j
    using that by (simp add: t watchers_def fun_eq_iff empty_one_def)
  have f: "f_dirty_cas (cl ?t d) \<longleftrightarrow> f_dirty_cas (cl s d) \<or>
      (d \<in> set (clients s) \<and> (\<exists>wk \<in> set (wkeys (cl s d)). flush_hits None s wk))" for d
    unfolding t(2) by (simp add: signalFlushedDb_def)
  have "heeds s ?t"
  proof (rule flush_heeds[OF assms(1)])
    show "only UNIV s ?t" using w f by (simp only: only_def t(1) length_map) (simp add: w)
    fix j key assume "j < length (dbs s)" "\<not> same_key s ?t j key"
    then show "flush_hits None s (j, key)"
      using v[of j] db_okD(2)[OF assms(2), of j key] by (auto simp: same_key_def flush_hits_def)
  next
    fix d assume "d \<in> set (clients s)" "\<exists>wk \<in> set (wkeys (cl s d)). flush_hits None s wk"
    with f show "f_dirty_cas (cl ?t d)" by blast
  qed
  then show ?thesis by (simp add: flushallCommand_def command_simps)
qed

lemma selectCommand_heeds: "heeds s (selectCommand c s)"
proof -
  have "heeds s (upd_client c (\<lambda>x. x\<lparr>cdb := n\<rparr>) t)" if "heeds s t" for n t
  proof -
    let ?u = "upd_client c (\<lambda>x. x\<lparr>cdb := n\<rparr>) t"
    have "same_key s ?u = same_key s t" "gone s ?u = gone s t" "flagged s ?u = flagged s t"
      by (auto simp: fun_eq_iff same_key_def gone_def flagged_def)
    with that show ?thesis by (simp add: heeds_def only_def)
  qed
  then show ?thesis
    by (simp add: selectCommand_def selectDb_def command_simps split: option.split bool.split)
qed

end
