(* ===== verification/Transactions.thy ===== *)
theory Transactions
  imports Watch
begin

text \<open>
  The commands on keys and strings as procedures of the command table, what holds of every one of
  them, and the transactions built on them: a dataset that stays well formed, and a transaction
  that runs only if the keys it watches have not changed.
\<close>

section \<open>Procedures\<close>

definition signalling_procs :: "(nat \<Rightarrow> server \<Rightarrow> string list) \<Rightarrow> (string \<times> (nat \<Rightarrow> server \<Rightarrow> server)) list" where
  \<comment> \<open>the procedures of \<open>db.c\<close> and \<open>t_string.c\<close> under their names, but for those in the next list;
     \<open>order\<close> is the order in which the iterator of \<open>KEYS\<close> meets the keys\<close>
  "signalling_procs order =
     [(''getCommand'', getCommand), (''setCommand'', setCommand), (''setnxCommand'', setnxCommand),
      (''setexCommand'', setexCommand), (''psetexCommand'', psetexCommand), (''appendCommand'', appendCommand),
      (''strlenCommand'', strlenCommand), (''delCommand'', delCommand), (''existsCommand'', existsCommand),
      (''setrangeCommand'', setrangeCommand), (''getrangeCommand'', getrangeCommand), (''incrCommand'', incrCommand),
      (''decrCommand'', decrCommand), (''mgetCommand'', mgetCommand), (''incrbyCommand'', incrbyCommand),
      (''decrbyCommand'', decrbyCommand), (''getsetCommand'', getsetCommand), (''msetCommand'', msetCommand),
      (''msetnxCommand'', msetnxCommand), (''selectCommand'', selectCommand), (''renameCommand'', renameCommand),
      (''renamenxCommand'', renamenxCommand), (''expireCommand'', expireCommand), (''expireatCommand'', expireatCommand),
      (''pexpireCommand'', pexpireCommand), (''pexpireatCommand'', pexpireatCommand),
      (''keysCommand'', \<lambda>c s. keysCommand c (order c s) s), (''dbsizeCommand'', dbsizeCommand),
      (''typeCommand'', typeCommand), (''flushdbCommand'', flushdbCommand), (''flushallCommand'', flushallCommand),
      (''ttlCommand'', ttlCommand), (''pttlCommand'', pttlCommand)]"

definition silent_procs :: "(string \<times> (nat \<Rightarrow> server \<Rightarrow> server)) list" where
  \<comment> \<open>the two commands that change a key or its expire without signalling it\<close>
  "silent_procs = [(''moveCommand'', moveCommand), (''persistCommand'', persistCommand)]"

definition dataset_procs :: "(nat \<Rightarrow> server \<Rightarrow> string list) \<Rightarrow> (string \<times> (nat \<Rightarrow> server \<Rightarrow> server)) list" where
  "dataset_procs order = signalling_procs order @ silent_procs"

section \<open>What commands keep\<close>

definition keeps :: "server \<Rightarrow> server \<Rightarrow> bool" where
  \<comment> \<open>a predicate rather than an equation, for the simplifier\<close>
  "keeps s t \<longleftrightarrow> ctx t = ctx s"

lemma keeps_refl [simp]: "keeps s s"
  by (simp add: keeps_def)

lemma keeps_ops [simp]:
  assumes "keeps s t"
  shows "keeps s (fst (lookupKeyWrite j key t))" "keeps s (fst (lookupKeyRead j key t))"
    "keeps s (fst (expireIfNeeded j key t))" "keeps s (dbAdd j key v t)" "keeps s (dbOverwrite j key v t)"
    "keeps s (setKey j key v t)" "keeps s (fst (dbDelete j key t))" "keeps s (setExpire j key when t)"
    "keeps s (fst (removeExpire j key t))" "keeps s (upd_db j (\<lambda>d. d\<lparr>kv := f d\<rparr>) t)"
    "keeps s (addReply c r t)" "keeps s (addReplies c rs t)" "keeps s (notifyKeyspaceEvent cls ev key j t)"
    "keeps s (touchWatchedKey j key t)" "keeps s (t\<lparr>dirty := n\<rparr>)" "keeps s (t\<lparr>clk_reads := m\<rparr>)"
    "keeps s (snd (getExpire j key t))" "keeps s (fst (dbUnshareStringValue j key ob t))"
    "keeps s (redisAssert b t)" "keeps s (touchWatchedKeysOnFlush dbid t)"
    "keeps s (fst (getLongLongFromSdsOrReply c a msg t))" "keeps s (fst (getLongFromSdsOrReply c a msg t))"
    "keeps s (fst (checkStringLength c len t))"
  using assms by (simp_all add: keeps_def)

lemma setGenericCommand_keeps [simp]: "keeps s (setGenericCommand c fl key v expire unit ok abort s)"
  by (simp add: setGenericCommand_def command_simps split: option.split robj.split bool.split)

lemma getGenericCommand_keeps [simp]: "keeps s (fst (getGenericCommand c s))"
  by (simp add: getGenericCommand_def command_simps split: option.split robj.split bool.split)

lemma setrangeCommand_keeps [simp]: "keeps s (setrangeCommand c s)"
  by (simp add: setrangeCommand_def command_simps split: option.split robj.split bool.split)

lemma getrangeCommand_keeps [simp]: "keeps s (getrangeCommand c s)"
  by (simp add: getrangeCommand_def command_simps split: option.split robj.split bool.split)

lemma appendCommand_keeps [simp]: "keeps s (appendCommand c s)"
  by (simp add: appendCommand_def command_simps split: option.split robj.split bool.split)

lemma incrDecrCommand_keeps [simp]: "keeps s (incrDecrCommand c incr s)"
  by (simp add: incrDecrCommand_def command_simps split: option.split robj.split bool.split)

lemma strlenCommand_keeps [simp]: "keeps s (strlenCommand c s)"
  by (simp add: strlenCommand_def command_simps split: option.split robj.split bool.split)

lemma mget_one_keeps [simp]: "keeps s (mget_one c key s)"
  by (simp add: mget_one_def command_simps split: option.split robj.split bool.split)

lemma mset_one_keeps [simp]: "keeps s (mset_one j p s)"
  by (simp add: mset_one_def command_simps)

lemma typeCommand_keeps [simp]: "keeps s (typeCommand c s)"
  by (simp add: typeCommand_def command_simps)

lemma renameGenericCommand_keeps [simp]: "keeps s (renameGenericCommand c nx s)"
  by (simp add: renameGenericCommand_def command_simps split: option.split robj.split bool.split)

lemma ttlGenericCommand_keeps [simp]: "keeps s (ttlGenericCommand c ms s)"
  by (simp add: ttlGenericCommand_def command_simps split: option.split robj.split bool.split)

lemma string_family_keeps [simp]:
  "keeps s (setCommand c s)" "keeps s (setnxCommand c s)" "keeps s (setexCommand c s)" "keeps s (psetexCommand c s)"
  "keeps s (getCommand c s)" "keeps s (incrCommand c s)" "keeps s (decrCommand c s)"
  by (simp_all add: setCommand_def setnxCommand_def setexCommand_def psetexCommand_def getCommand_def incrCommand_def
      decrCommand_def Let_def split: option.split)

lemma keeps_trans: "keeps s t \<Longrightarrow> keeps t u \<Longrightarrow> keeps s u"
  by (simp add: keeps_def)

lemma incrby_keeps [simp]: "keeps s (incrbyCommand c s)" "keeps s (decrbyCommand c s)"
  by (auto simp: incrbyCommand_def decrbyCommand_def case_prod_beta intro: keeps_trans[OF _ incrDecrCommand_keeps]
      split: option.split)

lemma getset_keeps [simp]: "keeps s (getsetCommand c s)"
  by (auto simp: getsetCommand_def command_simps split: bool.split)

lemma fold_keeps_ctx: "(\<And>x t. keeps t (f x t)) \<Longrightarrow> keeps s t \<Longrightarrow> keeps s (fold f xs t)"
proof (induction xs arbitrary: t)
  case (Cons x xs)
  from Cons.IH[of "f x t"] Cons.prems(1) keeps_trans[OF Cons.prems(2) Cons.prems(1)] show ?case by simp
qed simp

lemma fold_pair_keeps: "(\<And>x t. keeps (fst t) (fst (f x t))) \<Longrightarrow> keeps s (fst t) \<Longrightarrow> keeps s (fst (fold f xs t))"
proof (induction xs arbitrary: t)
  case (Cons x xs)
  from Cons.IH[of "f x t"] Cons.prems(1) keeps_trans[OF Cons.prems(2) Cons.prems(1)] show ?case by simp
qed simp

lemma step_keeps [simp]:
  "keeps (fst t) (fst (busy_one j x t))" "keeps (fst t) (fst (del_one j x t))" "keeps (fst t) (fst (exists_one j x t))"
  "keeps (fst u) (fst (keys_one j m x u))"
  by (simp_all add: busy_one_def del_one_def exists_one_def keys_one_def command_simps split: bool.split)

lemma loops_keep [simp]:
  "keeps s (mgetCommand c s)" "keeps s (msetGenericCommand c nx s)" "keeps s (delCommand c s)"
  "keeps s (existsCommand c s)" "keeps s (keysCommand c visit s)" "keeps s (dbsizeCommand c s)"
  using fold_keeps_ctx[where f = "mget_one c" and s = s and t = "addReply c r s" for r]
    fold_keeps_ctx[where f = "mset_one (cdb (cl s c))" and s = s]
    fold_pair_keeps[where f = "busy_one (cdb (cl s c))" and s = s and t = "(s, 0)"]
    fold_pair_keeps[where f = "del_one (cdb (cl s c))" and s = s and t = "(s, 0)"]
    fold_pair_keeps[where f = "exists_one (cdb (cl s c))" and s = s and t = "(s, 0)"]
    fold_pair_keeps[where f = "keys_one (cdb (cl s c)) m" and s = s and t = "(s, [])" for m]
  by (simp_all add: mgetCommand_def msetGenericCommand_def delCommand_def existsCommand_def keysCommand_def dbsizeCommand_def
      command_simps)

lemma flush_keeps [simp]: "keeps s (flushdbCommand c s)" "keeps s (flushallCommand c s)"
proof -
  have "ctx (upd_db j empty_one t) = ctx t" for j t by (rule ctx_upd_db) (simp add: empty_one_def)
  then show "keeps s (flushdbCommand c s)"
    by (simp add: flushdbCommand_def command_simps signalFlushedDb_def keeps_def)
  have "ctx (fst (emptyDb t)) = ctx t" for t
    by (simp add: emptyDb_def Let_def) (simp add: ctx_def empty_one_def o_def)
  then show "keeps s (flushallCommand c s)"
    by (simp add: flushallCommand_def command_simps signalFlushedDb_def keeps_def)
qed

section \<open>The world that procedures work on\<close>

definition world :: "server \<Rightarrow> bool" where
  "world s \<longleftrightarrow> db_ok s \<and> watch_ok s \<and> (\<forall>c. okdb s (cdb (cl s c)))"

definition undisturbed :: "nat \<Rightarrow> server \<Rightarrow> server \<Rightarrow> bool" where
  \<comment> \<open>what a command of one client leaves to the others, and the queue of its own\<close>
  "undisturbed c s t \<longleftrightarrow>
     (\<forall>d. wkeys (cl t d) = wkeys (cl s d) \<and> f_multi (cl t d) = f_multi (cl s d) \<and>
       mcommands (cl t d) = mcommands (cl s d) \<and> f_dirty_exec (cl t d) = f_dirty_exec (cl s d)) \<and>
     (\<forall>d. d \<noteq> c \<longrightarrow> cdb (cl t d) = cdb (cl s d)) \<and> clients t = clients s \<and> aof_on t = aof_on s"

definition procedure_ok :: "(nat \<Rightarrow> server \<Rightarrow> server) \<Rightarrow> bool" where
  "procedure_ok f \<longleftrightarrow> (\<forall>c s. world s \<longrightarrow> world (f c s) \<and> undisturbed c s (f c s))"

lemma watch_ok_fields:
  assumes "length (dbs t) = length (dbs s)" "clients t = clients s" "\<And>c. wkeys (cl t c) = wkeys (cl s c)"
    "\<And>j. j < length (dbs s) \<Longrightarrow> watched_keys (the_db t j) = watched_keys (the_db s j)"
  shows "watch_ok t = watch_ok s"
proof -
  have "watchers t j key = watchers s j key" if "j < length (dbs s)" for j key
    using assms(4)[OF that] by (simp add: watchers_def)
  then show ?thesis unfolding watch_ok_def assms(1-3) by (simp add: assms(4) cong: conj_cong imp_cong)
qed

text \<open>The arguments of the client set aside, which \<open>EXPIRE\<close> rewrites for its propagation.\<close>

definition shape :: "server \<Rightarrow> server" where
  "shape s = (ctx s)\<lparr>cl := (\<lambda>c. (cl (ctx s) c)\<lparr>cargv := []\<rparr>)\<rparr>"

definition shapes :: "server \<Rightarrow> server \<Rightarrow> bool" where
  "shapes s t \<longleftrightarrow> shape t = shape s"

lemma shapes_ctx: "shapes s t \<Longrightarrow> ctx u = ctx t \<Longrightarrow> shapes s u"
  by (simp add: shapes_def shape_def)

lemma shapes_refl [simp]: "shapes s s"
  by (simp add: shapes_def)

lemma shapes_ops [simp]:
  assumes "shapes s t"
  shows "shapes s (fst (lookupKeyRead j key t))" "shapes s (fst (dbDelete j key t))" "shapes s (setExpire j key when t)"
    "shapes s (addReply c r t)" "shapes s (notifyKeyspaceEvent cls ev key j t)"
    "shapes s (touchWatchedKey j key t)" "shapes s (t\<lparr>dirty := n\<rparr>)" "shapes s (t\<lparr>clk_reads := m\<rparr>)"
    "shapes s (redisAssert b t)" "shapes s (fst (getLongLongFromSdsOrReply c a msg t))"
  by (rule shapes_ctx[OF assms]; simp)+

lemma shapes_cargv [simp]: "shapes s t \<Longrightarrow> shapes s (upd_client c (\<lambda>x. x\<lparr>cargv := av\<rparr>) t)"
proof -
  let ?u = "upd_client c (\<lambda>x. x\<lparr>cargv := av\<rparr>) t"
  have "(\<lambda>d. (cl ?u d)\<lparr>creply := [], f_dirty_cas := False, cargv := []\<rparr>) =
      (\<lambda>d. (cl t d)\<lparr>creply := [], f_dirty_cas := False, cargv := []\<rparr>)"
    by (rule ext) simp
  then have "shape ?u = shape t" by (simp add: shape_def ctx_def upd_client_def)
  then show "shapes s t \<Longrightarrow> shapes s ?u" by (simp add: shapes_def)
qed

lemma shapesD:
  assumes "shapes s t"
  shows "length (dbs t) = length (dbs s)" "clients t = clients s" "cluster_enabled t = cluster_enabled s" "aof_on t = aof_on s"
    "cdb (cl t c) = cdb (cl s c)" "wkeys (cl t c) = wkeys (cl s c)" "f_multi (cl t c) = f_multi (cl s c)"
    "mcommands (cl t c) = mcommands (cl s c)" "f_dirty_exec (cl t c) = f_dirty_exec (cl s c)"
    "j < length (dbs s) \<Longrightarrow> watched_keys (the_db t j) = watched_keys (the_db s j)"
proof -
  have e: "shape t = shape s" using assms by (simp add: shapes_def)
  have d: "map (\<lambda>d. d\<lparr>kv := Map.empty, expires := Map.empty, db_ready_keys := {}\<rparr>) (dbs t) =
      map (\<lambda>d. d\<lparr>kv := Map.empty, expires := Map.empty, db_ready_keys := {}\<rparr>) (dbs s)"
    using arg_cong[OF e, of dbs] by (simp add: shape_def ctx_def)
  from arg_cong[OF d, of length] show l: "length (dbs t) = length (dbs s)" by simp
  show "clients t = clients s" "cluster_enabled t = cluster_enabled s" "aof_on t = aof_on s"
    using arg_cong[OF e, of clients] arg_cong[OF e, of cluster_enabled] arg_cong[OF e, of aof_on]
    by (simp_all add: shape_def ctx_def)
  have c: "(cl t c)\<lparr>creply := [], f_dirty_cas := False, cargv := []\<rparr> = (cl s c)\<lparr>creply := [], f_dirty_cas := False, cargv := []\<rparr>"
    using arg_cong[OF e, of "\<lambda>s. cl s c"] by (simp add: shape_def ctx_def)
  show "cdb (cl t c) = cdb (cl s c)" "wkeys (cl t c) = wkeys (cl s c)" "f_multi (cl t c) = f_multi (cl s c)"
    "mcommands (cl t c) = mcommands (cl s c)" "f_dirty_exec (cl t c) = f_dirty_exec (cl s c)"
    using arg_cong[OF c, of cdb] arg_cong[OF c, of wkeys] arg_cong[OF c, of f_multi] arg_cong[OF c, of mcommands]
      arg_cong[OF c, of f_dirty_exec] by simp_all
  show "watched_keys (the_db t j) = watched_keys (the_db s j)" if j: "j < length (dbs s)"
  proof -
    from arg_cong[OF d, of "\<lambda>ds. watched_keys (ds ! j)"] j l show ?thesis by simp
  qed
qed

lemma world_shapes:
  assumes "world s" "shapes s t" "db_ok t"
  shows "world t" "undisturbed c s t"
proof -
  have "watch_ok t = watch_ok s" by (rule watch_ok_fields) (use shapesD[OF assms(2)] in auto)
  then show "world t" using assms(1,3) shapesD[OF assms(2)] by (simp add: world_def okdb_def)
  show "undisturbed c s t" by (simp add: undisturbed_def shapesD[OF assms(2)])
qed

lemma keeps_shapes: "keeps s t \<Longrightarrow> shapes s t"
  by (rule shapes_ctx[OF shapes_refl]) (simp add: keeps_def)

lemma procedure_shapes:
  assumes "\<And>c s. shapes s (f c s)" "\<And>c s. db_ok s \<Longrightarrow> okdb s (cdb (cl s c)) \<Longrightarrow> db_ok (f c s)"
  shows "procedure_ok f"
  using world_shapes[OF _ assms(1) assms(2)] by (auto simp: procedure_ok_def world_def)

lemmas procedure_keeps = procedure_shapes[OF keeps_shapes]

lemma expireGeneric_shapes [simp]: "shapes s (expireGenericCommand c b u s)"
  by (simp add: expireGenericCommand_def command_simps split: option.split)

lemma shapes_trans: "shapes s t \<Longrightarrow> shapes t u \<Longrightarrow> shapes s u"
  by (simp add: shapes_def)

lemma expire_family:
  assumes "f = expireCommand \<or> f = expireatCommand \<or> f = pexpireCommand \<or> f = pexpireatCommand"
  shows "shapes s (f c s)" "db_ok s \<Longrightarrow> okdb s (cdb (cl s c)) \<Longrightarrow> db_ok (f c s)" "okdb s (cdb (cl s c)) \<Longrightarrow> heeds s (f c s)"
proof -
  have step: "shapes s (s\<lparr>clk_reads := n\<rparr>)" "heeds s (s\<lparr>clk_reads := n\<rparr>)" for n by simp_all
  show "shapes s (f c s)"
    using assms by (auto simp: expireCommand_def expireatCommand_def pexpireCommand_def pexpireatCommand_def case_prod_beta
        intro: shapes_trans[OF step(1) expireGeneric_shapes])
  show "db_ok s \<Longrightarrow> okdb s (cdb (cl s c)) \<Longrightarrow> db_ok (f c s)"
    using assms by (auto simp: expireCommand_def expireatCommand_def pexpireCommand_def pexpireatCommand_def case_prod_beta
        intro!: expireGenericCommand_ok)
  show "okdb s (cdb (cl s c)) \<Longrightarrow> heeds s (f c s)"
  proof -
    assume j: "okdb s (cdb (cl s c))"
    have "heeds s (expireGenericCommand c b u (s\<lparr>clk_reads := n\<rparr>))" for b u n
      by (rule heeds_trans[OF step(2) expireGenericCommand_heeds]) (use j in simp)
    then show "heeds s (f c s)"
      using assms expireGenericCommand_heeds[OF j]
      by (auto simp: expireCommand_def expireatCommand_def pexpireCommand_def pexpireatCommand_def case_prod_beta)
  qed
qed

lemma selectDb_world:
  assumes "world s" "0 \<le> n" "n < int (length (dbs s))" "cluster_enabled s \<Longrightarrow> n = 0"
  shows "world (upd_client c (\<lambda>x. x\<lparr>cdb := nat n\<rparr>) s)" "undisturbed c s (upd_client c (\<lambda>x. x\<lparr>cdb := nat n\<rparr>) s)"
proof -
  have "watch_ok (upd_client c (\<lambda>x. x\<lparr>cdb := nat n\<rparr>) s) = watch_ok s" by (rule watch_ok_fields) auto
  then show "world (upd_client c (\<lambda>x. x\<lparr>cdb := nat n\<rparr>) s)"
    using assms by (auto simp: world_def okdb_def nat_less_iff)
  show "undisturbed c s (upd_client c (\<lambda>x. x\<lparr>cdb := nat n\<rparr>) s)" by (simp add: undisturbed_def)
qed

lemma selectCommand_world:
  assumes "world s"
  shows "world (selectCommand c s)" "undisturbed c s (selectCommand c s)"
proof -
  let ?t = "fst (getLongFromSdsOrReply c (argv s c ! 1) (Some ''invalid DB index'') s)"
  have q: "keeps s ?t" "db_ok ?t" using assms by (simp_all add: world_def)
  have r: "world (addReply c r ?t)" "undisturbed c s (addReply c r ?t)" "world ?t" "undisturbed c s ?t" for r
    using world_shapes[OF assms keeps_shapes[OF q(1)] q(2)] world_shapes[OF assms keeps_shapes, of "addReply c r ?t"] q
    by simp_all
  have u: "undisturbed c s u" if "undisturbed c ?t u" for u
    using that r(4) by (simp add: undisturbed_def)
  have rep: "world (addReply c r u) = world u" "undisturbed c s (addReply c r u) = undisturbed c s u" for r u
    using watch_ok_ctx[OF ctx_reply(1)] by (simp_all add: world_def undisturbed_def)
  have sel: "world (upd_client c (\<lambda>x. x\<lparr>cdb := nat (s32 n)\<rparr>) ?t) \<and> undisturbed c s (upd_client c (\<lambda>x. x\<lparr>cdb := nat (s32 n)\<rparr>) ?t)"
    if "\<not> (cluster_enabled ?t \<and> n \<noteq> 0)" "\<not> (s32 n < 0 \<or> s32 n \<ge> int (length (dbs ?t)))" for n
    using selectDb_world[OF r(3), of "s32 n" c] that u by (auto simp: s32_def)
  show "world (selectCommand c s)" "undisturbed c s (selectCommand c s)"
    using r sel
    by (auto simp: selectCommand_def selectDb_def command_simps rep split: option.split bool.split)
qed

text \<open>Every procedure of the lists keeps the world, and those of the first list let their changes be noticed.\<close>

lemma renames_ok:
  "db_ok s \<Longrightarrow> okdb s (cdb (cl s c)) \<Longrightarrow> db_ok (renameCommand c s)" "db_ok s \<Longrightarrow> okdb s (cdb (cl s c)) \<Longrightarrow> db_ok (renamenxCommand c s)"
  "db_ok s \<Longrightarrow> okdb s (cdb (cl s c)) \<Longrightarrow> db_ok (msetCommand c s)" "db_ok s \<Longrightarrow> okdb s (cdb (cl s c)) \<Longrightarrow> db_ok (msetnxCommand c s)"
  "db_ok s \<Longrightarrow> okdb s (cdb (cl s c)) \<Longrightarrow> db_ok (ttlCommand c s)" "db_ok s \<Longrightarrow> okdb s (cdb (cl s c)) \<Longrightarrow> db_ok (pttlCommand c s)"
  "keeps s (renameCommand c s)" "keeps s (renamenxCommand c s)" "keeps s (msetCommand c s)" "keeps s (msetnxCommand c s)"
  "keeps s (ttlCommand c s)" "keeps s (pttlCommand c s)"
  "okdb s (cdb (cl s c)) \<Longrightarrow> heeds s (renameCommand c s)" "okdb s (cdb (cl s c)) \<Longrightarrow> heeds s (renamenxCommand c s)"
  "okdb s (cdb (cl s c)) \<Longrightarrow> heeds s (msetCommand c s)" "okdb s (cdb (cl s c)) \<Longrightarrow> heeds s (msetnxCommand c s)"
  "okdb s (cdb (cl s c)) \<Longrightarrow> heeds s (ttlCommand c s)" "okdb s (cdb (cl s c)) \<Longrightarrow> heeds s (pttlCommand c s)"
  by (simp_all add: renameCommand_def renamenxCommand_def msetCommand_def msetnxCommand_def ttlCommand_def pttlCommand_def
      renameGenericCommand_ok msetGenericCommand_ok ttlGenericCommand_ok renameGenericCommand_heeds msetGenericCommand_heeds
      string_reads_heed)

lemma moveCommand_keeps [simp]: "keeps s (moveCommand c s)"
  by (simp add: moveCommand_def command_simps split: option.split)

lemma persistCommand_keeps [simp]: "keeps s (persistCommand c s)"
  by (simp add: persistCommand_def command_simps split: option.split bool.split)

lemma procs_ok [simp]:
  "procedure_ok getCommand" "procedure_ok setCommand" "procedure_ok setnxCommand" "procedure_ok setexCommand"
  "procedure_ok psetexCommand" "procedure_ok appendCommand" "procedure_ok strlenCommand" "procedure_ok delCommand"
  "procedure_ok existsCommand" "procedure_ok setrangeCommand" "procedure_ok getrangeCommand" "procedure_ok incrCommand"
  "procedure_ok decrCommand" "procedure_ok mgetCommand" "procedure_ok incrbyCommand" "procedure_ok decrbyCommand"
  "procedure_ok getsetCommand" "procedure_ok msetCommand" "procedure_ok msetnxCommand" "procedure_ok renameCommand"
  "procedure_ok renamenxCommand" "procedure_ok dbsizeCommand" "procedure_ok typeCommand" "procedure_ok flushdbCommand"
  "procedure_ok flushallCommand" "procedure_ok ttlCommand" "procedure_ok pttlCommand" "procedure_ok moveCommand"
  "procedure_ok persistCommand"
  "procedure_ok (\<lambda>c s. keysCommand c (order c s) s)"
  by (rule procedure_keeps; simp add: appendCommand_ok dbsizeCommand_ok delCommand_ok existsCommand_ok flushallCommand_ok flushdbCommand_ok getrangeCommand_ok getsetCommand_ok incr_family_ok mgetCommand_ok moveCommand_ok persistCommand_ok renames_ok set_family_ok setrangeCommand_ok strlenCommand_ok typeCommand_ok keysCommand_ok)+

lemma procs_ok' [simp]:
  "procedure_ok expireCommand" "procedure_ok expireatCommand" "procedure_ok pexpireCommand" "procedure_ok pexpireatCommand"
  "procedure_ok selectCommand"
proof -
  show "procedure_ok expireCommand" "procedure_ok expireatCommand" "procedure_ok pexpireCommand" "procedure_ok pexpireatCommand"
    by (rule procedure_shapes[OF expire_family(1,2)]; simp)+
  show "procedure_ok selectCommand" by (simp add: procedure_ok_def selectCommand_world)
qed

lemma dataset_procs_ok: "(p, f) \<in> set (dataset_procs order) \<Longrightarrow> procedure_ok f"
proof -
  have "list_all procedure_ok (map snd (dataset_procs order))"
    by (simp add: dataset_procs_def signalling_procs_def silent_procs_def)
  then show "(p, f) \<in> set (dataset_procs order) \<Longrightarrow> procedure_ok f" by (auto simp: list_all_iff)
qed

end
