(* ===== verification/Exec.thy ===== *)
theory Exec
  imports Transactions
begin

text \<open>
  Running commands one after the other, of several clients, and \<open>EXEC\<close>: the interface of a table
  of procedures as a locale, what any such table gives, and its interpretation on the commands on
  keys and strings.
\<close>

section \<open>Commands in sequence\<close>

type_synonym event = "nat \<times> command \<times> string list"

definition deliver :: "procs \<Rightarrow> event \<Rightarrow> server \<Rightarrow> server" where
  \<comment> \<open>a request that has passed all checks of \<open>processCommand\<close>\<close>
  "deliver prc e s =
     (let (c, cmd, av) = e in call prc True c (upd_client c (\<lambda>x. x\<lparr>cargv := av, ccmd := cmd\<rparr>) s))"

definition procs_of :: "(string \<rightharpoonup> (nat \<Rightarrow> server \<Rightarrow> server)) \<Rightarrow> procs" where
  "procs_of m p = (case m p of Some f \<Rightarrow> f | None \<Rightarrow> (\<lambda>c s. s))"

definition inert :: "server \<Rightarrow> server \<Rightarrow> bool" where
  \<comment> \<open>what the execution of a command does around its procedure\<close>
  "inert s t \<longleftrightarrow> dbs t = dbs s \<and> clients t = clients s \<and> cluster_enabled t = cluster_enabled s \<and> aof_on t = aof_on s \<and>
     crashed t = crashed s \<and> slots_to_keys t = slots_to_keys s \<and>
     (\<forall>d. cdb (cl t d) = cdb (cl s d) \<and> wkeys (cl t d) = wkeys (cl s d) \<and> f_multi (cl t d) = f_multi (cl s d) \<and>
       mcommands (cl t d) = mcommands (cl s d) \<and> f_dirty_exec (cl t d) = f_dirty_exec (cl s d) \<and>
       f_dirty_cas (cl t d) = f_dirty_cas (cl s d))"

lemma inert_vals: "inert s t \<Longrightarrow> val_of t = val_of s" "inert s t \<Longrightarrow> exp_of t = exp_of s" "inert s t \<Longrightarrow> watchers t = watchers s"
  by (auto simp: inert_def val_of_def exp_of_def watchers_def fun_eq_iff)

lemma inert_world:
  assumes "inert s t"
  shows "world t = world s"
proof -
  have "watch_ok t = watch_ok s" by (rule watch_ok_fields) (use assms in \<open>auto simp: inert_def\<close>)
  moreover have "db_ok t = db_ok s" using inert_vals[OF assms] assms by (simp add: db_ok_def inert_def)
  ultimately show ?thesis using assms by (simp add: world_def okdb_def inert_def)
qed

lemma inert_heeds:
  assumes "inert s t"
  shows "heeds s t" "heeds x t = heeds x s"
  using inert_vals[OF assms] assms
  by (simp_all add: heeds_def only_def same_key_def gone_def flagged_def inert_def)

lemma inert_undisturbed: "inert s t \<Longrightarrow> undisturbed c t u = undisturbed c s u" "inert s t \<Longrightarrow> undisturbed c x t = undisturbed c x s"
  by (auto simp: undisturbed_def inert_def)

lemma inert_trans: "inert s t \<Longrightarrow> inert t u \<Longrightarrow> inert s u"
  by (simp add: inert_def)

lemma inert_steps:
  "inert s (replicationFeedMonitors j av s)" "inert s (propagate j av a r s)" "inert s (s\<lparr>stat_numcommands := n\<rparr>)"
  "inert s (upd_client c (\<lambda>x. x\<lparr>f_force_aof := a, f_force_repl := r\<rparr>) s)"
  "inert s (upd_client c (\<lambda>x. x\<lparr>cargv := av, ccmd := cmd\<rparr>) s)" "inert s s"
  by (simp_all add: inert_def replicationFeedMonitors_def propagate_def feedAppendOnlyFile_def replicationFeedSlaves_def Let_def)

lemma inert_propagate_call: "inert s (propagate_call c n s)"
  by (simp add: propagate_call_def Let_def inert_steps)

lemma call_shape: "\<exists>t. inert s t \<and> inert (prc (cmd_proc (ccmd (cl s c))) c t) (call prc b c s)"
proof -
  let ?cmd = "ccmd (cl s c)"
  let ?m = "if monitors s \<noteq> [] \<and> \<not> loading s \<and> \<not> (cmd_skip_monitor ?cmd \<or> cmd_admin ?cmd)
    then replicationFeedMonitors (cdb (cl s c)) (argv s c) s else s"
  let ?t = "upd_client c (\<lambda>x. x\<lparr>f_force_aof := False, f_force_repl := False\<rparr>) ?m"
  let ?u = "prc (cmd_proc ?cmd) c ?t"
  have t: "inert s ?t" using inert_trans[OF _ inert_steps(4)] inert_steps(1,6) by simp
  let ?ch = "if dirty ?u - dirty ?t < 0 then 0 else dirty ?u - dirty ?t"
  let ?v = "if b then propagate_call c ?ch ?u else ?u"
  let ?w = "upd_client c (\<lambda>x. x\<lparr>f_force_aof := f_force_aof (cl s c), f_force_repl := f_force_repl (cl s c)\<rparr>) ?v"
  have v: "inert ?u ?v" by (cases b) (simp_all only: if_True if_False inert_propagate_call inert_steps(6))
  have "call prc b c s = ?w\<lparr>stat_numcommands := stat_numcommands ?w + 1\<rparr>"
    unfolding call_def Let_def by (rule refl)
  moreover have "inert ?u (?w\<lparr>stat_numcommands := stat_numcommands ?w + 1\<rparr>)"
    by (rule inert_trans[OF inert_trans[OF v inert_steps(4)] inert_steps(3)])
  ultimately show ?thesis using t by metis
qed

section \<open>The interface of a table of procedures\<close>

locale procedures =
  fixes prc :: "string \<rightharpoonup> (nat \<Rightarrow> server \<Rightarrow> server)"
  assumes ok: "prc p = Some f \<Longrightarrow> procedure_ok f"
    and notices: "prc p = Some f \<Longrightarrow> world s \<Longrightarrow> heeds s (f c s)"
begin

lemma call_ok:
  assumes "world s" "prc (cmd_proc (ccmd (cl s c))) = Some f"
  shows "world (call (procs_of prc) b c s)" "heeds s (call (procs_of prc) b c s)"
    "undisturbed c s (call (procs_of prc) b c s)"
proof -
  let ?u = "call (procs_of prc) b c s"
  obtain t where t: "inert s t" "inert (f c t) ?u"
    using call_shape[of s "procs_of prc" c b] assms(2) by (auto simp: procs_of_def)
  have w: "world t" using inert_world[OF t(1)] assms(1) by simp
  have f: "world (f c t)" "undisturbed c t (f c t)" using ok[OF assms(2)] w by (auto simp: procedure_ok_def)
  show "world ?u" using f(1) inert_world[OF t(2)] by simp
  show "heeds s ?u"
    using heeds_trans[OF inert_heeds(1)[OF t(1)] notices[OF assms(2) w]] inert_heeds(2)[OF t(2)] by simp
  show "undisturbed c s ?u"
    using f(2) inert_undisturbed(1)[OF t(1)] inert_undisturbed(2)[OF t(2)] by simp
qed

lemma deliver_ok:
  assumes "world s" "prc (cmd_proc cmd) \<noteq> None"
  shows "world (deliver (procs_of prc) (c, cmd, av) s)" "heeds s (deliver (procs_of prc) (c, cmd, av) s)"
    "undisturbed c s (deliver (procs_of prc) (c, cmd, av) s)"
proof -
  let ?s = "upd_client c (\<lambda>x. x\<lparr>cargv := av, ccmd := cmd\<rparr>) s"
  have i: "inert s ?s" by (rule inert_steps)
  obtain f where f: "prc (cmd_proc (ccmd (cl ?s c))) = Some f" using assms(2) by auto
  note k = call_ok[OF _ f, where b = True]
  have w: "world ?s" using assms(1) inert_world[OF i] by simp
  show "world (deliver (procs_of prc) (c, cmd, av) s)" using k(1)[OF w] by (simp add: deliver_def)
  show "heeds s (deliver (procs_of prc) (c, cmd, av) s)"
    using heeds_trans[OF inert_heeds(1)[OF i] k(2)[OF w]] by (simp add: deliver_def)
  show "undisturbed c s (deliver (procs_of prc) (c, cmd, av) s)"
    using k(3)[OF w] inert_undisturbed(1)[OF i] by (simp add: deliver_def)
qed

lemma deliver_all:
  assumes "world s" "\<And>d cmd av. (d, cmd, av) \<in> set evs \<Longrightarrow> d \<noteq> c \<and> prc (cmd_proc cmd) \<noteq> None"
  shows "world (fold (deliver (procs_of prc)) evs s) \<and> heeds s (fold (deliver (procs_of prc)) evs s) \<and>
    f_multi (cl (fold (deliver (procs_of prc)) evs s) c) = f_multi (cl s c) \<and>
    wkeys (cl (fold (deliver (procs_of prc)) evs s) c) = wkeys (cl s c)"
  using assms
proof (induction evs arbitrary: s)
  case (Cons e evs)
  obtain d cmd av where e: "e = (d, cmd, av)" by (cases e)
  have p: "prc (cmd_proc cmd) \<noteq> None" using Cons.prems(2) e by auto
  note k = deliver_ok[OF Cons.prems(1) p, of d av]
  have "world (fold (deliver (procs_of prc)) evs (deliver (procs_of prc) e s)) \<and>
      heeds (deliver (procs_of prc) e s) (fold (deliver (procs_of prc)) evs (deliver (procs_of prc) e s)) \<and>
      f_multi (cl (fold (deliver (procs_of prc)) evs (deliver (procs_of prc) e s)) c) = f_multi (cl (deliver (procs_of prc) e s) c) \<and>
      wkeys (cl (fold (deliver (procs_of prc)) evs (deliver (procs_of prc) e s)) c) = wkeys (cl (deliver (procs_of prc) e s) c)"
    by (rule Cons.IH) (use k(1) e Cons.prems(2) in auto)
  then show ?case using k heeds_trans by (auto simp: e undisturbed_def)
qed simp

end

section \<open>The commands on keys and strings are such a table\<close>

definition noticed :: "(nat \<Rightarrow> server \<Rightarrow> server) \<Rightarrow> bool" where
  "noticed f \<longleftrightarrow> (\<forall>c s. world s \<longrightarrow> heeds s (f c s))"

lemma noticedI: "(\<And>c s. okdb s (cdb (cl s c)) \<Longrightarrow> good s (cdb (cl s c)) \<Longrightarrow> watch_ok s \<Longrightarrow> heeds s (f c s)) \<Longrightarrow> noticed f"
  by (simp add: noticed_def world_def)

lemma procs_noticed [simp]:
  "noticed getCommand" "noticed setCommand" "noticed setnxCommand" "noticed setexCommand" "noticed psetexCommand"
  "noticed appendCommand" "noticed strlenCommand" "noticed delCommand" "noticed existsCommand" "noticed setrangeCommand"
  "noticed getrangeCommand" "noticed incrCommand" "noticed decrCommand" "noticed mgetCommand" "noticed incrbyCommand"
  "noticed decrbyCommand" "noticed getsetCommand" "noticed msetCommand" "noticed msetnxCommand" "noticed selectCommand"
  "noticed renameCommand" "noticed renamenxCommand" "noticed expireCommand" "noticed expireatCommand" "noticed pexpireCommand"
  "noticed pexpireatCommand" "noticed dbsizeCommand" "noticed typeCommand" "noticed flushdbCommand" "noticed flushallCommand"
  "noticed ttlCommand" "noticed pttlCommand"
  "noticed (\<lambda>c s. keysCommand c (order c s) s)"
  by (rule noticedI; simp add: set_family_heeds getGenericCommand_heeds appendCommand_heeds string_reads_heed delCommand_heeds
      key_reads_heed setrangeCommand_heeds incr_family_heeds mgetCommand_heeds getsetCommand_heeds renames_ok
      selectCommand_heeds expire_family flushdbCommand_heeds flushallCommand_heeds)+

lemma signalling_procs_notice: "(p, f) \<in> set (signalling_procs order) \<Longrightarrow> noticed f"
proof -
  have "list_all noticed (map snd (signalling_procs order))" by (simp add: signalling_procs_def)
  then show "(p, f) \<in> set (signalling_procs order) \<Longrightarrow> noticed f" by (auto simp: list_all_iff)
qed

interpretation data: procedures "map_of (signalling_procs order)" for order
proof
  fix p f s c
  assume "map_of (signalling_procs order) p = Some f"
  then have f: "(p, f) \<in> set (signalling_procs order)" by (rule map_of_SomeD)
  then have "(p, f) \<in> set (dataset_procs order)" by (simp add: dataset_procs_def)
  then show "procedure_ok f" by (rule dataset_procs_ok)
  show "world s \<Longrightarrow> heeds s (f c s)" using signalling_procs_notice[OF f] by (simp add: noticed_def)
qed

section \<open>EXEC\<close>

lemma feed_exec_inert: "inert s (feed_exec_monitors c s)"
  by (simp add: feed_exec_monitors_def inert_steps)

lemma feed_exec_sel [simp]:
  "dirty (feed_exec_monitors c s) = dirty s" "aof_log (feed_exec_monitors c s) = aof_log s"
  "repl_log (feed_exec_monitors c s) = repl_log s" "creply (cl (feed_exec_monitors c s) d) = creply (cl s d)"
  "val_of (feed_exec_monitors c s) = val_of s" "exp_of (feed_exec_monitors c s) = exp_of s"
  "cl (feed_exec_monitors c s) = cl s" "crashed (feed_exec_monitors c s) = crashed s" "dbs (feed_exec_monitors c s) = dbs s"
  by (simp_all add: feed_exec_monitors_def replicationFeedMonitors_def val_of_def exp_of_def fun_eq_iff)

lemma creply_addReply: "creply (cl (addReply c r s) d) = (if d = c then creply (cl s c) @ [r] else creply (cl s d))"
  by (simp add: addReply_def)

lemma exec_refused:
  fixes prc c s j
  assumes "watch_ok s" "f_multi (cl s c)" "f_dirty_cas (cl s c) \<or> f_dirty_exec (cl s c)" "j < length (dbs s)"
  defines "t \<equiv> execCommand prc c s"
  shows "val_of t j = val_of s j" "exp_of t j = exp_of s j" "dirty t = dirty s" "aof_log t = aof_log s"
    "repl_log t = repl_log s" "crashed t = crashed s" "\<not> f_multi (cl t c)" "\<not> f_dirty_cas (cl t c)" "\<not> f_dirty_exec (cl t c)"
    "mcommands (cl t c) = []" "wkeys (cl t c) = []"
    "creply (cl t c) = creply (cl s c) @
      [if f_dirty_exec (cl s c) then RError ''EXECABORT Transaction discarded because of previous errors.'' else RNullMulti]"
proof -
  let ?r = "if f_dirty_exec (cl s c) then RError ''EXECABORT Transaction discarded because of previous errors.'' else RNullMulti"
  let ?a = "upd_client c (\<lambda>x. x\<lparr>f_multi := False, f_dirty_cas := False, f_dirty_exec := False\<rparr>)
      (initClientMultiState c (addReply c ?r s))"
  have t: "t = feed_exec_monitors c (unwatchAllKeys c ?a)"
    using assms(2,3) by (simp add: t_def execCommand_def discardTransaction_def Let_def)
  have w: "watch_ok ?a"
    using assms(1) watch_ok_ctx[OF ctx_reply(1), of c ?r s]
    by (subst watch_ok_fields[of _ "addReply c ?r s"]) (simp_all add: initClientMultiState_def)
  note u = unwatchAllKeys_unwatched[of c ?a] and f = unwatchAllKeys_fields[OF w, of c]
  have j: "j < length (dbs ?a)" using assms(4) by (simp add: initClientMultiState_def)
  show "val_of t j = val_of s j" "exp_of t j = exp_of s j"
    using unwatched_vals[OF u j] by (simp_all add: t initClientMultiState_def)
  show "dirty t = dirty s" "aof_log t = aof_log s" "repl_log t = repl_log s" "crashed t = crashed s"
    using unwatchedD[OF u] f(3) by (simp_all add: t initClientMultiState_def)
  show "\<not> f_multi (cl t c)" "\<not> f_dirty_cas (cl t c)" "\<not> f_dirty_exec (cl t c)" "mcommands (cl t c) = []" "wkeys (cl t c) = []"
    using unwatched_client[OF u, of c] f(2) by (simp_all add: t initClientMultiState_def)
  show "creply (cl t c) = creply (cl s c) @ [?r]"
    using unwatched_client(8)[OF u, of c] by (simp add: t initClientMultiState_def creply_addReply)
qed

section \<open>Properties\<close>

lemma start_world: "world start_server"
  by (auto simp: world_def db_ok_def watch_ok_def okdb_def start_server_def no_client_def empty_db_def val_of_def exp_of_def
      watchers_def)




definition watching_server :: server where
  \<comment> \<open>client 1 watches a key and is in a transaction\<close>
  "watching_server = upd_client 1 (\<lambda>x. x\<lparr>f_multi := True\<rparr>) (watchForKey 1 ''k'' start_server)"

lemma unwatched_db_ok:
  assumes "unwatched t = unwatched s" "crashed t = crashed s"
  shows "db_ok t = db_ok s"
proof -
  have l: "length (dbs t) = length (dbs s)" by (rule unwatchedD(1)[OF assms(1)])
  have v: "val_of t j = val_of s j" "exp_of t j = exp_of s j" if "j < length (dbs s)" for j
    using unwatched_vals[OF assms(1) that] by simp_all
  show ?thesis
    unfolding db_ok_def l unwatchedD(5,14)[OF assms(1)] assms(2)
    by (cases "0 < length (dbs s)") (simp_all add: v cong: conj_cong imp_cong)
qed

lemma watchForKey_world:
  assumes "world s" "c \<in> set (clients s)"
  shows "world (watchForKey c key s)"
proof -
  have j: "cdb (cl s c) < length (dbs s)" using assms(1) by (simp add: world_def)
  note u = watchForKey_unwatched[of c key s]
  have "okdb (watchForKey c key s) (cdb (cl (watchForKey c key s) d)) = okdb s (cdb (cl s d))" for d
    by (simp add: okdb_def unwatchedD[OF u] unwatched_client[OF u])
  then show ?thesis
    using assms watchForKey_ok[OF _ j assms(2)] unwatched_db_ok[OF u watchForKey_fields(3)[OF j]] by (simp add: world_def)
qed

lemma multi_world [simp]: "world (upd_client c (\<lambda>x. x\<lparr>f_multi := b\<rparr>) s) = world s"
proof -
  have "watch_ok (upd_client c (\<lambda>x. x\<lparr>f_multi := b\<rparr>) s) = watch_ok s" by (rule watch_ok_fields) auto
  then show ?thesis by (auto simp: world_def okdb_def)
qed

lemma watching_world: "world watching_server" "f_multi (cl watching_server 1)" "(0, ''k'') \<in> set (wkeys (cl watching_server 1))"
proof -
  have c: "1 \<in> set (clients start_server)" by (simp add: start_server_def)
  show "world watching_server" using watchForKey_world[OF start_world c] by (simp add: watching_server_def)
  show "f_multi (cl watching_server 1)" by (simp add: watching_server_def)
  show "(0, ''k'') \<in> set (wkeys (cl watching_server 1))"
    by (simp add: watching_server_def watchForKey_fields start_server_def no_client_def)
qed



definition moving_server :: server where
  "moving_server = upd_client 2 (\<lambda>x. x\<lparr>cargv := [''MOVE'', ''k'', ''1'']\<rparr>) (setKey 0 ''k'' (StrObj (SRaw ''v'')) start_server)"


end
