(* ===== verification/ListProps.thy ===== *)
theory ListProps
  imports BlockedInv Exec
begin

text \<open>
  Properties of the list commands, of the clients that wait for lists and of those that wait for
  replicas.
\<close>

section \<open>Keys without an expire\<close>

lemma lookup_no_expire:
  assumes "expires (the_db s j) key = None"
  shows "lookupKeyWrite j key s = (s, kv (the_db s j) key)"
    "lookupKeyRead j key s = (case kv (the_db s j) key of None \<Rightarrow> (s\<lparr>stat_misses := stat_misses s + 1\<rparr>, None)
       | Some v \<Rightarrow> (s\<lparr>stat_hits := stat_hits s + 1\<rparr>, Some v))"
proof -
  have "expireIfNeeded j key s = (s, False)" using assms by (simp add: expireIfNeeded_def getExpire_def)
  then show "lookupKeyWrite j key s = (s, kv (the_db s j) key)"
    "lookupKeyRead j key s = (case kv (the_db s j) key of None \<Rightarrow> (s\<lparr>stat_misses := stat_misses s + 1\<rparr>, None)
       | Some v \<Rightarrow> (s\<lparr>stat_hits := stat_hits s + 1\<rparr>, Some v))"
    by (simp_all add: lookupKeyWrite_def lookupKeyRead_def lookupKey_def)
qed

section \<open>Clients that wait for lists\<close>

definition waiting_server :: server where
  \<comment> \<open>two clients wait with \<open>BLPOP\<close> for a list of three elements\<close>
  "waiting_server = start_server\<lparr>
     dbs := empty_db\<lparr>kv := [''k'' \<mapsto> ListObj ZIPLIST [''a'', ''b'', ''c'']], blocking_keys := [''k'' \<mapsto> [2, 1]]\<rparr> # replicate 15 empty_db,
     cl := (\<lambda>c. if c = 1 \<or> c = 2 then no_client\<lparr>btype := REDIS_BLOCKED_LIST, f_blocked := True, bpop_keys := [''k''],
         lastcmd := Some (no_flags_command ''blpop'' ''blpopCommand'' (-3) None 1 (-2) 1)\<rparr> else no_client),
     ready_keys := [(0, ''k'')]\<rparr>"

lemma waiting_server_dbs:
  "length (dbs waiting_server) = 16"
  "j < 16 \<Longrightarrow> the_db waiting_server j = (if j = 0 then empty_db\<lparr>kv := [''k'' \<mapsto> ListObj ZIPLIST [''a'', ''b'', ''c'']],
     blocking_keys := [''k'' \<mapsto> [2, 1]]\<rparr> else empty_db)"
  "bpop_keys (cl waiting_server c) = (if c = 1 \<or> c = 2 then [''k''] else [])" "cdb (cl waiting_server c) = 0"
  by (simp_all add: waiting_server_def nth_Cons no_client_def split: nat.split)

lemma waiting_server_ok: "blocked_ok waiting_server" "db_ok waiting_server" "okdb waiting_server 0"
proof -
  show "blocked_ok waiting_server" unfolding blocked_ok_def waiting_def waiting_server_dbs(1)
  proof (intro conjI allI impI)
    fix j key assume "j < (16::nat)"
    then show "blocking_keys (the_db waiting_server j) key \<noteq> Some []"
      "distinct (case blocking_keys (the_db waiting_server j) key of None \<Rightarrow> [] | Some l \<Rightarrow> l)"
      "(c \<in> set (case blocking_keys (the_db waiting_server j) key of None \<Rightarrow> [] | Some l \<Rightarrow> l)) =
       (cdb (cl waiting_server c) = j \<and> key \<in> set (bpop_keys (cl waiting_server c)))" for c
      by (auto simp: waiting_server_dbs empty_db_def)
  qed (auto simp: waiting_server_def no_client_def start_server_def split: if_splits)
  have v: "val_of waiting_server j = (if j = 0 then [''k'' \<mapsto> ListObj ZIPLIST [''a'', ''b'', ''c'']] else Map.empty)"
    "exp_of waiting_server j = Map.empty" if "j < 16" for j
    using that by (simp_all add: val_of_def exp_of_def waiting_server_dbs empty_db_def)
  have "\<not> crashed waiting_server" "\<not> cluster_enabled waiting_server" by (simp_all add: waiting_server_def start_server_def)
  moreover have "dom (exp_of waiting_server j) \<subseteq> dom (val_of waiting_server j) \<and> (\<forall>v \<in> ran (val_of waiting_server j). obj_ok v)"
    if "j < 16" for j
    unfolding v[OF that] by (cases "j = 0") simp_all
  ultimately show "db_ok waiting_server" unfolding db_ok_def waiting_server_dbs(1) by (intro conjI) (blast | simp)+
  show "okdb waiting_server 0" by (simp add: okdb_def waiting_server_dbs)
qed

text \<open>
  C7: A client that waits for a list is served in turn. When a list is ready for clients that wait with
  \<open>BLPOP\<close>, the first of them get the elements from the head, one each, in the order in which they
  blocked; the served clients leave the queue and are queued for their pending requests; nobody else is
  touched; the key is deleted if no element is left.\<close>

theorem blpop_fifo:
  fixes s j key
  assumes "blocked_ok s" "db_ok s" "okdb s j" "val_of s j key = Some (ListObj enc xs)" "exp_of s j key = None"
    and "\<And>c. c \<in> set (waiting s j key) \<Longrightarrow> bpop_target (cl s c) = None \<and> blocked_where (cl s c) = REDIS_HEAD"
  defines "t \<equiv> serve_key (j, key) s" and "n \<equiv> min (length (waiting s j key)) (length xs)"
  shows "val_of t j key = (if n = length xs then None else Some (ListObj enc (drop n xs))) \<and>
    waiting t j key = drop n (waiting s j key) \<and>
    unblocked_clients t = unblocked_clients s @ take n (waiting s j key) \<and>
    (\<forall>i < n. creply (cl t (waiting s j key ! i)) = creply (cl s (waiting s j key ! i)) @ [RMulti 2, RBulk key, RBulk (xs ! i)]) \<and>
    (\<forall>d. d \<notin> set (take n (waiting s j key)) \<longrightarrow> cl t d = cl s d) \<and> blocked_ok t \<and> \<not> crashed t"
proof -
  have j: "j < length (dbs s)" using assms(3) by simp
  let ?s = "upd_db j (\<lambda>d. d\<lparr>db_ready_keys := db_ready_keys d - {key}\<rparr>) s"
  have c: "ctx ?s = ctx s" by simp
  have s: "blocked_ok ?s" "waiting ?s j key = waiting s j key" "kv (the_db ?s j) key = Some (ListObj enc xs)"
    "expires (the_db ?s j) key = None" "cl ?s = cl s" "crashed ?s = crashed s"
    "unblocked_clients ?s = unblocked_clients s"
    using assms(1,4,5) j blocked_ok_ctx[OF c] waiting_ctx[OF c j] by (simp_all add: val_of_def exp_of_def) (simp add: upd_db_def)
  define u where "u = serve_clients (length (waiting ?s j key)) j key ?s"
  have f: "blocked_ok u \<and> crashed u = crashed ?s \<and> kv (the_db u j) key = Some (ListObj enc (drop (length (waiting s j key)) xs)) \<and>
    waiting u j key = drop n (waiting s j key) \<and> unblocked_clients u = unblocked_clients ?s @ take n (waiting s j key) \<and>
    (\<forall>i < n. creply (cl u (waiting s j key ! i)) = creply (cl ?s (waiting s j key ! i)) @ [RMulti 2, RBulk key, RBulk (xs ! i)]) \<and>
    (\<forall>d. d \<notin> set (take n (waiting s j key)) \<longrightarrow> cl u d = cl ?s d)"
    using serve_fifo[OF s(1) _ order_refl s(3), of] j assms(6) unfolding s(2,5) u_def n_def by simp
  have e: "(case blocking_keys (the_db ?s j) key of Some l \<Rightarrow> serve_clients (length l) j key ?s | None \<Rightarrow> ?s) = u"
    by (simp add: u_def waiting_def split: option.split)
  have t: "t = (if list_length j key u = 0 then fst (dbDelete j key u) else u)"
    unfolding t_def serve_key_def Let_def prod.case lookup_no_expire(1)[OF s(4)] s(3) option.case robj.case e by simp
  have ju: "j < length (dbs u)"
    using serve_clients_served[OF s(1), of j "length (waiting ?s j key)" key] j by (simp add: served_def u_def)
  have ll: "list_length j key u = length xs - length (waiting s j key)" using f by (simp add: list_length_def)
  have dn: "drop (length (waiting s j key)) xs = drop n xs" "list_length j key u = 0 \<longleftrightarrow> n = length xs"
    by (auto simp: n_def ll min_def)
  have x: "unblocked_clients (fst (dbDelete j key u)) = unblocked_clients u"
    by (simp add: dbDelete_def Let_def slotToKeyDel_def) (simp add: upd_db_def)
  have d: "cl (fst (dbDelete j key u)) = cl u" "crashed (fst (dbDelete j key u)) = crashed u"
    "waiting (fst (dbDelete j key u)) j key = waiting u j key" "blocked_ok (fst (dbDelete j key u)) = blocked_ok u"
    using waiting_ctx[OF dbDelete_sel(1) ju] blocked_ok_ctx[OF dbDelete_sel(1)] by simp_all
  have "\<not> crashed s" using assms(2) by simp
  moreover have "val_of t j key = (if n = length xs then None else Some (ListObj enc (drop n xs)))"
    using f ju dn by (simp add: t) (simp add: val_of_def)
  ultimately show ?thesis using f d x s by (simp add: t)
qed

theorem blpop_fifo_witness:
  "waiting (serve_key (0, ''k'') waiting_server) 0 ''k'' = [] \<and>
   creply (cl (serve_key (0, ''k'') waiting_server) 2) = [RMulti 2, RBulk ''k'', RBulk ''a''] \<and>
   creply (cl (serve_key (0, ''k'') waiting_server) 1) = [RMulti 2, RBulk ''k'', RBulk ''b''] \<and>
   val_of (serve_key (0, ''k'') waiting_server) 0 ''k'' = Some (ListObj ZIPLIST [''c''])"
proof -
  have w: "waiting waiting_server 0 ''k'' = [2, 1]" by (simp add: waiting_def waiting_server_dbs)
  have s: "val_of waiting_server 0 ''k'' = Some (ListObj ZIPLIST [''a'', ''b'', ''c''])" "exp_of waiting_server 0 ''k'' = None"
    "creply (cl waiting_server c) = []"
    "c \<in> set (waiting waiting_server 0 ''k'') \<Longrightarrow> bpop_target (cl waiting_server c) = None \<and> blocked_where (cl waiting_server c) = REDIS_HEAD" for c
    by (simp_all add: val_of_def exp_of_def waiting_server_dbs empty_db_def w)
      (auto simp: waiting_server_def no_client_def blocked_where_def no_flags_command_def)
  note p = blpop_fifo[OF waiting_server_ok s(1,2,4)]
  show ?thesis
    using p by (auto simp: w s(3) All_less_Suc numeral_2_eq_2)
qed

text \<open>
  C8: The loop that serves blocked clients ends, and leaves no key marked as ready: each round but
  the last unblocks a client, so its rounds are bounded by the number of clients that wait for lists.\<close>

theorem blocked_serving_ends:
  "blocked_ok s \<Longrightarrow> ready_ok s \<Longrightarrow> card (blocked_set s) < n \<Longrightarrow>
   \<exists>t. handleClientsBlockedOnLists n s = Some t \<and> ready_keys t = [] \<and> blocked_ok t \<and> blocked_set t \<subseteq> blocked_set s"
  by (rule handle_ends)

theorem blocked_serving_ends_witness:
  "\<exists>t. handleClientsBlockedOnLists 3 waiting_server = Some t \<and> ready_keys t = []"
proof -
  have "blocked_set waiting_server = {1, 2}"
    by (auto simp: blocked_set_def waiting_server_dbs) (simp_all add: waiting_server_def start_server_def)
  moreover have "ready_ok waiting_server" by (simp add: ready_ok_def waiting_server_dbs) (simp add: waiting_server_def)
  ultimately show ?thesis using blocked_serving_ends[OF waiting_server_ok(1), of 3] by auto
qed

section \<open>Waiting for replicas\<close>

definition acked :: "server \<Rightarrow> nat \<Rightarrow> bool" where
  \<comment> \<open>enough replicas have acknowledged what a client waits for\<close>
  "acked s c \<longleftrightarrow> bpop_numreplicas (cl s c) \<le> replicationCountAcksByOffset (bpop_reploffset (cl s c)) s"

lemma acks_antimono: "a \<le> b \<Longrightarrow> replicationCountAcksByOffset b s \<le> replicationCountAcksByOffset a s"
proof -
  assume "a \<le> b"
  then have "length (filter (\<lambda>c. slave_online (cl s c) \<and> b \<le> repl_ack_off (cl s c)) l)
      \<le> length (filter (\<lambda>c. slave_online (cl s c) \<and> a \<le> repl_ack_off (cl s c)) l)" for l
    by (induction l) auto
  then show ?thesis by (simp add: replicationCountAcksByOffset_def)
qed

lemma release_fields:
  fixes s c r
  assumes "btype (cl s c) = REDIS_BLOCKED_WAIT" "c \<in> set (clients_waiting_acks s)"
  defines "t \<equiv> addReply c r (unblockClient c s)"
  shows "clients_waiting_acks t = remove1 c (clients_waiting_acks s)" "unblocked_clients t = unblocked_clients s @ [c]"
    "crashed t = crashed s" "d \<noteq> c \<Longrightarrow> cl t d = cl s d" "creply (cl t c) = creply (cl s c) @ [r]"
    "replicationCountAcksByOffset off t = replicationCountAcksByOffset off s" "dbs t = dbs s"
proof -
  have u: "unblockClient c s = (upd_client c (\<lambda>x. x\<lparr>f_blocked := False, f_unblocked := True, btype := REDIS_BLOCKED_NONE\<rparr>)
      (s\<lparr>clients_waiting_acks := remove1 c (clients_waiting_acks s)\<rparr>))\<lparr>bpop_blocked_clients := bpop_blocked_clients s - 1,
      unblocked_clients := unblocked_clients s @ [c]\<rparr>"
    using assms(1,2) by (simp add: unblockClient_def unblockClientWaitingReplicas_def Let_def upd_client_def)
  show "clients_waiting_acks t = remove1 c (clients_waiting_acks s)" "unblocked_clients t = unblocked_clients s @ [c]"
    "crashed t = crashed s" "d \<noteq> c \<Longrightarrow> cl t d = cl s d" "creply (cl t c) = creply (cl s c) @ [r]" "dbs t = dbs s"
    by (simp_all add: t_def u addReply_def upd_client_def)
  show "replicationCountAcksByOffset off t = replicationCountAcksByOffset off s"
    by (simp add: t_def u addReply_def upd_client_def replicationCountAcksByOffset_def) (rule arg_cong[where f = length], rule filter_cong, auto)
qed

lemma fold_remove1: "distinct ws \<Longrightarrow> fold remove1 xs ws = filter (\<lambda>d. d \<notin> set xs) ws"
proof (induction xs arbitrary: ws)
  case (Cons x xs)
  have "remove1 x ws = filter (\<lambda>d. d \<noteq> x) ws"
    using Cons.prems by (auto simp: distinct_remove1_removeAll removeAll_filter_not_eq intro!: filter_cong)
  then show ?case using Cons by simp
qed simp

lemma process_waiting_spec:
  assumes "distinct ws" "\<And>c. c \<in> set ws \<Longrightarrow> btype (cl s c) = REDIS_BLOCKED_WAIT \<and> c \<in> set (clients_waiting_acks s)"
    and "lo \<noteq> 0 \<Longrightarrow> ln \<le> replicationCountAcksByOffset lo s"
  shows "clients_waiting_acks (process_waiting ws lo ln s) =
      fold remove1 (filter (acked s) ws) (clients_waiting_acks s) \<and>
    unblocked_clients (process_waiting ws lo ln s) = unblocked_clients s @ filter (acked s) ws \<and>
    crashed (process_waiting ws lo ln s) = crashed s \<and>
    (\<forall>c. c \<notin> set (filter (acked s) ws) \<longrightarrow> cl (process_waiting ws lo ln s) c = cl s c) \<and>
    (\<forall>c \<in> set (filter (acked s) ws). \<exists>n. creply (cl (process_waiting ws lo ln s) c) = creply (cl s c) @ [RInt n] \<and>
       bpop_numreplicas (cl s c) \<le> n \<and> n \<le> replicationCountAcksByOffset (bpop_reploffset (cl s c)) s)"
  using assms
proof (induction ws arbitrary: s lo ln)
  case (Cons c ws)
  have c: "btype (cl s c) = REDIS_BLOCKED_WAIT" "c \<in> set (clients_waiting_acks s)" using Cons.prems(2)[of c] by auto
  let ?off = "bpop_reploffset (cl s c)" and ?num = "bpop_numreplicas (cl s c)"
  show ?case
  proof (cases "acked s c")
    case False
    have "\<not> (lo \<noteq> 0 \<and> lo > ?off \<and> ln > ?num)"
      using False Cons.prems(3) acks_antimono[of ?off lo s] by (auto simp: acked_def)
    then have e: "process_waiting (c # ws) lo ln s = process_waiting ws lo ln s"
      using False by (auto simp: acked_def Let_def)
    show ?thesis unfolding e using Cons.IH[of s lo ln] Cons.prems False by simp
  next
    case True
    obtain n lo' ln' where e: "process_waiting (c # ws) lo ln s = process_waiting ws lo' ln' (addReply c (RInt n) (unblockClient c s))"
      and n: "?num \<le> n" "n \<le> replicationCountAcksByOffset ?off s" "lo' \<noteq> 0 \<Longrightarrow> ln' \<le> replicationCountAcksByOffset lo' s"
    proof (cases "lo \<noteq> 0 \<and> lo > ?off \<and> ln > ?num")
      case fast: True
      then have "ln \<le> replicationCountAcksByOffset ?off s" using Cons.prems(3) acks_antimono[of ?off lo s] by simp
      then show thesis using that[of lo ln ln] fast Cons.prems(3) by simp
    next
      case False
      then show thesis using that[of ?off "replicationCountAcksByOffset ?off s" "replicationCountAcksByOffset ?off s"] True
        by (auto simp: acked_def Let_def)
    qed
    define t where "t = addReply c (RInt n) (unblockClient c s)"
    note r = release_fields[OF c, where r = "RInt n", folded t_def]
    have cw: "c \<notin> set ws" "distinct ws" using Cons.prems(1) by auto
    have same: "cl t d = cl s d" if "d \<noteq> c" for d using r(4)[OF that] .
    have ak: "filter (acked t) ws = filter (acked s) ws"
    proof (rule filter_cong[OF refl])
      fix d assume "d \<in> set ws"
      then have "cl t d = cl s d" using cw same[of d] by (cases "d = c") auto
      then show "acked t d = acked s d" by (simp add: acked_def r(6))
    qed
    have p: "btype (cl t d) = REDIS_BLOCKED_WAIT \<and> d \<in> set (clients_waiting_acks t)" if "d \<in> set ws" for d
      using that Cons.prems(2)[of d] cw same[of d] by (cases "d = c") (auto simp: r(1) in_set_remove1)
    have q: "lo' \<noteq> 0 \<Longrightarrow> ln' \<le> replicationCountAcksByOffset lo' t" using n(3) by (simp add: r(6))
    note ih = Cons.IH[OF cw(2) p q]
    have "cl (process_waiting ws lo' ln' t) c = cl t c" using ih cw(1) by auto
    moreover have "\<exists>n. creply (cl (process_waiting ws lo' ln' t) d) = creply (cl s d) @ [RInt n] \<and>
        bpop_numreplicas (cl s d) \<le> n \<and> n \<le> replicationCountAcksByOffset (bpop_reploffset (cl s d)) s"
      if "d \<in> set (filter (acked s) ws)" for d
    proof -
      have "d \<noteq> c" using that cw(1) by auto
      then have "cl t d = cl s d" by (rule same)
      moreover have "\<exists>n. creply (cl (process_waiting ws lo' ln' t) d) = creply (cl t d) @ [RInt n] \<and>
          bpop_numreplicas (cl t d) \<le> n \<and> n \<le> replicationCountAcksByOffset (bpop_reploffset (cl t d)) t"
        using ih that unfolding ak by blast
      ultimately show ?thesis by (simp add: r(6))
    qed
    ultimately show ?thesis
      unfolding e t_def[symmetric] using ih True n(1,2) r same by (auto simp: ak)
  qed
qed simp

text \<open>
  C18: \<open>processClientsWaitingReplicas\<close> does what the plain check of each waiting client would do,
  although it skips the counting of the acknowledgements when a previous client has been
  satisfied: exactly the clients with enough acknowledgements are released, in the order in which they wait, and each
  is told a number of replicas between the one that it asked for and the one that have acknowledged.\<close>

theorem wait_released_exactly:
  fixes s
  assumes "distinct (clients_waiting_acks s)" "\<And>c. c \<in> set (clients_waiting_acks s) \<Longrightarrow> btype (cl s c) = REDIS_BLOCKED_WAIT"
  defines "t \<equiv> processClientsWaitingReplicas s" and "out \<equiv> filter (acked s) (clients_waiting_acks s)"
  shows "clients_waiting_acks t = filter (\<lambda>c. \<not> acked s c) (clients_waiting_acks s) \<and>
    unblocked_clients t = unblocked_clients s @ out \<and> crashed t = crashed s \<and>
    (\<forall>c. c \<notin> set out \<longrightarrow> cl t c = cl s c) \<and>
    (\<forall>c \<in> set out. \<exists>n. creply (cl t c) = creply (cl s c) @ [RInt n] \<and>
       bpop_numreplicas (cl s c) \<le> n \<and> n \<le> replicationCountAcksByOffset (bpop_reploffset (cl s c)) s)"
proof -
  have "fold remove1 out (clients_waiting_acks s) = filter (\<lambda>c. \<not> acked s c) (clients_waiting_acks s)"
    unfolding fold_remove1[OF assms(1)] out_def by (rule filter_cong) auto
  moreover have "btype (cl s c) = REDIS_BLOCKED_WAIT \<and> c \<in> set (clients_waiting_acks s)"
    if "c \<in> set (clients_waiting_acks s)" for c
    using assms(2) that by blast
  from process_waiting_spec[OF assms(1) this, where lo = 0 and ln = 0, folded out_def processClientsWaitingReplicas_def t_def]
  have "clients_waiting_acks t = fold remove1 out (clients_waiting_acks s) \<and>
    unblocked_clients t = unblocked_clients s @ out \<and> crashed t = crashed s \<and>
    (\<forall>c. c \<notin> set out \<longrightarrow> cl t c = cl s c) \<and>
    (\<forall>c \<in> set out. \<exists>n. creply (cl t c) = creply (cl s c) @ [RInt n] \<and>
       bpop_numreplicas (cl s c) \<le> n \<and> n \<le> replicationCountAcksByOffset (bpop_reploffset (cl s c)) s)"
    by blast
  ultimately show ?thesis by simp
qed

definition replicas_server :: server where
  \<comment> \<open>one replica has acknowledged 10 bytes; two clients wait for it, at offsets 5 and 20\<close>
  "replicas_server = start_server\<lparr>slaves := [0], clients_waiting_acks := [1, 2],
     cl := (\<lambda>c. if c = 0 then no_client\<lparr>slave_online := True, repl_ack_off := 10\<rparr>
       else no_client\<lparr>btype := REDIS_BLOCKED_WAIT, bpop_numreplicas := 1, bpop_reploffset := if c = 1 then 5 else 20\<rparr>)\<rparr>"

theorem wait_released_exactly_witness:
  "clients_waiting_acks (processClientsWaitingReplicas replicas_server) = [2] \<and>
   unblocked_clients (processClientsWaitingReplicas replicas_server) = [1]"
proof -
  have w: "clients_waiting_acks replicas_server = [1, 2]" "unblocked_clients replicas_server = []"
    by (simp_all add: replicas_server_def start_server_def)
  have b: "btype (cl replicas_server c) = REDIS_BLOCKED_WAIT" if "c \<in> set (clients_waiting_acks replicas_server)" for c
    using that unfolding w by (auto simp: replicas_server_def)
  have a: "acked replicas_server 1" "\<not> acked replicas_server 2"
    by (simp_all add: acked_def replicationCountAcksByOffset_def replicas_server_def no_client_def)
  show ?thesis
    using wait_released_exactly[OF _ b] a by (simp_all add: w)
qed

section \<open>Ranges of lists\<close>

lemma strtoll_in_ll: "strtoll a = (v, r, e) \<Longrightarrow> in_ll v"
  by (auto simp: strtoll_def Let_def split: if_splits)

lemma getLongLong_in_ll: "getLongLongFromSds a = Some v \<Longrightarrow> in_ll v"
  using strtoll_in_ll by (auto simp: getLongLongFromSds_def Let_def split: if_splits prod.splits)

lemma nths_cong_len:
  assumes "\<And>n. n < length xs \<Longrightarrow> n \<in> A \<longleftrightarrow> n \<in> B"
  shows "nths xs A = nths xs B"
proof -
  have "filter (\<lambda>p. snd p \<in> A) (zip xs [0..<length xs]) = filter (\<lambda>p. snd p \<in> B) (zip xs [0..<length xs])"
    using assms by (intro filter_cong) (auto simp: set_zip)
  then show ?thesis by (simp add: nths_def)
qed

lemma nths_interval: "nths xs {a..<a + m} = take m (drop a xs)"
proof -
  have "(+) a ` {..<m} = {a..<a + m}" by (simp add: add.commute flip: atLeast0LessThan)
  then show ?thesis using nths_drop[of a xs "{..<m}"] by simp
qed

definition from_tail :: "int \<Rightarrow> nat \<Rightarrow> int" where
  \<comment> \<open>an index counted from the tail when it is negative\<close>
  "from_tail i n = (if i < 0 then int n + i else i)"

definition list_slice :: "int \<Rightarrow> int \<Rightarrow> 'a list \<Rightarrow> 'a list" where
  \<comment> \<open>the elements between two such indexes, both included\<close>
  "list_slice i k xs = nths xs {n. from_tail i (length xs) \<le> int n \<and> int n \<le> from_tail k (length xs)}"

lemma list_bounds_slice:
  assumes "in_ll i" "in_ll k" "int (length xs) \<le> LLONG_MAX"
  shows "(case list_bounds i k (int (length xs)) of
      None \<Rightarrow> list_slice i k xs = []
    | Some (from, till) \<Rightarrow> 0 \<le> from \<and> from \<le> till \<and> till < int (length xs) \<and>
        list_slice i k xs = take (nat (till - from + 1)) (drop (nat from) xs))"
proof -
  let ?n = "int (length xs)"
  let ?a = "from_tail i (length xs)" and ?b = "from_tail k (length xs)"
  have w: "(if i < 0 then s64 (?n + i) else i) = ?a" "(if k < 0 then s64 (?n + k) else k) = ?b"
    using assms by (auto simp: from_tail_def s64_id)
  let ?from = "if ?a < 0 then 0 else ?a" and ?till = "if ?b \<ge> ?n then ?n - 1 else ?b"
  have e: "list_bounds i k ?n = (if ?from > ?b \<or> ?from \<ge> ?n then None else Some (?from, ?till))"
    unfolding list_bounds_def Let_def w by simp
  show ?thesis
  proof (cases "?from > ?b \<or> ?from \<ge> ?n")
    case True
    then have "list_slice i k xs = nths xs {}" unfolding list_slice_def by (intro nths_cong_len) (auto split: if_splits)
    then show ?thesis using True by (simp add: e)
  next
    case False
    have "list_slice i k xs = nths xs {nat ?from..<nat ?from + nat (?till - ?from + 1)}"
      unfolding list_slice_def by (intro nths_cong_len) (use False in \<open>auto split: if_splits\<close>)
    then have "list_slice i k xs = take (nat (?till - ?from + 1)) (drop (nat ?from) xs)" by (simp add: nths_interval)
    then show ?thesis using False by (auto simp: e)
  qed
qed

lemma getLongReply [simp]: "getLongLongFromSds a = Some v \<Longrightarrow> getLongFromSdsOrReply c a m s = (s, Some v)"
  using getLongLong_in_ll[of a v] by (simp add: getLongFromSdsOrReply_def getLongLongFromSdsOrReply_def not_less)

lemma lookupReply_no_expire:
  assumes "expires (the_db s (cdb (cl s c))) key = None" "kv (the_db s (cdb (cl s c))) key = Some v"
  shows "lookupKeyWriteOrReply c key r s = (s, Some v)"
    "lookupKeyReadOrReply c key r s = (s\<lparr>stat_hits := stat_hits s + 1\<rparr>, Some v)"
  using assms by (simp_all add: lookupKeyWriteOrReply_def lookupKeyReadOrReply_def lookup_no_expire)

text \<open>
  C17: \<open>LTRIM\<close> keeps exactly the elements that \<open>LRANGE\<close> with the same indexes replies: those between two
  indexes, both included, where negative ones count from the tail and those out of range are cut. The key
  is deleted when nothing is kept.\<close>

theorem ltrim_keeps_lrange:
  fixes s c cmd
  assumes "argv s c = [cmd, key, a, b]" "getLongLongFromSds a = Some i" "getLongLongFromSds b = Some k"
    and "j = cdb (cl s c)" "j < length (dbs s)" "val_of s j key = Some (ListObj enc xs)" "exp_of s j key = None"
    and "int (length xs) \<le> LLONG_MAX"
  shows "creply (cl (lrangeCommand c s) c) =
      creply (cl s c) @ RMulti (int (length (list_slice i k xs))) # map RBulk (list_slice i k xs) \<and>
    val_of (ltrimCommand c s) j key = (if list_slice i k xs = [] then None else Some (ListObj enc (list_slice i k xs)))"
proof -
  have kv: "kv (the_db s (cdb (cl s c))) key = Some (ListObj enc xs)" "expires (the_db s (cdb (cl s c))) key = None"
    using assms(4,6,7) by (simp_all add: val_of_def exp_of_def)
  note l = lookupReply_no_expire[OF kv(2,1)]
  note b = list_bounds_slice[OF getLongLong_in_ll[OF assms(2)] getLongLong_in_ll[OF assms(3)] assms(8)]
  have r: "creply (cl (s\<lparr>stat_hits := h\<rparr>) c) = creply (cl s c)" for h by simp
  show ?thesis
  proof (cases "list_bounds i k (int (length xs))")
    case None
    then have n: "list_slice i k xs = []" using b by simp
    have "creply (cl (lrangeCommand c s) c) = creply (cl s c) @ [RMulti 0]"
      using None assms(1,2,3) by (simp add: lrangeCommand_def l addReply_def)
    moreover have "val_of (ltrimCommand c s) j key = None"
      using None assms by (simp add: ltrimCommand_def l Let_def signalModifiedKey_def)
    ultimately show ?thesis using n by simp
  next
    case (Some ft)
    obtain lo hi where ft: "ft = (lo, hi)" by (cases ft)
    have p: "0 \<le> lo" "lo \<le> hi" "hi < int (length xs)"
      "list_slice i k xs = take (nat (hi - lo + 1)) (drop (nat lo) xs)"
      using b Some ft by simp_all
    have len: "length (list_slice i k xs) = nat (hi - lo + 1)" using p by simp
    have "creply (cl (lrangeCommand c s) c) = creply (cl s c) @ RMulti (hi - lo + 1) # map RBulk (list_slice i k xs)"
      using Some assms(1,2,3) p by (simp add: lrangeCommand_def l ft Let_def addReplies_creply)
    moreover have "length xs - nat lo - nat (int (length xs) - hi - 1) = nat (hi - lo + 1)" using p by linarith
    then have "val_of (ltrimCommand c s) j key = Some (ListObj enc (list_slice i k xs))"
      using Some assms p len by (auto simp: ltrimCommand_def l ft Let_def signalModifiedKey_def)
    ultimately show ?thesis using len p(1,2) by auto
  qed
qed

theorem ltrim_keeps_lrange_witness:
  "val_of (ltrimCommand 0 (upd_client 0 (\<lambda>x. x\<lparr>cargv := [''LTRIM'', ''k'', ''-2'', ''10'']\<rparr>) waiting_server)) 0 ''k'' =
     Some (ListObj ZIPLIST [''b'', ''c''])"
proof -
  let ?s = "upd_client 0 (\<lambda>x. x\<lparr>cargv := [''LTRIM'', ''k'', ''-2'', ''10'']\<rparr>) waiting_server"
  have a: "getLongLongFromSds ''-2'' = Some (-2)" "getLongLongFromSds ''10'' = Some 10" by code_simp+
  have s: "argv ?s 0 = [''LTRIM'', ''k'', ''-2'', ''10'']" "0 = cdb (cl ?s 0)" "0 < length (dbs ?s)"
    "val_of ?s 0 ''k'' = Some (ListObj ZIPLIST [''a'', ''b'', ''c''])" "exp_of ?s 0 ''k'' = None"
    by (simp_all add: waiting_server_dbs) (simp_all add: val_of_def exp_of_def waiting_server_dbs empty_db_def)
  have l: "list_slice (-2) 10 [''a'', ''b'', ''c''] = [''b'', ''c'']"
    by (simp add: list_slice_def from_tail_def nths_Cons)
  show ?thesis using ltrim_keeps_lrange[OF s(1) a s(2-5)] by (simp add: l)
qed

section \<open>Moving an element between lists\<close>

definition list_at :: "server \<Rightarrow> nat \<Rightarrow> string \<Rightarrow> string list" where
  \<comment> \<open>the elements of a list; a key that does not exist is an empty list\<close>
  "list_at s j key = (case val_of s j key of Some (ListObj _ xs) \<Rightarrow> xs | _ \<Rightarrow> [])"

lemma notify_off [simp]: "notify_keyspace_events s = 0 \<Longrightarrow> notifyKeyspaceEvent cls ev key j s = s"
  by (simp add: notifyKeyspaceEvent_def)

lemma handlePush_val:
  assumes "cdb (cl s c) = j" "j < length (dbs s)" "dobj = None \<longleftrightarrow> val_of s j dst = None"
    "\<And>v. val_of s j dst = Some v \<Longrightarrow> is_list v"
  shows "\<exists>enc. val_of (rpoplpushHandlePush c dst dobj v s) j = (val_of s j)(dst \<mapsto> ListObj enc (str_bytes v # list_at s j dst))"
    "notify_keyspace_events s = 0 \<Longrightarrow>
      creply (cl (rpoplpushHandlePush c dst dobj v s) c) = creply (cl s c) @ [RBulk (str_bytes v)]"
proof -
  define t where "t = touchWatchedKey j dst (if dobj = None then dbAdd j dst (ListObj ZIPLIST []) s else s)"
  have t: "ctx t = ctx s" "j < length (dbs t)" "creply (cl t c) = creply (cl s c)"
    "notify_keyspace_events t = notify_keyspace_events s" using assms(2) by (simp_all add: t_def)
  obtain enc where l: "val_of t j dst = Some (ListObj enc (list_at s j dst))"
    "val_of t j = (val_of s j)(dst \<mapsto> ListObj enc (list_at s j dst))"
  proof (cases "val_of s j dst")
    case None
    then show thesis using that assms(2,3) by (simp add: t_def list_at_def)
  next
    case (Some w)
    then obtain e xs where w: "w = ListObj e xs" using assms(4) by (cases w) auto
    then have "val_of t j = val_of s j" "list_at s j dst = xs" using Some assms(3) by (auto simp: t_def list_at_def)
    then show thesis using that[of e] Some w by (simp add: map_upd_triv)
  qed
  let ?ob = "listTypePush t (enc, list_at s j dst) v REDIS_HEAD"
  have e: "rpoplpushHandlePush c dst dobj v s = addReply c (RBulk (str_bytes v))
      (notifyKeyspaceEvent REDIS_NOTIFY_LIST ''lpush'' dst j (upd_list j dst ?ob t))"
    using l(1) t(2) assms(1) by (simp add: rpoplpushHandlePush_def Let_def signalModifiedKey_def t_def val_of_def)
  have "val_of (rpoplpushHandlePush c dst dobj v s) j = (val_of s j)(dst \<mapsto> ListObj (fst ?ob) (str_bytes v # list_at s j dst))"
    using t(2) l(2) by (simp add: e) (simp add: val_of_def)
  then show "\<exists>enc. val_of (rpoplpushHandlePush c dst dobj v s) j = (val_of s j)(dst \<mapsto> ListObj enc (str_bytes v # list_at s j dst))"
    by blast
  show "notify_keyspace_events s = 0 \<Longrightarrow>
      creply (cl (rpoplpushHandlePush c dst dobj v s) c) = creply (cl s c) @ [RBulk (str_bytes v)]"
    using t(3,4) by (simp add: e addReply_def)
qed



section \<open>The blocking commands\<close>

lemma getTimeout_ctx [simp]: "ctx (fst (getTimeoutFromObjectOrReply c a u s)) = ctx s"
  by (simp add: getTimeoutFromObjectOrReply_def case_prod_beta Let_def split: option.split)

lemma rpoplpush_ctx [simp]: "ctx (rpoplpushCommand c s) = ctx s"
  by (simp add: rpoplpushCommand_def Let_def case_prod_beta signalModifiedKey_def split: option.split robj.split)

lemma bpop_keys_loop_blocked:
  "blocked_ok s \<Longrightarrow> blocked_ok (fst (bpop_keys_loop c wh keys s)) \<and>
     (\<not> snd (bpop_keys_loop c wh keys s) \<longrightarrow> ctx (fst (bpop_keys_loop c wh keys s)) = ctx s)"
proof (induction keys arbitrary: s)
  case (Cons key keys)
  have r: "blocked_ok (rewriteClientCommandVector c av t) = blocked_ok t" for av t
    by (rule blocked_ok_dbs) simp_all
  let ?t = "fst (lookupKeyWrite (cdb (cl s c)) key s)"
  have t: "blocked_ok ?t" "ctx ?t = ctx s" using Cons.prems blocked_ok_ctx[of ?t s] by simp_all
  have b: "ctx u = ctx ?t \<Longrightarrow> blocked_ok u" for u using t(1) blocked_ok_ctx[of u ?t] by simp
  show ?case
    using Cons.IH[OF t(1)] t
    by (auto simp: Let_def case_prod_beta r b signalModifiedKey_def split: option.split robj.split)
qed simp

lemma ctx_btype: "ctx t = ctx s \<Longrightarrow> btype (cl t c) = btype (cl s c)"
  using arg_cong[OF ctx_client[of t s c], of btype] by simp

lemma blocking_pop_ok:
  assumes "blocked_ok s" "cdb (cl s c) < length (dbs s)" "c \<in> set (clients s)" "btype (cl s c) \<noteq> REDIS_BLOCKED_LIST"
    and "3 \<le> length (argv s c)"
  shows "blocked_ok (blockingPopGenericCommand c wh s)"
proof -
  let ?keys = "tl (butlast (argv s c))"
  let ?t = "fst (getTimeoutFromObjectOrReply c (last (argv s c)) UNIT_SECONDS s)"
  let ?u = "fst (bpop_keys_loop c wh ?keys ?t)"
  have keys: "?keys \<noteq> []" using assms(5) by (cases "argv s c" rule: rev_cases; cases "butlast (argv s c)") auto
  have t: "blocked_ok ?t" using assms(1) blocked_ok_ctx[OF getTimeout_ctx] by blast
  note u = bpop_keys_loop_blocked[OF t, of c wh ?keys]
  have "blocked_ok (blockForKeys c ?keys timeout None ?u)" if f: "\<not> snd (bpop_keys_loop c wh ?keys ?t)" for timeout
  proof -
    have cu: "ctx ?u = ctx s" using u f by simp
    have "bpop_keys (cl ?u c) = []" using blocked_okD(1)[of ?u c] u assms(4) ctx_btype[OF cu, of c] by auto
    moreover have "cdb (cl ?u c) < length (dbs ?u)" "c \<in> set (clients ?u)"
      using ctxD(1,2)[OF cu] ctx_clientD(1)[OF cu] assms(2,3) by simp_all
    ultimately show ?thesis using blockForKeys_ok(1)[of ?u c ?keys] u keys by blast
  qed
  moreover have "blocked_ok (addReply c RNullMulti ?u)" using u blocked_ok_ctx[OF ctx_reply(1)] by blast
  ultimately show ?thesis using t u
    by (auto simp: blockingPopGenericCommand_def Let_def case_prod_beta split: option.split bool.split)
qed

text \<open>
  C9: The table of waiting clients and the keys that each client waits for agree after every blocking
  command and after every unblocking; so no assertion about them fails when a client is unblocked, however often
  a key is named in a command.\<close>

theorem blocking_consistent:
  assumes "blocked_ok s" "cdb (cl s c) < length (dbs s)" "c \<in> set (clients s)" "btype (cl s c) = REDIS_BLOCKED_NONE"
    and "3 \<le> length (argv s c)" "btype (cl s d) = REDIS_BLOCKED_LIST"
  shows "blocked_ok (blpopCommand c s) \<and> blocked_ok (brpopCommand c s) \<and> blocked_ok (brpoplpushCommand c s) \<and>
    blocked_ok (unblockClient d s) \<and> crashed (unblockClient d s) = crashed s"
proof -
  let ?t = "fst (getTimeoutFromObjectOrReply c (argv s c ! 3) UNIT_SECONDS s)"
  let ?u = "fst (lookupKeyWrite (cdb (cl ?t c)) (argv s c ! 1) ?t)"
  have u: "ctx ?u = ctx s" by simp
  have b: "blocked_ok v" if "ctx v = ctx s" for v using that assms(1) blocked_ok_ctx by blast
  have "bpop_keys (cl ?u c) = []" using blocked_okD(1)[OF b[OF u], of c] ctx_btype[OF u, of c] assms(4) by auto
  then have "blocked_ok (blockForKeys c [argv s c ! 1] timeout target ?u)" for timeout target
    using blockForKeys_ok(1)[OF b[OF u], of c "[argv s c ! 1]"] ctxD(1,2)[OF u] ctx_clientD(1)[OF u] assms(2,3) by simp
  moreover have "ctx (addReply c r ?u) = ctx s" "ctx (rpoplpushCommand c (redisAssert p ?u)) = ctx s" for r p using u by simp_all
  ultimately have "blocked_ok (brpoplpushCommand c s)"
    using b[of ?t] b by (auto simp: brpoplpushCommand_def Let_def case_prod_beta split: option.split robj.split)
  then show ?thesis
    using blocking_pop_ok[OF assms(1-3) _ assms(5)] assms(4) unblockClient_list(1,11)[OF assms(1,6)]
    by (simp add: blpopCommand_def brpopCommand_def)
qed

theorem blocking_consistent_witness:
  "blocked_ok (blpopCommand 0 (upd_client 0 (\<lambda>x. x\<lparr>cargv := [''BLPOP'', ''a'', ''a'', ''0'']\<rparr>) waiting_server))"
proof -
  let ?s = "upd_client 0 (\<lambda>x. x\<lparr>cargv := [''BLPOP'', ''a'', ''a'', ''0'']\<rparr>) waiting_server"
  have "blocked_ok ?s = blocked_ok waiting_server" by (rule blocked_ok_dbs) simp_all
  moreover have "clients ?s = [0, 1, 2]" "btype (cl ?s 0) = REDIS_BLOCKED_NONE" "btype (cl ?s 1) = REDIS_BLOCKED_LIST"
    by (simp_all add: waiting_server_def start_server_def no_client_def)
  ultimately show ?thesis
    using blocking_consistent[of ?s 0 1] waiting_server_ok(1) by (simp add: waiting_server_dbs)
qed

section \<open>A list that is freed while it is used\<close>

text \<open>
  C16: \<open>RPOPLPUSH\<close> with the same key twice looks the key up twice, each time against a new reading of the
  clock. When the key expires in between, the second lookup deletes the list that the first one
  returned, and the command goes on with the freed list.\<close>

theorem rpoplpush_expired_between:
  fixes s c cmd
  assumes "argv s c = [cmd, key, key]" "j = cdb (cl s c)" "j < length (dbs s)" "\<not> loading s" "masterhost s = None" "\<not> in_lua s"
    and "val_of s j key = Some (ListObj enc (x # xs))" "exp_of s j key = Some t" "0 \<le> t"
    and "clk s (clk_reads s) \<le> t" "t < clk s (clk_reads s + 1)"
  shows "crashed (rpoplpushCommand c s)"
proof -
  let ?u = "s\<lparr>clk_reads := Suc (clk_reads s)\<rparr>"
  have kv: "kv (the_db s j) key = Some (ListObj enc (x # xs))" "expires (the_db s j) key = Some t"
    using assms(7,8) by (simp_all add: val_of_def exp_of_def)
  have e1: "expireIfNeeded j key s = (?u, False)"
    using assms(4-6,9,10) kv by (simp add: expireIfNeeded_def getExpire_def mstime_def)
  then have l1: "lookupKeyWriteOrReply c key r s = (?u, Some (ListObj enc (x # xs)))" for r
    using kv assms(2) by (simp add: lookupKeyWriteOrReply_def lookupKeyWrite_def lookupKey_def)
  have ex: "expired_at ?u j key" using assms by (simp add: expired_at_def time_now_def exp_of_def)
  have "val_of (fst (lookupKeyWrite j key ?u)) j key = None" "snd (lookupKeyWrite j key ?u) = None"
    using ex assms(3) by (simp_all add: kept_def)
  then have "kv (the_db (fst (lookupKeyWrite j key ?u)) j) key = None" "snd (lookupKeyWrite j key ?u) = None"
    by (simp_all add: val_of_def)
  then obtain u where "lookupKeyWrite j key ?u = (u, None)" "kv (the_db u j) key = None" by (metis prod.collapse)
  then show ?thesis
    unfolding rpoplpushCommand_def Let_def assms(1) assms(2)[symmetric] by (simp add: l1)
qed

theorem rpoplpush_expired_between_witness:
  "crashed (rpoplpushCommand 0 (setExpire 0 ''k'' 0 (upd_client 0 (\<lambda>x. x\<lparr>cargv := [''RPOPLPUSH'', ''k'', ''k'']\<rparr>) waiting_server)))"
proof -
  let ?c = "upd_client 0 (\<lambda>x. x\<lparr>cargv := [''RPOPLPUSH'', ''k'', ''k'']\<rparr>) waiting_server"
  let ?s = "setExpire 0 ''k'' 0 ?c"
  have v: "val_of ?c 0 ''k'' = Some (ListObj ZIPLIST [''a'', ''b'', ''c''])"
    by (simp add: val_of_def waiting_server_dbs)
  have s: "argv ?s 0 = [''RPOPLPUSH'', ''k'', ''k'']" "0 = cdb (cl ?s 0)" "0 < length (dbs ?s)"
    "val_of ?s 0 ''k'' = Some (ListObj ZIPLIST [''a'', ''b'', ''c''])" "exp_of ?s 0 ''k'' = Some 0"
    using v by (simp_all add: waiting_server_dbs)
  have f: "\<not> loading ?s" "masterhost ?s = None" "\<not> in_lua ?s" "clk ?s (clk_reads ?s) \<le> 0" "0 < clk ?s (clk_reads ?s + 1)"
    by (simp_all add: waiting_server_def start_server_def)
  show ?thesis using rpoplpush_expired_between[OF s(1-3) f(1-3) s(4,5) order_refl f(4,5)] .
qed

end
