(* ===== verification/LoopProps.thy ===== *)
theory LoopProps
  imports CommandLoop ListProps
begin

text \<open>Properties of the checks that a request passes, of passwords and of the redirection in a cluster.\<close>

section \<open>Passwords\<close>

lemma xor_zero_iff: "(a :: nat) XOR b = 0 \<longleftrightarrow> a = b"
  by (auto simp: bit_eq_iff bit_xor_iff)

lemma fold_or_zero: "fold (\<lambda>j d. d OR f j) xs (d :: nat) = 0 \<longleftrightarrow> d = 0 \<and> (\<forall>j \<in> set xs. f j = 0)"
  by (induction xs arbitrary: d) (auto simp: or_eq_0_iff)

lemma auth_buf_nth:
  "j < REDIS_AUTHPASS_MAX_LEN \<Longrightarrow> strlen a \<le> REDIS_AUTHPASS_MAX_LEN \<Longrightarrow>
   auth_buf a ! j = (if j < strlen a then c_str a ! j else NUL)"
  by (simp add: auth_buf_def nth_append strlen_def c_str_def takeWhile_eq_take[symmetric] length_takeWhile_le min_absorb2)

text \<open>
  C23: The comparison of passwords, which takes the same time for all passwords of a length, says
  that two passwords are equal exactly if they are, as C strings of at most 512 bytes.\<close>

theorem password_compare:
  "time_independent_strcmp a b = 0 \<longleftrightarrow>
     strlen a \<le> REDIS_AUTHPASS_MAX_LEN \<and> strlen b \<le> REDIS_AUTHPASS_MAX_LEN \<and> c_str a = c_str b"
proof (cases "strlen a \<le> REDIS_AUTHPASS_MAX_LEN \<and> strlen b \<le> REDIS_AUTHPASS_MAX_LEN")
  case True
  have l: "strlen a = length (c_str a)" "strlen b = length (c_str b)" by (simp_all add: strlen_def c_str_def)
  have "time_independent_strcmp a b = 0 \<longleftrightarrow>
      (\<forall>j < REDIS_AUTHPASS_MAX_LEN. auth_buf a ! j = auth_buf b ! j) \<and> strlen a = strlen b"
    using True by (simp add: time_independent_strcmp_def Let_def or_eq_0_iff fold_or_zero xor_zero_iff) auto
  also have "\<dots> \<longleftrightarrow> c_str a = c_str b"
    using True auth_buf_nth[of _ a] auth_buf_nth[of _ b] l by (auto intro!: nth_equalityI)
  finally show ?thesis using True by blast
qed (auto simp: time_independent_strcmp_def Let_def)

section \<open>Requests that are refused\<close>

lemma flagTransaction_fields [simp]:
  "dbs (flagTransaction c s) = dbs s" "clients (flagTransaction c s) = clients s" "aof_log (flagTransaction c s) = aof_log s"
  "repl_log (flagTransaction c s) = repl_log s" "crashed (flagTransaction c s) = crashed s"
  "d \<noteq> c \<Longrightarrow> cl (flagTransaction c s) d = cl s d" "creply (cl (flagTransaction c s) d) = creply (cl s d)"
  "mcommands (cl (flagTransaction c s) d) = mcommands (cl s d)" "authenticated (cl (flagTransaction c s) d) = authenticated (cl s d)"
  "f_multi (cl (flagTransaction c s) d) = f_multi (cl s d)"
  "f_dirty_exec (cl (flagTransaction c s) c) \<longleftrightarrow> f_dirty_exec (cl s c) \<or> f_multi (cl s c)"
  by (simp_all add: flagTransaction_def)

lemma addReply_fields [simp]:
  "d \<noteq> c \<Longrightarrow> cl (addReply c r s) d = cl s d" "creply (cl (addReply c r s) c) = creply (cl s c) @ [r]"
  "authenticated (cl (addReply c r s) d) = authenticated (cl s d)"
  by (simp_all add: addReply_def)

definition start_config :: config where
  \<comment> \<open>a server with a password and two commands\<close>
  "start_config = \<lparr>commands = [''get'' \<mapsto> (no_flags_command ''get'' ''getCommand'' 2 None 1 1 1)\<lparr>cmd_readonly := True, cmd_fast := True\<rparr>,
       ''set'' \<mapsto> (no_flags_command ''set'' ''setCommand'' (-3) None 1 1 1)\<lparr>cmd_write := True, cmd_denyoom := True\<rparr>],
     requirepass = Some ''secret'',
     cluster = \<lparr>cluster_ok = True, myself = 0, slot_node = Map.empty, migrating_slots_to = Map.empty,
       importing_slots_from = Map.empty, myself_is_slave = False, slaveof = None, node_addr = (\<lambda>_. ([], 0))\<rparr>,
     maxmemory = 0, freeMemoryIfNeeded = (\<lambda>s. (s, True)), stop_writes_on_bgsave_err = True, saveparamslen = 1,
     lastbgsave_ok = True, aof_last_write_ok = True, aof_last_write_errno = [], repl_min_slaves_to_write = 0,
     repl_min_slaves_max_lag = 10, repl_good_slaves_count = 0, repl_slave_ro = True, repl_connected = True,
     repl_serve_stale_data = True, lua_timedout = False\<rparr>"

text \<open>
  C19: Without the password nothing is executed. When a password is required, a client that has not given
  it gets one reply to any request but \<open>AUTH\<close>: the datasets, what is propagated, the queue of its
  transaction and all other clients stay as they are, and it stays unauthenticated. This holds for every table of
  procedures.\<close>

theorem auth_required:
  fixes prc :: procs
  assumes "requirepass cfg = Some pass" "\<not> authenticated (cl s c)"
    and "\<And>cmd. lookupCommand (commands cfg) (argv s c ! 0) = Some cmd \<Longrightarrow> cmd_proc cmd \<noteq> ''authCommand''"
  shows "\<exists>t r. processCommand cfg prc c s = Some t \<and> dbs t = dbs s \<and> aof_log t = aof_log s \<and> repl_log t = repl_log s \<and>
    crashed t = crashed s \<and> \<not> authenticated (cl t c) \<and> mcommands (cl t c) = mcommands (cl s c) \<and>
    creply (cl t c) = creply (cl s c) @ [r] \<and> (\<forall>d. d \<noteq> c \<longrightarrow> cl t d = cl s d)"
  using assms by (auto simp: processCommand_def Let_def split: option.split)

theorem auth_required_witness:
  "\<forall>prc :: procs. \<exists>t r. processCommand start_config prc 1 (upd_client 1 (\<lambda>x. x\<lparr>authenticated := False, cargv := [''GET'', ''k'']\<rparr>) waiting_server) = Some t \<and>
     dbs t = dbs waiting_server \<and> creply (cl t 1) = [r]"
proof
  fix prc :: procs
  let ?s = "upd_client 1 (\<lambda>x. x\<lparr>authenticated := False, cargv := [''GET'', ''k'']\<rparr>) waiting_server"
  have "lookupCommand (commands start_config) ''GET'' = Some cmd \<Longrightarrow> cmd_proc cmd \<noteq> ''authCommand''" for cmd
    by (auto simp: lookupCommand_def start_config_def no_flags_command_def split: if_splits)
  moreover have "creply (cl ?s 1) = []" by (simp add: waiting_server_def no_client_def)
  ultimately show "\<exists>t r. processCommand start_config prc 1 ?s = Some t \<and> dbs t = dbs waiting_server \<and> creply (cl t 1) = [r]"
    using auth_required[of start_config "''secret''" ?s 1 prc] by (auto simp: start_config_def)
qed


definition multi_server :: server where
  \<comment> \<open>client 0 of a replica has sent \<open>MULTI\<close> and then a write\<close>
  "multi_server = upd_client 0 (\<lambda>x. x\<lparr>f_multi := True, cargv := [''SET'', ''k'', ''v'']\<rparr>) (start_server\<lparr>masterhost := Some ''master''\<rparr>)"




section \<open>Redirection in a cluster\<close>

text \<open>What the search knows after some keys: all of them are in the slot of the first.\<close>

definition query_ok :: "cluster_state \<Rightarrow> string set \<Rightarrow> query \<Rightarrow> bool" where
  "query_ok cs K q \<longleftrightarrow>
     (case q_first q of
        None \<Rightarrow> K = {} \<and> q_node q = None \<and> \<not> q_migrating q \<and> \<not> q_importing q
      | Some f \<Rightarrow> f \<in> K \<and> (\<forall>k \<in> K. keyHashSlot k = q_slot q) \<and>
          slot_node cs (q_slot q) \<noteq> None \<and> q_node q = slot_node cs (q_slot q) \<and>
          (q_migrating q \<longleftrightarrow> q_node q = Some (myself cs) \<and> migrating_slots_to cs (q_slot q) \<noteq> None) \<and>
          (q_importing q \<longrightarrow> importing_slots_from cs (q_slot q) \<noteq> None))"

lemma query_key_ok:
  assumes "query_ok cs K q" "query_key cs k q = Inr q'"
  shows "query_ok cs (insert k K) q'"
proof (cases "q_first q")
  case None
  then show ?thesis using assms by (auto simp: query_key_def query_ok_def Let_def split: option.splits if_splits)
next
  case (Some f)
  then show ?thesis using assms by (auto simp: query_key_def query_ok_def Let_def split: option.splits if_splits)
qed

lemma query_keys_ok:
  "query_ok cs K q \<Longrightarrow> query_keys cs ks q s = (t, Inr q') \<Longrightarrow> query_ok cs (K \<union> set ks) q'"
proof (induction ks arbitrary: K q s)
  case (Cons k ks)
  then obtain q1 where q1: "query_key cs k q = Inr q1" by (cases "query_key cs k q") auto
  have k: "query_ok cs (insert k K) q1" by (rule query_key_ok[OF Cons.prems(1) q1])
  then have m: "query_ok cs (insert k K) (q1\<lparr>q_missing := n\<rparr>)" for n by (simp add: query_ok_def cong: option.case_cong)
  show ?case using Cons.prems(2) Cons.IH[OF k] Cons.IH[OF m] q1 by (auto split: if_splits option.splits prod.splits)
qed simp

lemma query0_ok: "query_ok cs {} query0"
  by (simp add: query_ok_def query0_def)


definition ring :: cluster_state where
  \<comment> \<open>node 0 owns the slots below 8192, node 1 the others\<close>
  "ring = \<lparr>cluster_ok = True, myself = 0, slot_node = (\<lambda>i. Some (if i < 8192 then 0 else 1)), migrating_slots_to = Map.empty,
     importing_slots_from = Map.empty, myself_is_slave = False, slaveof = None, node_addr = (\<lambda>_. (''10.0.0.1'', 6379))\<rparr>"


end
