(* ===== verification/THash.thy ===== *)
theory THash
  imports TString "HOL-Library.AList"
begin

text \<open>
  The commands on hashes (\<open>src/redis-3.0/src/t_hash.c\<close>). A hash is a ziplist of alternating fields and values, here the
  list of the pairs of bytes, or a hash table; it is converted when there are too many entries or an argument is too long. The
  order in which a hash table is visited is the \<open>set_visit\<close> of \<open>SetObj\<close>. \<open>None\<close> is an assertion that fails.
\<close>

section \<open>Hash objects\<close>

fun convert_loop :: "(string \<times> string) list \<Rightarrow> (string \<rightharpoonup> string) \<Rightarrow> (string \<rightharpoonup> string) option" where
  "convert_loop [] d = Some d"
| "convert_loop ((f, v) # fs) d =
     (let field = str_bytes (tryObjectEncoding (createStringObject f));
          val = str_bytes (tryObjectEncoding (createStringObject v))
      in if d field = None then convert_loop fs (d(field \<mapsto> val)) else None)"

definition hashTypeConvertZiplist :: "(string \<times> string) list \<Rightarrow> hash_obj option" where
  "hashTypeConvertZiplist fs = map_option HashTable (convert_loop fs Map.empty)"

definition hashTypeConvert :: "hash_obj \<Rightarrow> hash_obj option" where
  "hashTypeConvert ob = (case ob of HashZip fs \<Rightarrow> hashTypeConvertZiplist fs | HashTable _ \<Rightarrow> None)"

definition hashTypeTryConversion :: "nat \<Rightarrow> hash_obj \<Rightarrow> strobj list \<Rightarrow> hash_obj option" where
  \<comment> \<open>the arguments are those from \<open>start\<close> to \<open>end\<close>\<close>
  "hashTypeTryConversion max_value ob args =
     (case ob of
        HashTable _ \<Rightarrow> Some ob
      | HashZip _ \<Rightarrow>
          if list_ex (\<lambda>a. sdsEncodedObject a \<and> length (str_bytes a) > max_value) args then hashTypeConvert ob else Some ob)"

definition hashTypeTryObjectEncoding :: "hash_obj \<Rightarrow> strobj \<Rightarrow> strobj" where
  \<comment> \<open>one of the two arguments\<close>
  "hashTypeTryObjectEncoding ob a = (case ob of HashTable _ \<Rightarrow> tryObjectEncoding a | HashZip _ \<Rightarrow> a)"

definition hashTypeGetFromZiplist :: "(string \<times> string) list \<Rightarrow> strobj \<Rightarrow> string option" where
  "hashTypeGetFromZiplist fs field = map_of fs (str_bytes field)"

definition hashTypeGetFromHashTable :: "(string \<rightharpoonup> string) \<Rightarrow> strobj \<Rightarrow> string option" where
  "hashTypeGetFromHashTable d field = d (str_bytes field)"

definition hashTypeGet :: "hash_obj \<Rightarrow> strobj \<Rightarrow> string option" where
  \<comment> \<open>the bytes of the value\<close>
  "hashTypeGet ob field =
     (case ob of HashZip fs \<Rightarrow> hashTypeGetFromZiplist fs field | HashTable d \<Rightarrow> hashTypeGetFromHashTable d field)"

definition hashTypeGetObject :: "hash_obj \<Rightarrow> strobj \<Rightarrow> strobj option" where
  \<comment> \<open>an entry of a ziplist is an integer if its bytes are the notation of one; the values in a table have been encoded\<close>
  "hashTypeGetObject ob field =
     (case ob of
        HashZip fs \<Rightarrow>
          (case hashTypeGetFromZiplist fs field of
             None \<Rightarrow> None
           | Some v \<Rightarrow>
               Some (case string2ll v of
                 Some ll \<Rightarrow> createStringObjectFromLongLong ll
               | None \<Rightarrow> createStringObject v))
      | HashTable d \<Rightarrow> map_option arg_obj (hashTypeGetFromHashTable d field))"

definition hashTypeExists :: "hash_obj \<Rightarrow> strobj \<Rightarrow> bool" where
  "hashTypeExists ob field =
     (case ob of
        HashZip fs \<Rightarrow> hashTypeGetFromZiplist fs field \<noteq> None
      | HashTable d \<Rightarrow> hashTypeGetFromHashTable d field \<noteq> None)"

definition hashTypeLength :: "hash_obj \<Rightarrow> nat" where
  "hashTypeLength ob = (case ob of HashZip fs \<Rightarrow> length fs | HashTable d \<Rightarrow> card (dom d))"

fun zip_replace :: "string \<Rightarrow> string \<Rightarrow> (string \<times> string) list \<Rightarrow> (string \<times> string) list" where
  \<comment> \<open>the value after the first field with these bytes is deleted and the new one inserted at its place\<close>
  "zip_replace f v [] = []"
| "zip_replace f v ((g, w) # fs) = (if g = f then (g, v) # fs else (g, w) # zip_replace f v fs)"

fun zip_delete :: "string \<Rightarrow> (string \<times> string) list \<Rightarrow> (string \<times> string) list" where
  "zip_delete f [] = []"
| "zip_delete f ((g, w) # fs) = (if g = f then fs else (g, w) # zip_delete f fs)"

definition hashTypeSet :: "nat \<Rightarrow> hash_obj \<Rightarrow> strobj \<Rightarrow> strobj \<Rightarrow> (hash_obj \<times> bool) option" where
  \<comment> \<open>the flag tells whether the field was there\<close>
  "hashTypeSet max_entries ob field value =
     (let f = str_bytes field; v = str_bytes value in
      case ob of
        HashZip fs \<Rightarrow>
          let update = (map_of fs f \<noteq> None);
              fs = (if update then zip_replace f v fs else fs @ [(f, v)]);
              ob = HashZip fs
          in if hashTypeLength ob > max_entries then do { ob \<leftarrow> hashTypeConvert ob; Some (ob, update) } else Some (ob, update)
      | HashTable d \<Rightarrow> Some (HashTable (d(f \<mapsto> v)), d f \<noteq> None))"

definition hashTypeDelete :: "hash_obj \<Rightarrow> strobj \<Rightarrow> hash_obj \<times> bool" where
  "hashTypeDelete ob field =
     (let f = str_bytes field in
      case ob of
        HashZip fs \<Rightarrow> if map_of fs f \<noteq> None then (HashZip (zip_delete f fs), True) else (ob, False)
      | HashTable d \<Rightarrow> if d f \<noteq> None then (HashTable (d(f := None)), True) else (ob, False))"

definition hashTypeNext_all :: "set_env \<Rightarrow> hash_obj \<Rightarrow> (string \<times> string) list" where
  \<comment> \<open>everything that an iterator returns\<close>
  "hashTypeNext_all env ob =
     (case ob of
        HashZip fs \<Rightarrow> fs
      | HashTable d \<Rightarrow> map (\<lambda>f. (f, the (d f))) (set_visit env 0 (dom d)))"

section \<open>Commands\<close>

abbreviation put_hash :: "nat \<Rightarrow> string \<Rightarrow> hash_obj \<Rightarrow> server \<Rightarrow> server" where
  \<comment> \<open>a change of the hash object that a key holds\<close>
  "put_hash j key ob \<equiv> upd_db j (\<lambda>d. d\<lparr>kv := (kv d)(key \<mapsto> HashObj ob)\<rparr>)"

fun is_hash :: "robj \<Rightarrow> bool" where
  "is_hash (HashObj _) = True"
| "is_hash _ = False"

definition hashTypeLookupWriteOrCreate :: "nat \<Rightarrow> string \<Rightarrow> server \<Rightarrow> server \<times> hash_obj option" where
  "hashTypeLookupWriteOrCreate c key s =
     (let j = cdb (cl s c) in
      case lookupKeyWrite j key s of
        (s, None) \<Rightarrow> (dbAdd j key (HashObj (HashZip [])) s, Some (HashZip []))
      | (s, Some (HashObj ob)) \<Rightarrow> (s, Some ob)
      | (s, Some _) \<Rightarrow> (addReply c wrongtypeerr s, None))"

definition hash_changed :: "nat \<Rightarrow> string \<Rightarrow> string \<Rightarrow> server \<Rightarrow> server" where
  "hash_changed j key event s =
     (let s = notifyKeyspaceEvent REDIS_NOTIFY_HASH event key j (signalModifiedKey j key s)
      in s\<lparr>dirty := dirty s + 1\<rparr>)"

definition hsetCommand :: "nat \<Rightarrow> server \<Rightarrow> server" where
  "hsetCommand c s =
     (let j = cdb (cl s c); key = argv s c ! 1;
          field = createStringObject (argv s c ! 2); val = createStringObject (argv s c ! 3)
      in case hashTypeLookupWriteOrCreate c key s of
           (s, None) \<Rightarrow> s
         | (s, Some ob) \<Rightarrow>
             case do { ob \<leftarrow> hashTypeTryConversion (hash_max_ziplist_value s) ob [field, val];
                       hashTypeSet (hash_max_ziplist_entries s) ob
                         (hashTypeTryObjectEncoding ob field) (hashTypeTryObjectEncoding ob val) } of
               None \<Rightarrow> redisAssert False s
             | Some (ob, update) \<Rightarrow>
                 hash_changed j key ''hset'' (addReply c (if update then shared_czero else shared_cone) (put_hash j key ob s)))"

definition hsetnxCommand :: "nat \<Rightarrow> server \<Rightarrow> server" where
  "hsetnxCommand c s =
     (let j = cdb (cl s c); key = argv s c ! 1;
          field = createStringObject (argv s c ! 2); val = createStringObject (argv s c ! 3)
      in case hashTypeLookupWriteOrCreate c key s of
           (s, None) \<Rightarrow> s
         | (s, Some ob) \<Rightarrow>
             case hashTypeTryConversion (hash_max_ziplist_value s) ob [field, val] of
               None \<Rightarrow> redisAssert False s
             | Some ob \<Rightarrow>
                 if hashTypeExists ob field then addReply c shared_czero (put_hash j key ob s)
                 else
                   case hashTypeSet (hash_max_ziplist_entries s) ob
                       (hashTypeTryObjectEncoding ob field) (hashTypeTryObjectEncoding ob val) of
                     None \<Rightarrow> redisAssert False s
                   | Some (ob, _) \<Rightarrow> hash_changed j key ''hset'' (addReply c shared_cone (put_hash j key ob s)))"

fun hmset_loop :: "nat \<Rightarrow> string list \<Rightarrow> hash_obj \<Rightarrow> hash_obj option" where
  "hmset_loop mx (f # v # args) ob =
     do { (ob, _) \<leftarrow> hashTypeSet mx ob (hashTypeTryObjectEncoding ob (createStringObject f))
                       (hashTypeTryObjectEncoding ob (createStringObject v));
          hmset_loop mx args ob }"
| "hmset_loop mx _ ob = Some ob"

definition hmsetCommand :: "nat \<Rightarrow> server \<Rightarrow> server" where
  "hmsetCommand c s =
     (let j = cdb (cl s c); key = argv s c ! 1; args = drop 2 (argv s c) in
      if length (argv s c) mod 2 = 1 then addReply c (RError ''ERR wrong number of arguments for HMSET'') s
      else
        case hashTypeLookupWriteOrCreate c key s of
          (s, None) \<Rightarrow> s
        | (s, Some ob) \<Rightarrow>
            case do { ob \<leftarrow> hashTypeTryConversion (hash_max_ziplist_value s) ob (map createStringObject args);
                      hmset_loop (hash_max_ziplist_entries s) args ob } of
              None \<Rightarrow> redisAssert False s
            | Some ob \<Rightarrow> hash_changed j key ''hset'' (addReply c shared_ok (put_hash j key ob s)))"

definition hincrbyCommand :: "nat \<Rightarrow> server \<Rightarrow> server" where
  "hincrbyCommand c s =
     (let j = cdb (cl s c); key = argv s c ! 1; field = createStringObject (argv s c ! 2) in
      case getLongLongFromSdsOrReply c (argv s c ! 3) None s of
        (s, None) \<Rightarrow> s
      | (s, Some incr) \<Rightarrow>
          case hashTypeLookupWriteOrCreate c key s of
            (s, None) \<Rightarrow> s
          | (s, Some ob) \<Rightarrow>
              case (case hashTypeGetObject ob field of
                      None \<Rightarrow> Some 0
                    | Some current \<Rightarrow> getLongLongFromObject (Some current)) of
                None \<Rightarrow> addReply c (RError ''ERR hash value is not an integer'') s
              | Some oldvalue \<Rightarrow>
                  if (incr < 0 \<and> oldvalue < 0 \<and> incr < LLONG_MIN - oldvalue) \<or>
                     (incr > 0 \<and> oldvalue > 0 \<and> incr > LLONG_MAX - oldvalue)
                  then addReply c (RError ''ERR increment or decrement would overflow'') s
                  else
                    let value = s64 (oldvalue + incr); new = createStringObjectFromLongLong value in
                    case hashTypeSet (hash_max_ziplist_entries s) ob (hashTypeTryObjectEncoding ob field) new of
                      None \<Rightarrow> redisAssert False s
                    | Some (ob, _) \<Rightarrow> hash_changed j key ''hincrby'' (addReply c (RInt value) (put_hash j key ob s)))"

fun hash_reply :: "string option \<Rightarrow> reply" where
  "hash_reply None = RNullBulk"
| "hash_reply (Some v) = RBulk v"

definition addHashFieldToReply :: "nat \<Rightarrow> hash_obj option \<Rightarrow> strobj \<Rightarrow> server \<Rightarrow> server" where
  "addHashFieldToReply c ob field s =
     addReply c (case ob of None \<Rightarrow> RNullBulk | Some ob \<Rightarrow> hash_reply (hashTypeGet ob field)) s"

definition hgetCommand :: "nat \<Rightarrow> server \<Rightarrow> server" where
  "hgetCommand c s =
     (case lookupKeyReadOrReply c (argv s c ! 1) RNullBulk s of
        (s, None) \<Rightarrow> s
      | (s, Some (HashObj ob)) \<Rightarrow> addHashFieldToReply c (Some ob) (createStringObject (argv s c ! 2)) s
      | (s, Some _) \<Rightarrow> addReply c wrongtypeerr s)"

definition hmgetCommand :: "nat \<Rightarrow> server \<Rightarrow> server" where
  "hmgetCommand c s =
     (let fields = map createStringObject (drop 2 (argv s c)); reply = (\<lambda>ob s. fold (addHashFieldToReply c ob) fields
            (addReply c (RMulti (int (length (argv s c)) - 2)) s))
      in case lookupKeyRead (cdb (cl s c)) (argv s c ! 1) s of
           (s, None) \<Rightarrow> reply None s
         | (s, Some (HashObj ob)) \<Rightarrow> reply (Some ob) s
         | (s, Some _) \<Rightarrow> addReply c wrongtypeerr s)"

fun hdel_loop :: "string list \<Rightarrow> hash_obj \<Rightarrow> nat \<Rightarrow> hash_obj \<times> nat \<times> bool" where
  \<comment> \<open>the hash, the number of fields deleted, and whether it has become empty, which ends the loop\<close>
  "hdel_loop [] ob deleted = (ob, deleted, False)"
| "hdel_loop (a # as) ob deleted =
     (case hashTypeDelete ob (createStringObject a) of
        (ob, True) \<Rightarrow> if hashTypeLength ob = 0 then (ob, deleted + 1, True) else hdel_loop as ob (deleted + 1)
      | (ob, False) \<Rightarrow> hdel_loop as ob deleted)"

definition hdelCommand :: "nat \<Rightarrow> server \<Rightarrow> server" where
  "hdelCommand c s =
     (let j = cdb (cl s c); key = argv s c ! 1 in
      case lookupKeyWriteOrReply c key shared_czero s of
        (s, None) \<Rightarrow> s
      | (s, Some (HashObj ob)) \<Rightarrow>
          (case hdel_loop (drop 2 (argv s c)) ob 0 of
             (ob, deleted, keyremoved) \<Rightarrow>
               let s = put_hash j key ob s;
                   s = (if keyremoved then fst (dbDelete j key s) else s);
                   s = (if deleted \<noteq> 0 then
                          (let s = signalModifiedKey j key s;
                               s = notifyKeyspaceEvent REDIS_NOTIFY_HASH ''hdel'' key j s;
                               s = (if keyremoved then notifyKeyspaceEvent REDIS_NOTIFY_GENERIC ''del'' key j s else s)
                           in s\<lparr>dirty := dirty s + int deleted\<rparr>)
                        else s)
               in addReply c (RInt (int deleted)) s)
      | (s, Some _) \<Rightarrow> addReply c wrongtypeerr s)"

definition hlenCommand :: "nat \<Rightarrow> server \<Rightarrow> server" where
  "hlenCommand c s =
     (case lookupKeyReadOrReply c (argv s c ! 1) shared_czero s of
        (s, None) \<Rightarrow> s
      | (s, Some (HashObj ob)) \<Rightarrow> addReply c (RInt (int (hashTypeLength ob))) s
      | (s, Some _) \<Rightarrow> addReply c wrongtypeerr s)"


definition genericHgetallCommand :: "set_env \<Rightarrow> nat \<Rightarrow> bool \<Rightarrow> bool \<Rightarrow> server \<Rightarrow> server" where
  \<comment> \<open>the two flags are \<open>REDIS_HASH_KEY\<close> and \<open>REDIS_HASH_VALUE\<close>; lengths are C ints\<close>
  "genericHgetallCommand env c keys vals s =
     (case lookupKeyReadOrReply c (argv s c ! 1) (RMulti 0) s of
        (s, None) \<Rightarrow> s
      | (s, Some (HashObj ob)) \<Rightarrow>
          let multiplier = (if keys then 1 else 0) + (if vals then 1 else 0);
              len = s32 (int (hashTypeLength ob * multiplier));
              bulks = concat (map (\<lambda>(f, v). (if keys then [RBulk f] else []) @ (if vals then [RBulk v] else []))
                (hashTypeNext_all env ob))
          in redisAssert (s32 (int (length bulks)) = len) (addReplies c (RMulti len # bulks) s)
      | (s, Some _) \<Rightarrow> addReply c wrongtypeerr s)"

definition hkeysCommand :: "set_env \<Rightarrow> nat \<Rightarrow> server \<Rightarrow> server" where
  "hkeysCommand env c s = genericHgetallCommand env c True False s"

definition hvalsCommand :: "set_env \<Rightarrow> nat \<Rightarrow> server \<Rightarrow> server" where
  "hvalsCommand env c s = genericHgetallCommand env c False True s"

definition hgetallCommand :: "set_env \<Rightarrow> nat \<Rightarrow> server \<Rightarrow> server" where
  "hgetallCommand env c s = genericHgetallCommand env c True True s"

definition hexistsCommand :: "nat \<Rightarrow> server \<Rightarrow> server" where
  "hexistsCommand c s =
     (case lookupKeyReadOrReply c (argv s c ! 1) shared_czero s of
        (s, None) \<Rightarrow> s
      | (s, Some (HashObj ob)) \<Rightarrow>
          addReply c (if hashTypeExists ob (createStringObject (argv s c ! 2)) then shared_cone else shared_czero) s
      | (s, Some _) \<Rightarrow> addReply c wrongtypeerr s)"

end
