(* ===== verification/TSet.thy ===== *)
theory TSet
  imports TString
begin

text \<open>
  The commands on sets (\<open>src/redis-3.0/src/t_set.c\<close>). The intersection and the difference choose between algorithms by the
  sizes of the sets; what the code leaves open is the \<open>set_env\<close> of \<open>SetObj\<close>. The pointers that an array of
  sets holds are equal exactly if the keys are; \<open>crashed\<close> also records a use of a set that was freed because
  its key expired after it had been looked up.
\<close>

abbreviation put_set :: "nat \<Rightarrow> string \<Rightarrow> set_obj \<Rightarrow> server \<Rightarrow> server" where
  \<comment> \<open>a change of the set object that a key holds\<close>
  "put_set j key ob \<equiv> upd_db j (\<lambda>d. d\<lparr>kv := (kv d)(key \<mapsto> SetObj ob)\<rparr>)"

fun is_set :: "robj \<Rightarrow> bool" where
  "is_set (SetObj _) = True"
| "is_set _ = False"

section \<open>Members\<close>

definition sadd_members :: "set_env \<Rightarrow> nat \<Rightarrow> set_obj \<Rightarrow> server \<Rightarrow> server" where
  \<comment> \<open>\<open>SADD\<close> once the set is there\<close>
  "sadd_members env c ob s =
     (let j = cdb (cl s c); key = argv s c ! 1 in
      case add_each (setTypeAdd env (set_max_intset_entries s)) (map arg_obj (drop 2 (argv s c))) ob 0 of
        None \<Rightarrow> redisAssert False s
      | Some (ob, added) \<Rightarrow>
          let s = put_set j key ob s;
              s = (if added \<noteq> 0 then
                     notifyKeyspaceEvent REDIS_NOTIFY_SET ''sadd'' key j (signalModifiedKey j key s)
                   else s);
              s = s\<lparr>dirty := dirty s + int added\<rparr>
          in addReply c (RInt (int added)) s)"

definition saddCommand :: "set_env \<Rightarrow> nat \<Rightarrow> server \<Rightarrow> server" where
  "saddCommand env c s =
     (let j = cdb (cl s c); key = argv s c ! 1 in
      case lookupKeyWrite j key s of
        (s, None) \<Rightarrow>
          let ob = setTypeCreate (createStringObject (argv s c ! 2))
          in sadd_members env c ob (dbAdd j key (SetObj ob) s)
      | (s, Some (SetObj ob)) \<Rightarrow> sadd_members env c ob s
      | (s, Some _) \<Rightarrow> addReply c wrongtypeerr s)"

fun srem_loop :: "set_env \<Rightarrow> string list \<Rightarrow> set_obj \<Rightarrow> nat \<Rightarrow> (set_obj \<times> nat \<times> bool) option" where
  \<comment> \<open>the set, the number of members removed, and whether it has become empty, which ends the loop\<close>
  "srem_loop env [] ob deleted = Some (ob, deleted, False)"
| "srem_loop env (a # as) ob deleted =
     do { (ob, old) \<leftarrow> setTypeRemove env ob (createStringObject a);
          if old then
            if setTypeSize ob = 0 then Some (ob, deleted + 1, True) else srem_loop env as ob (deleted + 1)
          else srem_loop env as ob deleted }"

definition sremCommand :: "set_env \<Rightarrow> nat \<Rightarrow> server \<Rightarrow> server" where
  "sremCommand env c s =
     (let j = cdb (cl s c); key = argv s c ! 1 in
      case lookupKeyWriteOrReply c key shared_czero s of
        (s, None) \<Rightarrow> s
      | (s, Some (SetObj ob)) \<Rightarrow>
          (case srem_loop env (drop 2 (argv s c)) ob 0 of
             None \<Rightarrow> redisAssert False s
           | Some (ob, deleted, keyremoved) \<Rightarrow>
               let s = put_set j key ob s;
                   s = (if keyremoved then fst (dbDelete j key s) else s);
                   s = (if deleted \<noteq> 0 then
                          (let s = signalModifiedKey j key s;
                               s = notifyKeyspaceEvent REDIS_NOTIFY_SET ''srem'' key j s;
                               s = (if keyremoved then notifyKeyspaceEvent REDIS_NOTIFY_GENERIC ''del'' key j s else s)
                           in s\<lparr>dirty := dirty s + int deleted\<rparr>)
                        else s)
               in addReply c (RInt (int deleted)) s)
      | (s, Some _) \<Rightarrow> addReply c wrongtypeerr s)"

definition smove_add :: "set_env \<Rightarrow> nat \<Rightarrow> string \<Rightarrow> strobj \<Rightarrow> set_obj \<Rightarrow> server \<Rightarrow> server" where
  \<comment> \<open>the end of \<open>SMOVE\<close>, once the destination is there\<close>
  "smove_add env c dst ele ob s =
     (let j = cdb (cl s c) in
      case setTypeAdd env (set_max_intset_entries s) ob ele of
        None \<Rightarrow> redisAssert False s
      | Some (ob, new) \<Rightarrow>
          let s = put_set j dst ob s;
              s = (if new then
                     notifyKeyspaceEvent REDIS_NOTIFY_SET ''sadd'' dst j (s\<lparr>dirty := dirty s + 1\<rparr>)
                   else s)
          in addReply c shared_cone s)"

definition smove_sets :: "set_env \<Rightarrow> nat \<Rightarrow> string \<Rightarrow> string \<Rightarrow> strobj \<Rightarrow> set_obj \<Rightarrow> set_obj option \<Rightarrow> server \<Rightarrow> server" where
  \<comment> \<open>\<open>SMOVE\<close> between two sets\<close>
  "smove_sets env c src dst ele a b s =
     (let j = cdb (cl s c) in
      case setTypeRemove env a ele of
        None \<Rightarrow> redisAssert False s
      | Some (a, False) \<Rightarrow> addReply c shared_czero (put_set j src a s)
      | Some (a, True) \<Rightarrow>
          let s = put_set j src a s;
              s = notifyKeyspaceEvent REDIS_NOTIFY_SET ''srem'' src j s;
              s = (if setTypeSize a = 0 then
                     notifyKeyspaceEvent REDIS_NOTIFY_GENERIC ''del'' src j (fst (dbDelete j src s))
                   else s);
              s = signalModifiedKey j src s;
              s = signalModifiedKey j dst s;
              s = s\<lparr>dirty := dirty s + 1\<rparr>
          in case b of
               None \<Rightarrow> let b = setTypeCreate ele in smove_add env c dst ele b (dbAdd j dst (SetObj b) s)
             | Some b \<Rightarrow> smove_add env c dst ele b s)"

definition smoveCommand :: "set_env \<Rightarrow> nat \<Rightarrow> server \<Rightarrow> server" where
  "smoveCommand env c s =
     (let j = cdb (cl s c); src = argv s c ! 1; dst = argv s c ! 2; ele = arg_obj (argv s c ! 3) in
      case lookupKeyWrite j src s of
        (s, srcset) \<Rightarrow>
          case lookupKeyWrite j dst s of
            (s, dstset) \<Rightarrow>
              let s = redisAssert (srcset = None \<or> kv (the_db s j) src = srcset) s in
              case srcset of
                None \<Rightarrow> addReply c shared_czero s
              | Some (SetObj a) \<Rightarrow>
                  (case dstset of
                     Some (SetObj b) \<Rightarrow>
                       if src = dst then
                         (case setTypeIsMember a ele of
                            None \<Rightarrow> redisAssert False s
                          | Some b \<Rightarrow> addReply c (if b then shared_cone else shared_czero) s)
                       else smove_sets env c src dst ele a (Some b) s
                   | Some _ \<Rightarrow> addReply c wrongtypeerr s
                   | None \<Rightarrow> smove_sets env c src dst ele a None s)
              | Some _ \<Rightarrow> addReply c wrongtypeerr s)"

definition sismemberCommand :: "nat \<Rightarrow> server \<Rightarrow> server" where
  "sismemberCommand c s =
     (case lookupKeyReadOrReply c (argv s c ! 1) shared_czero s of
        (s, None) \<Rightarrow> s
      | (s, Some (SetObj ob)) \<Rightarrow>
          (case setTypeIsMember ob (arg_obj (argv s c ! 2)) of
             None \<Rightarrow> redisAssert False s
           | Some b \<Rightarrow> addReply c (if b then shared_cone else shared_czero) s)
      | (s, Some _) \<Rightarrow> addReply c wrongtypeerr s)"

definition scardCommand :: "nat \<Rightarrow> server \<Rightarrow> server" where
  "scardCommand c s =
     (case lookupKeyReadOrReply c (argv s c ! 1) shared_czero s of
        (s, None) \<Rightarrow> s
      | (s, Some (SetObj ob)) \<Rightarrow> addReply c (RInt (int (setTypeSize ob))) s
      | (s, Some _) \<Rightarrow> addReply c wrongtypeerr s)"

definition spop_remove :: "set_env \<Rightarrow> set_elem \<Rightarrow> set_obj \<Rightarrow> set_obj option" where
  "spop_remove env e ob =
     (case (e, ob) of
        (EInt v, IntSet is) \<Rightarrow> map_option (\<lambda>(is, _). IntSet is) (intsetRemove (set_junk env) is v)
      | _ \<Rightarrow> map_option fst (setTypeRemove env ob (elem_obj e)))"

definition spopCommand :: "set_env \<Rightarrow> nat \<Rightarrow> server \<Rightarrow> server" where
  "spopCommand env c s =
     (let j = cdb (cl s c); key = argv s c ! 1 in
      case lookupKeyWriteOrReply c key RNullBulk s of
        (s, None) \<Rightarrow> s
      | (s, Some (SetObj ob)) \<Rightarrow>
          (case do { e \<leftarrow> setTypeRandomElement env 0 ob; ob \<leftarrow> spop_remove env e ob; Some (e, ob) } of
             None \<Rightarrow> redisAssert False s
           | Some (e, ob) \<Rightarrow>
               let b = str_bytes (elem_obj e);
                   s = put_set j key ob s;
                   s = notifyKeyspaceEvent REDIS_NOTIFY_SET ''spop'' key j s;
                   s = rewriteClientCommandVector c [''SREM'', key, b] s;
                   s = addReply c (RBulk b) s;
                   s = (if setTypeSize ob = 0 then
                          notifyKeyspaceEvent REDIS_NOTIFY_GENERIC ''del'' key j (fst (dbDelete j key s))
                        else s);
                   s = signalModifiedKey j key s
               in s\<lparr>dirty := dirty s + 1\<rparr>)
      | (s, Some _) \<Rightarrow> addReply c wrongtypeerr s)"

section \<open>Looking up many sets\<close>

type_synonym sets = "(string \<times> set_obj option) list"

datatype found = Missing | WrongType | Found sets

fun inter_lookup :: "bool \<Rightarrow> nat \<Rightarrow> string list \<Rightarrow> server \<Rightarrow> server \<times> found" where
  \<comment> \<open>the flag tells whether the result is stored\<close>
  "inter_lookup w j [] s = (s, Found [])"
| "inter_lookup w j (key # keys) s =
     (case (if w then lookupKeyWrite j key s else lookupKeyRead j key s) of
        (s, None) \<Rightarrow> (s, Missing)
      | (s, Some (SetObj ob)) \<Rightarrow>
          (case inter_lookup w j keys s of
             (s, Found sets) \<Rightarrow> (s, Found ((key, Some ob) # sets))
           | r \<Rightarrow> r)
      | (s, Some _) \<Rightarrow> (s, WrongType))"

fun union_lookup :: "bool \<Rightarrow> nat \<Rightarrow> string list \<Rightarrow> server \<Rightarrow> server \<times> sets option" where
  \<comment> \<open>\<open>None\<close> is a key of another type; a missing key counts as the empty set\<close>
  "union_lookup w j [] s = (s, Some [])"
| "union_lookup w j (key # keys) s =
     (case (if w then lookupKeyWrite j key s else lookupKeyRead j key s) of
        (s, None) \<Rightarrow> (case union_lookup w j keys s of (s, r) \<Rightarrow> (s, map_option (Cons (key, None)) r))
      | (s, Some (SetObj ob)) \<Rightarrow>
          (case union_lookup w j keys s of (s, r) \<Rightarrow> (s, map_option (Cons (key, Some ob)) r))
      | (s, Some _) \<Rightarrow> (s, None))"

definition all_live :: "nat \<Rightarrow> sets \<Rightarrow> server \<Rightarrow> bool" where
  \<comment> \<open>no set that was found has been freed since\<close>
  "all_live j sets s \<longleftrightarrow>
     list_all (\<lambda>(k, ob). ob = None \<or> kv (the_db s j) k = map_option SetObj ob) sets"

definition store_result :: "nat \<Rightarrow> string \<Rightarrow> set_obj \<Rightarrow> string \<Rightarrow> server \<Rightarrow> server" where
  "store_result c dst ob event s =
     (let j = cdb (cl s c) in
      case dbDelete j dst s of
        (s, deleted) \<Rightarrow>
          let s = (if setTypeSize ob > 0 then
                     notifyKeyspaceEvent REDIS_NOTIFY_SET event dst j
                       (addReply c (RInt (int (setTypeSize ob))) (dbAdd j dst (SetObj ob) s))
                   else
                     let s = addReply c shared_czero s
                     in if deleted then notifyKeyspaceEvent REDIS_NOTIFY_GENERIC ''del'' dst j s else s);
              s = signalModifiedKey j dst s
          in s\<lparr>dirty := dirty s + 1\<rparr>)"

section \<open>Intersection\<close>

definition qsortCompareSetsByCardinality :: "set_obj option \<Rightarrow> set_obj option \<Rightarrow> int" where
  "qsortCompareSetsByCardinality a b =
     (case (a, b) of (Some x, Some y) \<Rightarrow> s32 (int (setTypeSize x) - int (setTypeSize y)) | _ \<Rightarrow> 0)"

definition qsortCompareSetsByRevCardinality :: "set_obj option \<Rightarrow> set_obj option \<Rightarrow> int" where
  "qsortCompareSetsByRevCardinality a b =
     (let sz = (\<lambda>ob. case ob of None \<Rightarrow> 0 | Some x \<Rightarrow> int (setTypeSize x)) in s32 (sz b - sz a))"

definition inter_member :: "set_elem \<Rightarrow> set_obj \<Rightarrow> bool option" where
  \<comment> \<open>whether a member of the first set is in another, by the fastest way for the two encodings\<close>
  "inter_member e ob =
     (case e of
        EInt v \<Rightarrow>
          (case ob of
             IntSet is \<Rightarrow> intsetFind is v
           | HashSet _ \<Rightarrow> setTypeIsMember ob (createStringObjectFromLongLong v))
      | EObj o1 \<Rightarrow>
          (case (o1, ob) of
             (SInt v, IntSet is) \<Rightarrow> do { b \<leftarrow> intsetFind is v; if b then setTypeIsMember ob o1 else Some False }
           | _ \<Rightarrow> setTypeIsMember ob o1))"

fun inter_all :: "string \<Rightarrow> set_elem \<Rightarrow> sets \<Rightarrow> bool option" where
  \<comment> \<open>the loop over the other sets; the first set itself is skipped\<close>
  "inter_all k0 e [] = Some True"
| "inter_all k0 e ((k, None) # sets) = None"
| "inter_all k0 e ((k, Some ob) # sets) =
     (if k = k0 then inter_all k0 e sets
      else do { b \<leftarrow> inter_member e ob; if b then inter_all k0 e sets else Some False })"

fun inter_loop :: "string \<Rightarrow> sets \<Rightarrow> set_elem list \<Rightarrow> set_elem list option" where
  "inter_loop k0 sets [] = Some []"
| "inter_loop k0 sets (e # es) =
     do { b \<leftarrow> inter_all k0 e sets; r \<leftarrow> inter_loop k0 sets es; Some (if b then e # r else r) }"

definition inter_sets :: "set_env \<Rightarrow> sets \<Rightarrow> set_elem list option" where
  \<comment> \<open>the members of the first set that all the others have, after sorting\<close>
  "inter_sets env sets =
     (case set_qsort env qsortCompareSetsByCardinality sets of
        (k0, Some ob) # rest \<Rightarrow> do { es \<leftarrow> setTypeNext_all env 0 ob; inter_loop k0 rest es }
      | _ \<Rightarrow> None)"

definition sinterGenericCommand :: "set_env \<Rightarrow> nat \<Rightarrow> string list \<Rightarrow> string option \<Rightarrow> server \<Rightarrow> server" where
  "sinterGenericCommand env c setkeys dstkey s =
     (let j = cdb (cl s c) in
      case inter_lookup (dstkey \<noteq> None) j setkeys s of
        (s, Missing) \<Rightarrow>
          (case dstkey of
             None \<Rightarrow> addReply c (RMulti 0) s
           | Some dst \<Rightarrow>
               case dbDelete j dst s of
                 (s, deleted) \<Rightarrow>
                   let s = (if deleted then (let s = signalModifiedKey j dst s in s\<lparr>dirty := dirty s + 1\<rparr>) else s)
                   in addReply c shared_czero s)
      | (s, WrongType) \<Rightarrow> addReply c wrongtypeerr s
      | (s, Found sets) \<Rightarrow>
          (case inter_sets env sets of
             None \<Rightarrow> redisAssert False s
           | Some es \<Rightarrow>
               (case dstkey of
                  None \<Rightarrow> addReplies c (RMulti (int (length es)) # map (\<lambda>e. RBulk (str_bytes (elem_obj e))) es) s
                | Some dst \<Rightarrow>
                    (case add_each (setTypeAdd env (set_max_intset_entries s)) (map elem_obj es) (IntSet intsetNew) 0 of
                       None \<Rightarrow> redisAssert False s
                     | Some (ob, _) \<Rightarrow> store_result c dst ob ''sinterstore'' s))))"

definition sinterCommand :: "set_env \<Rightarrow> nat \<Rightarrow> server \<Rightarrow> server" where
  "sinterCommand env c s = sinterGenericCommand env c (drop 1 (argv s c)) None s"

definition sinterstoreCommand :: "set_env \<Rightarrow> nat \<Rightarrow> server \<Rightarrow> server" where
  "sinterstoreCommand env c s = sinterGenericCommand env c (drop 2 (argv s c)) (Some (argv s c ! 1)) s"

section \<open>Union and difference\<close>

datatype set_operation = REDIS_OP_UNION | REDIS_OP_DIFF

fun union_loop :: "set_env \<Rightarrow> nat \<Rightarrow> nat \<Rightarrow> sets \<Rightarrow> set_obj \<Rightarrow> nat \<Rightarrow> (set_obj \<times> nat) option" where
  "union_loop env mx i [] dst n = Some (dst, n)"
| "union_loop env mx i ((k, None) # sets) dst n = union_loop env mx (Suc i) sets dst n"
| "union_loop env mx i ((k, Some ob) # sets) dst n =
     do { es \<leftarrow> setTypeNext_all env i ob;
          (dst, n) \<leftarrow> add_each (setTypeAdd env mx) (map elem_obj es) dst n;
          union_loop env mx (Suc i) sets dst n }"

fun in_another :: "string \<Rightarrow> strobj \<Rightarrow> sets \<Rightarrow> bool option" where
  "in_another k0 ele [] = Some False"
| "in_another k0 ele ((k, None) # sets) = in_another k0 ele sets"
| "in_another k0 ele ((k, Some ob) # sets) =
     (if k = k0 then Some True
      else do { b \<leftarrow> setTypeIsMember ob ele; if b then Some True else in_another k0 ele sets })"

fun diff1_loop :: "set_env \<Rightarrow> nat \<Rightarrow> string \<Rightarrow> sets \<Rightarrow> strobj list \<Rightarrow> set_obj \<Rightarrow> nat \<Rightarrow> (set_obj \<times> nat) option" where
  "diff1_loop env mx k0 sets [] dst n = Some (dst, n)"
| "diff1_loop env mx k0 sets (ele # es) dst n =
     do { b \<leftarrow> in_another k0 ele sets;
          if b then diff1_loop env mx k0 sets es dst n
          else do { (dst, _) \<leftarrow> setTypeAdd env mx dst ele; diff1_loop env mx k0 sets es dst (n + 1) } }"

fun diff2_loop :: "set_env \<Rightarrow> nat \<Rightarrow> sets \<Rightarrow> set_obj \<Rightarrow> nat \<Rightarrow> (set_obj \<times> nat) option" where
  \<comment> \<open>the sets to subtract; an empty result ends the loop\<close>
  "diff2_loop env i [] dst n = Some (dst, n)"
| "diff2_loop env i ((k, None) # sets) dst n = diff2_loop env (Suc i) sets dst n"
| "diff2_loop env i ((k, Some ob) # sets) dst n =
     do { es \<leftarrow> setTypeNext_all env i ob;
          (dst, n) \<leftarrow> remove_each (setTypeRemove env) (map elem_obj es) dst n;
          if n = 0 then Some (dst, n) else diff2_loop env (Suc i) sets dst n }"

definition diff_algo :: "sets \<Rightarrow> nat" where
  "diff_algo sets =
     (case sets of
        (_, Some ob0) # _ \<Rightarrow>
          let there = List.map_filter snd sets;
              algo_one_work = sum_list (map (\<lambda>_. setTypeSize ob0) there) div 2;
              algo_two_work = sum_list (map setTypeSize there)
          in if algo_one_work \<le> algo_two_work then 1 else 2
      | _ \<Rightarrow> 1)"

definition diff_sets :: "set_env \<Rightarrow> nat \<Rightarrow> sets \<Rightarrow> (set_obj \<times> nat) option" where
  "diff_sets env mx sets =
     (case sets of
        (k0, Some ob) # rest \<Rightarrow>
          if diff_algo sets = 1 then
            let rest = set_qsort env qsortCompareSetsByRevCardinality rest in
            do { es \<leftarrow> setTypeNext_all env 0 ob; diff1_loop env mx k0 rest (map elem_obj es) (IntSet intsetNew) 0 }
          else do {
            es \<leftarrow> setTypeNext_all env 0 ob;
            (dst, n) \<leftarrow> add_each (setTypeAdd env mx) (map elem_obj es) (IntSet intsetNew) 0;
            if n = 0 then Some (dst, n) else diff2_loop env 1 rest dst n }
      | _ \<Rightarrow> Some (IntSet intsetNew, 0))"

definition sunionDiffGenericCommand ::
  "set_env \<Rightarrow> nat \<Rightarrow> string list \<Rightarrow> string option \<Rightarrow> set_operation \<Rightarrow> server \<Rightarrow> server" where
  "sunionDiffGenericCommand env c setkeys dstkey op s =
     (let j = cdb (cl s c) in
      case union_lookup (dstkey \<noteq> None) j setkeys s of
        (s, None) \<Rightarrow> addReply c wrongtypeerr s
      | (s, Some sets) \<Rightarrow>
          let s = redisAssert (all_live j sets s) s in
          case (if op = REDIS_OP_UNION then union_loop env (set_max_intset_entries s) 0 sets (IntSet intsetNew) 0
                else diff_sets env (set_max_intset_entries s) sets) of
            None \<Rightarrow> redisAssert False s
          | Some (ob, cardinality) \<Rightarrow>
              case dstkey of
                None \<Rightarrow>
                  (case setTypeNext_all env 0 ob of
                     None \<Rightarrow> redisAssert False s
                   | Some es \<Rightarrow>
                       addReplies c (RMulti (int cardinality) # map (\<lambda>e. RBulk (str_bytes (elem_obj e))) es) s)
              | Some dst \<Rightarrow>
                  store_result c dst ob (if op = REDIS_OP_UNION then ''sunionstore'' else ''sdiffstore'') s)"

definition sunionCommand :: "set_env \<Rightarrow> nat \<Rightarrow> server \<Rightarrow> server" where
  "sunionCommand env c s = sunionDiffGenericCommand env c (drop 1 (argv s c)) None REDIS_OP_UNION s"

definition sunionstoreCommand :: "set_env \<Rightarrow> nat \<Rightarrow> server \<Rightarrow> server" where
  "sunionstoreCommand env c s =
     sunionDiffGenericCommand env c (drop 2 (argv s c)) (Some (argv s c ! 1)) REDIS_OP_UNION s"

definition sdiffCommand :: "set_env \<Rightarrow> nat \<Rightarrow> server \<Rightarrow> server" where
  "sdiffCommand env c s = sunionDiffGenericCommand env c (drop 1 (argv s c)) None REDIS_OP_DIFF s"

definition sdiffstoreCommand :: "set_env \<Rightarrow> nat \<Rightarrow> server \<Rightarrow> server" where
  "sdiffstoreCommand env c s =
     sunionDiffGenericCommand env c (drop 2 (argv s c)) (Some (argv s c ! 1)) REDIS_OP_DIFF s"

section \<open>Random members\<close>

abbreviation (input) SRANDMEMBER_SUB_STRATEGY_MUL :: nat where "SRANDMEMBER_SUB_STRATEGY_MUL \<equiv> 3"

fun random_removals :: "set_env \<Rightarrow> nat \<Rightarrow> string set \<Rightarrow> string set" where
  \<comment> \<open>so many random keys are deleted from the temporary dictionary\<close>
  "random_removals env 0 d = d"
| "random_removals env (Suc n) d = random_removals env n (d - {set_pick env n d})"

partial_function (option) sample_loop :: "set_env \<Rightarrow> set_obj \<Rightarrow> nat \<Rightarrow> nat \<Rightarrow> string set \<Rightarrow> string set option" where
  \<comment> \<open>random members until there are enough different ones; \<open>None\<close> when there never are\<close>
  "sample_loop env ob cnt n d =
     (if cnt \<le> card d then Some d
      else do { e \<leftarrow> setTypeRandomElement env n ob; sample_loop env ob cnt (Suc n) (insert (str_bytes (elem_obj e)) d) })"

definition srandmemberWithCountCommand :: "set_env \<Rightarrow> nat \<Rightarrow> server \<Rightarrow> server option" where
  \<comment> \<open>\<open>None\<close> when the loop over random members does not end; a positive count is cut to 32 bits\<close>
  "srandmemberWithCountCommand env c s =
     (let key = argv s c ! 1 in
      case getLongFromSdsOrReply c (argv s c ! 2) None s of
        (s, None) \<Rightarrow> Some s
      | (s, Some l) \<Rightarrow>
          let cnt = (if 0 \<le> l then nat (u32 l) else nat (u64 (- l))); uniq = (0 \<le> l) in
          case lookupKeyReadOrReply c key (RMulti 0) s of
            (s, None) \<Rightarrow> Some s
          | (s, Some (SetObj ob)) \<Rightarrow>
              let sz = setTypeSize ob in
              if cnt = 0 then Some (addReply c (RMulti 0) s)
              else if \<not> uniq then
                (case those (map (\<lambda>n. setTypeRandomElement env n ob) [0..<cnt]) of
                   None \<Rightarrow> Some (redisAssert False s)
                 | Some es \<Rightarrow>
                     Some (addReplies c (RMulti (int cnt) # map (\<lambda>e. RBulk (str_bytes (elem_obj e))) es) s))
              else if sz \<le> cnt then Some (sunionDiffGenericCommand env c [key] None REDIS_OP_UNION s)
              else if cnt * SRANDMEMBER_SUB_STRATEGY_MUL > sz then
                (case setTypeNext_all env 0 ob of
                   None \<Rightarrow> Some (redisAssert False s)
                 | Some es \<Rightarrow>
                     let bs = map (\<lambda>e. str_bytes (elem_obj e)) es;
                         s = redisAssert (distinct bs \<and> card (set bs) = sz) s;
                         d = random_removals env (sz - cnt) (set bs)
                     in Some (addReplies c (RMulti (int cnt) # map RBulk (set_visit env 1 d)) s))
              else
                (case sample_loop env ob cnt 0 {} of
                   None \<Rightarrow> None
                 | Some d \<Rightarrow> Some (addReplies c (RMulti (int cnt) # map RBulk (set_visit env 1 d)) s))
          | (s, Some _) \<Rightarrow> Some (addReply c wrongtypeerr s))"

definition srandmemberCommand :: "set_env \<Rightarrow> nat \<Rightarrow> server \<Rightarrow> server option" where
  "srandmemberCommand env c s =
     (if length (argv s c) = 3 then srandmemberWithCountCommand env c s
      else if length (argv s c) > 3 then Some (addReply c syntaxerr s)
      else
        case lookupKeyReadOrReply c (argv s c ! 1) RNullBulk s of
          (s, None) \<Rightarrow> Some s
        | (s, Some (SetObj ob)) \<Rightarrow>
            (case setTypeRandomElement env 0 ob of
               None \<Rightarrow> Some (redisAssert False s)
             | Some e \<Rightarrow> Some (addReply c (RBulk (str_bytes (elem_obj e))) s))
        | (s, Some _) \<Rightarrow> Some (addReply c wrongtypeerr s))"

end
