(* ===== verification/SetAlg.thy ===== *)
theory SetAlg
  imports TSet
begin

text \<open>
  What the loops of \<open>SINTER\<close>, \<open>SUNION\<close> and \<open>SDIFF\<close> compute: the operations on sets, for every choice of algorithm,
  every encoding, and whatever \<open>qsort\<close> and the iterators do within their contracts.
\<close>

section \<open>The members of a set object\<close>

fun members :: "set_obj \<Rightarrow> string set" where
  "members (HashSet A) = A"
| "members (IntSet is) = dec_int ` set (the (those (map (\<lambda>i. intsetGet_at is (int i)) [0..<intsetLen is])))"

definition set_ok :: "set_obj \<Rightarrow> bool" where
  "set_ok ob \<longleftrightarrow> set_rep ob (members ob)"

lemma set_rep_members: "set_rep ob A \<Longrightarrow> members ob = A"
  by (cases ob) (auto simp: set_rep_def intset_all)

lemma set_rep_iff: "set_rep ob A \<longleftrightarrow> set_ok ob \<and> members ob = A"
  using set_rep_members by (auto simp: set_ok_def)

definition members_opt :: "set_obj option \<Rightarrow> string set" where
  "members_opt ob = (case ob of None \<Rightarrow> {} | Some x \<Rightarrow> members x)"

lemma members_opt_simps [simp]: "members_opt None = {}" "members_opt (Some x) = members x"
  by (simp_all add: members_opt_def)

abbreviation elem_bytes :: "set_elem \<Rightarrow> string" where
  "elem_bytes e \<equiv> str_bytes (elem_obj e)"

definition sets_ok :: "sets \<Rightarrow> bool" where
  \<comment> \<open>well-formed sets, the same for the same key\<close>
  "sets_ok sets \<longleftrightarrow>
     (\<forall>k x. (k, Some x) \<in> set sets \<longrightarrow> set_ok x) \<and>
     (\<forall>k a b. (k, a) \<in> set sets \<longrightarrow> (k, b) \<in> set sets \<longrightarrow> a = b)"

lemma sets_okD:
  assumes "sets_ok sets"
  shows "(k, Some x) \<in> set sets \<Longrightarrow> set_rep x (members x)" "(k, a) \<in> set sets \<Longrightarrow> (k, b) \<in> set sets \<Longrightarrow> a = b"
  using assms unfolding sets_ok_def set_ok_def by blast+

lemma sets_ok_subset: "sets_ok sets \<Longrightarrow> set sets' \<subseteq> set sets \<Longrightarrow> sets_ok sets'"
  unfolding sets_ok_def by blast

section \<open>Intersection\<close>

lemma inter_member_ok:
  assumes "elem_good e" "set_rep ob B"
  shows "inter_member e ob = Some (elem_bytes e \<in> B)"
proof (cases e)
  case (EInt v)
  show ?thesis
  proof (cases ob)
    case (IntSet "is")
    then obtain vs where "intset_rep is vs" "B = dec_int ` set vs" using assms(2) by (auto simp: set_rep_def)
    then show ?thesis using intsetFind_ok[of "is" vs v] EInt IntSet assms(1) by (auto simp: inter_member_def)
  next
    case (HashSet A)
    then show ?thesis using setTypeIsMember_ok[OF assms(2) elem_good_obj[OF assms(1)]] EInt by (simp add: inter_member_def)
  qed
next
  case (EObj o1)
  then have o1: "strobj_ok o1" using assms(1) by simp
  note m = setTypeIsMember_ok[OF assms(2) o1]
  show ?thesis
  proof (cases o1)
    case (SInt v)
    show ?thesis
    proof (cases ob)
      case (IntSet "is")
      then obtain vs where "intset_rep is vs" "B = dec_int ` set vs" using assms(2) by (auto simp: set_rep_def)
      then show ?thesis using intsetFind_ok[of "is" vs v] EObj IntSet SInt m o1 by (auto simp: inter_member_def)
    qed (use m EObj SInt in \<open>simp add: inter_member_def\<close>)
  qed (use m EObj in \<open>simp_all add: inter_member_def split: set_obj.splits\<close>)
qed

lemma inter_all_ok:
  assumes "\<forall>(k, ob) \<in> set sets. \<exists>x. ob = Some x \<and> set_ok x" "elem_good e"
    and "\<forall>(k, ob) \<in> set sets. k = k0 \<longrightarrow> elem_bytes e \<in> members_opt ob"
  shows "inter_all k0 e sets = Some (\<forall>(k, ob) \<in> set sets. elem_bytes e \<in> members_opt ob)"
  using assms
proof (induction k0 e sets rule: inter_all.induct)
  case (3 k0 e k ob sets)
  have m: "inter_member e ob = Some (elem_bytes e \<in> members ob)"
    using 3(3,4) by (intro inter_member_ok) (auto simp: set_rep_iff)
  show ?case
  proof (cases "k = k0")
    case True
    then show ?thesis using 3 by auto
  next
    case False
    have "inter_all k0 e sets = Some (\<forall>(k, ob) \<in> set sets. elem_bytes e \<in> members_opt ob)" if "elem_bytes e \<in> members ob"
      by (rule 3(2)[OF False m that]) (use 3(3-5) in auto)
    then show ?thesis using False m by auto
  qed
qed auto

lemma inter_loop_filter:
  "(\<And>e. e \<in> set es \<Longrightarrow> inter_all k0 e sets = Some (P e)) \<Longrightarrow> inter_loop k0 sets es = Some (filter P es)"
  by (induction es) simp_all

lemma inter_sets_ok:
  assumes "env_ok env" "sets_ok sets" "sets \<noteq> []" "\<forall>(k, ob) \<in> set sets. ob \<noteq> None"
  shows "\<exists>es. inter_sets env sets = Some es \<and> set (map elem_bytes es) = (\<Inter>(k, ob) \<in> set sets. members_opt ob) \<and>
    distinct (map elem_bytes es) \<and> (\<forall>e \<in> set es. elem_good e)"
proof -
  let ?q = "set_qsort env qsortCompareSetsByCardinality sets"
  have s: "set ?q = set sets" by (rule env_ok_sort[OF assms(1)])
  then have "?q \<noteq> []" using assms(3) by auto
  then obtain k0 ob0 rest where q: "?q = (k0, ob0) # rest" by (metis neq_Nil_conv surj_pair)
  then have in0: "(k0, ob0) \<in> set sets" using s by (metis list.set_intros(1))
  then obtain x0 where x0: "ob0 = Some x0" using assms(4) by auto
  have rest: "set rest \<subseteq> set sets" using s q by auto
  have r0: "set_rep x0 (members x0)" using sets_okD(1)[OF assms(2)] in0 x0 by simp
  obtain es where es: "setTypeNext_all env 0 x0 = Some es" "set (map elem_bytes es) = members x0"
    "distinct (map elem_bytes es)" "\<forall>e \<in> set es. elem_good e"
    using setTypeNext_all_ok[OF r0 assms(1), of 0] by (auto simp: comp_def)
  let ?P = "\<lambda>e. \<forall>(k, ob) \<in> set rest. elem_bytes e \<in> members_opt ob"
  have all: "inter_all k0 e rest = Some (?P e)" if "e \<in> set es" for e
  proof (rule inter_all_ok)
    show "\<forall>(k, ob) \<in> set rest. \<exists>x. ob = Some x \<and> set_ok x"
    proof safe
      fix k ob assume "(k, ob) \<in> set rest"
      then have "(k, ob) \<in> set sets" using rest by blast
      then show "\<exists>x. ob = Some x \<and> set_ok x" using assms(2,4) by (auto simp: sets_ok_def)
    qed
    show "elem_good e" using es(4) that by blast
    have e: "elem_bytes e \<in> members x0" using es(2) that by auto
    show "\<forall>(k, ob) \<in> set rest. k = k0 \<longrightarrow> elem_bytes e \<in> members_opt ob"
    proof safe
      fix ob assume "(k0, ob) \<in> set rest"
      then have "ob = ob0" using sets_okD(2)[OF assms(2) _ in0] rest by blast
      then show "elem_bytes e \<in> members_opt ob" using e x0 by simp
    qed
  qed
  have i: "inter_sets env sets = Some (filter ?P es)"
    using q x0 es(1) inter_loop_filter[of es k0 rest ?P] all by (simp add: inter_sets_def)
  have sets: "set sets = insert (k0, Some x0) (set rest)" using s q x0 by simp
  have "set (map elem_bytes (filter ?P es)) = {b \<in> set (map elem_bytes es). \<forall>(k, ob) \<in> set rest. b \<in> members_opt ob}"
    by (induction es) auto
  also have "\<dots> = members x0 \<inter> (\<Inter>(k, ob) \<in> set rest. members_opt ob)" unfolding es(2) by auto
  finally have "set (map elem_bytes (filter ?P es)) = members x0 \<inter> (\<Inter>(k, ob) \<in> set rest. members_opt ob)" .
  moreover have "\<dots> = (\<Inter>(k, ob) \<in> set sets. members_opt ob)" unfolding sets by simp
  moreover have "distinct (map elem_bytes (filter ?P es))" using es(3) by (rule distinct_map_filter)
  ultimately show ?thesis using i es(4) by (intro exI[of _ "filter ?P es"]) auto
qed

section \<open>Union\<close>

lemma add_each_good:
  assumes "set_rep ob A" "\<forall>e \<in> set es. elem_good e" "mx < 2 ^ 28" "n = card A"
  shows "\<exists>ob'. add_each (setTypeAdd env mx) (map elem_obj es) ob n =
      Some (ob', card (A \<union> set (map elem_bytes es))) \<and> set_rep ob' (A \<union> set (map elem_bytes es))"
  using sets.add_each_ok[OF assms(1), of "map elem_obj es" mx n env] assms(2-4)
  by (auto simp: set_good_def image_image)

lemma union_loop_ok:
  assumes "env_ok env" "\<forall>(k, ob) \<in> set sets. \<forall>x. ob = Some x \<longrightarrow> set_ok x" "mx < 2 ^ 28" "set_rep dst A" "n = card A"
  shows "\<exists>ob. union_loop env mx i sets dst n = Some (ob, card (A \<union> (\<Union>(k, ob) \<in> set sets. members_opt ob))) \<and>
    set_rep ob (A \<union> (\<Union>(k, ob) \<in> set sets. members_opt ob))"
  using assms(2-)
proof (induction sets arbitrary: i dst n A)
  case (Cons p sets)
  obtain k ob where p: "p = (k, ob)" by (cases p)
  have r: "\<forall>(k, ob) \<in> set sets. \<forall>x. ob = Some x \<longrightarrow> set_ok x" using Cons.prems(1) by simp
  show ?case
  proof (cases ob)
    case None
    then show ?thesis using Cons.IH[OF r Cons.prems(2-4)] p by simp
  next
    case (Some x)
    then have x: "set_rep x (members x)" using Cons.prems(1) p by (simp add: set_ok_def)
    obtain es where es: "setTypeNext_all env i x = Some es" "set (map elem_bytes es) = members x" "\<forall>e \<in> set es. elem_good e"
      using setTypeNext_all_ok[OF x assms(1), of i] by (auto simp: comp_def)
    let ?B = "A \<union> members x"
    obtain dst' where d: "add_each (setTypeAdd env mx) (map elem_obj es) dst n = Some (dst', card ?B)" "set_rep dst' ?B"
      using add_each_good[OF Cons.prems(3) es(3) Cons.prems(2,4), of env] unfolding es(2) by blast
    have "A \<union> (\<Union>(k, ob) \<in> set (p # sets). members_opt ob) = ?B \<union> (\<Union>(k, ob) \<in> set sets. members_opt ob)"
      using p Some by auto
    then show ?thesis using Cons.IH[OF r Cons.prems(2) d(2) refl, of "Suc i"] es(1) d(1) p Some by simp
  qed
qed simp

section \<open>Difference\<close>

lemma in_another_ok:
  assumes "\<forall>(k, ob) \<in> set sets. \<forall>x. ob = Some x \<longrightarrow> set_ok x" "strobj_ok ele"
    and "\<forall>(k, ob) \<in> set sets. k = k0 \<longrightarrow> ob \<noteq> None \<longrightarrow> str_bytes ele \<in> members_opt ob"
  shows "in_another k0 ele sets = Some (\<exists>(k, ob) \<in> set sets. str_bytes ele \<in> members_opt ob)"
  using assms
proof (induction sets)
  case (Cons p sets)
  obtain k ob where p: "p = (k, ob)" by (cases p)
  have IH: "in_another k0 ele sets = Some (\<exists>(k, ob) \<in> set sets. str_bytes ele \<in> members_opt ob)"
    using Cons by simp
  show ?case
  proof (cases ob)
    case (Some x)
    then have "setTypeIsMember x ele = Some (str_bytes ele \<in> members x)"
      using Cons.prems p by (intro setTypeIsMember_ok) (simp_all add: set_ok_def)
    then show ?thesis using IH p Some Cons.prems(3) by (cases "k = k0") auto
  qed (use IH p in simp)
qed simp

lemma diff1_loop_ok:
  assumes "\<forall>e \<in> set es. elem_good e" "\<And>e. e \<in> set es \<Longrightarrow> in_another k0 (elem_obj e) sets = Some (P (elem_bytes e))"
    and "mx < 2 ^ 28" "set_rep dst A" "n = card A" "distinct (map elem_bytes es)" "A \<inter> set (map elem_bytes es) = {}"
  shows "\<exists>ob. diff1_loop env mx k0 sets (map elem_obj es) dst n =
      Some (ob, card (A \<union> {b \<in> set (map elem_bytes es). \<not> P b})) \<and>
    set_rep ob (A \<union> {b \<in> set (map elem_bytes es). \<not> P b})"
  using assms
proof (induction es arbitrary: dst A n)
  case (Cons e es)
  show ?case
  proof (cases "P (elem_bytes e)")
    case True
    then have "A \<union> {b \<in> set (map elem_bytes (e # es)). \<not> P b} = A \<union> {b \<in> set (map elem_bytes es). \<not> P b}" by auto
    moreover have "in_another k0 (elem_obj e) sets = Some True" using Cons.prems(2)[of e] True by simp
    ultimately show ?thesis using Cons.IH[OF _ _ Cons.prems(3,4,5)] Cons.prems by simp
  next
    case False
    let ?A = "insert (elem_bytes e) A"
    have "strobj_ok (elem_obj e)" using Cons.prems(1) by simp
    then obtain dst' where d: "setTypeAdd env mx dst (elem_obj e) = Some (dst', elem_bytes e \<notin> A)" "set_rep dst' ?A"
      using setTypeAdd_ok[OF Cons.prems(4), of mx "elem_obj e" env] Cons.prems(3) by (auto simp: set_good_def)
    have new: "elem_bytes e \<notin> A" "n + 1 = card ?A"
      using Cons.prems(5,7) set_rep_finite[OF Cons.prems(4)] by auto
    have eq: "A \<union> {b \<in> set (map elem_bytes (e # es)). \<not> P b} = ?A \<union> {b \<in> set (map elem_bytes es). \<not> P b}"
      using False by auto
    have i: "in_another k0 (elem_obj e) sets = Some False" using Cons.prems(2)[of e] False by simp
    have "?A \<inter> set (map elem_bytes es) = {}" using Cons.prems(6,7) by auto
    then have "\<exists>ob. diff1_loop env mx k0 sets (map elem_obj es) dst' (n + 1) =
        Some (ob, card (?A \<union> {b \<in> set (map elem_bytes es). \<not> P b})) \<and>
      set_rep ob (?A \<union> {b \<in> set (map elem_bytes es). \<not> P b})"
      using Cons.prems by (intro Cons.IH[OF _ _ Cons.prems(3) d(2) new(2)]) auto
    then show ?thesis unfolding eq using i d(1) by simp
  qed
qed simp

lemma diff2_loop_ok:
  assumes "env_ok env" "\<forall>(k, ob) \<in> set sets. \<forall>x. ob = Some x \<longrightarrow> set_ok x" "set_rep dst A" "n = card A"
  shows "\<exists>ob. diff2_loop env i sets dst n = Some (ob, card (A - (\<Union>(k, ob) \<in> set sets. members_opt ob))) \<and>
    set_rep ob (A - (\<Union>(k, ob) \<in> set sets. members_opt ob))"
  using assms(2-)
proof (induction sets arbitrary: i dst n A)
  case (Cons p sets)
  obtain k ob where p: "p = (k, ob)" by (cases p)
  have r: "\<forall>(k, ob) \<in> set sets. \<forall>x. ob = Some x \<longrightarrow> set_ok x" using Cons.prems(1) by simp
  show ?case
  proof (cases ob)
    case None
    then show ?thesis using Cons.IH[OF r Cons.prems(2,3)] p by simp
  next
    case (Some x)
    then have x: "set_rep x (members x)" using Cons.prems(1) p by (simp add: set_ok_def)
    obtain es where es: "setTypeNext_all env i x = Some es" "set (map elem_bytes es) = members x" "\<forall>e \<in> set es. elem_good e"
      using setTypeNext_all_ok[OF x assms(1), of i] by (auto simp: comp_def)
    let ?B = "A - members x"
    obtain dst' where d: "remove_each (setTypeRemove env) (map elem_obj es) dst n = Some (dst', card ?B)" "set_rep dst' ?B"
      using sets.remove_each_ok[OF Cons.prems(2), of "map elem_obj es" 0 n env] es(2,3) Cons.prems(3)
      by (auto simp: set_good_def image_image)
    have eq: "A - (\<Union>(k, ob) \<in> set (p # sets). members_opt ob) = ?B - (\<Union>(k, ob) \<in> set sets. members_opt ob)"
      using p Some by auto
    show ?thesis
    proof (cases "?B = {}")
      case True
      then have "A - (\<Union>(k, ob) \<in> set (p # sets). members_opt ob) = ?B" using eq by blast
      moreover have "card ?B = 0" unfolding True by simp
      ultimately show ?thesis using es(1) d p Some by simp
    next
      case False
      then have "card ?B \<noteq> 0" using set_rep_finite[OF d(2)] by simp
      then show ?thesis unfolding eq using Cons.IH[OF r d(2) refl, of "Suc i"] es(1) d(1) p Some by simp
    qed
  qed
qed simp

lemma diff_sets_ok:
  assumes "env_ok env" "sets_ok ((k0, Some x0) # rest)" "mx < 2 ^ 28"
  shows "\<exists>ob. diff_sets env mx ((k0, Some x0) # rest) =
      Some (ob, card (members x0 - (\<Union>(k, ob) \<in> set rest. members_opt ob))) \<and>
    set_rep ob (members x0 - (\<Union>(k, ob) \<in> set rest. members_opt ob))"
proof -
  let ?sub = "\<Union>(k, ob) \<in> set rest. members_opt ob"
  have x0: "set_rep x0 (members x0)" by (rule sets_okD(1)[OF assms(2), of k0]) simp
  have r: "\<forall>(k, ob) \<in> set rest. \<forall>x. ob = Some x \<longrightarrow> set_ok x" using assms(2) by (auto simp: sets_ok_def)
  obtain es where es: "setTypeNext_all env 0 x0 = Some es" "set (map elem_bytes es) = members x0"
    "distinct (map elem_bytes es)" "\<forall>e \<in> set es. elem_good e"
    using setTypeNext_all_ok[OF x0 assms(1), of 0] by (auto simp: comp_def)
  show ?thesis
  proof (cases "diff_algo ((k0, Some x0) # rest) = 1")
    case True
    let ?q = "set_qsort env qsortCompareSetsByRevCardinality rest"
    have q: "set ?q = set rest" by (rule env_ok_sort[OF assms(1)])
    have other: "in_another k0 (elem_obj e) ?q = Some (elem_bytes e \<in> ?sub)" if "e \<in> set es" for e
    proof -
      have "in_another k0 (elem_obj e) ?q = Some (\<exists>(k, ob) \<in> set ?q. elem_bytes e \<in> members_opt ob)"
      proof (rule in_another_ok)
        show "\<forall>(k, ob) \<in> set ?q. \<forall>x. ob = Some x \<longrightarrow> set_ok x" using r by (simp only: q)
        show "strobj_ok (elem_obj e)" using es(4) that by simp
        have "elem_bytes e \<in> members x0" using es(2) that by auto
        then show "\<forall>(k, ob) \<in> set ?q. k = k0 \<longrightarrow> ob \<noteq> None \<longrightarrow> elem_bytes e \<in> members_opt ob"
          using sets_okD(2)[OF assms(2), of k0 "Some x0"] by (fastforce simp: q)
      qed
      then show ?thesis by (simp add: q case_prod_beta)
    qed
    have "\<exists>ob. diff1_loop env mx k0 ?q (map elem_obj es) (IntSet intsetNew) 0 =
        Some (ob, card ({} \<union> {b \<in> set (map elem_bytes es). \<not> b \<in> ?sub})) \<and>
      set_rep ob ({} \<union> {b \<in> set (map elem_bytes es). \<not> b \<in> ?sub})"
      by (rule diff1_loop_ok[OF es(4)]) (use other assms(3) es(3) in auto)
    moreover have "{} \<union> {b \<in> set (map elem_bytes es). \<not> b \<in> ?sub} = members x0 - ?sub" unfolding es(2) by blast
    ultimately show ?thesis using True es(1) by (simp add: diff_sets_def Let_def)
  next
    case False
    obtain dst where d: "add_each (setTypeAdd env mx) (map elem_obj es) (IntSet intsetNew) 0 = Some (dst, card (members x0))"
      "set_rep dst (members x0)"
      using add_each_good[OF set_rep_empty(1) es(4) assms(3), of 0 env] unfolding es(2) by auto
    show ?thesis
    proof (cases "members x0 = {}")
      case True
      then show ?thesis using False es(1) d by (simp add: diff_sets_def)
    next
      case ne: False
      then have "card (members x0) \<noteq> 0" using set_rep_finite[OF x0] by simp
      then show ?thesis using False es(1) d(1) diff2_loop_ok[OF assms(1) r d(2) refl, of 1] by (simp add: diff_sets_def)
    qed
  qed
qed

end
