(* ===== verification/SetInv.thy ===== *)
theory SetInv
  imports SetAlg ListInv
begin

text \<open>
  The set commands keep the invariant of the dataset: no assertion fails, no intset is accessed outside its block, and no
  empty set is left behind. For the commands that look up several keys this needs that no key with an expire is named
  twice: it might be freed in between.
\<close>

section \<open>Set values\<close>

lemma obj_ok_set [simp]: "obj_ok (SetObj x) \<longleftrightarrow> set_ok x \<and> members x \<noteq> {}"
  by (auto simp: set_rep_iff)

declare obj_ok.simps(3) [simp del]

lemma is_set_iff: "is_set v \<longleftrightarrow> (\<exists>x. v = SetObj x)"
  by (cases v) simp_all

lemma set_ok_rep [intro]: "set_ok x \<Longrightarrow> set_rep x (members x)"
  by (simp add: set_ok_def)

lemma size_zero: "set_ok x \<Longrightarrow> setTypeSize x = 0 \<longleftrightarrow> members x = {}"
  using setTypeSize_ok set_rep_finite by (auto simp: set_ok_def)

lemma create_members [simp]: "members (setTypeCreate v) = {}" "set_ok (setTypeCreate v)"
  using setTypeCreate_ok[of v] by (simp_all add: set_rep_iff)

lemma arg_obj_elems: "set (map str_bytes (map arg_obj xs)) = set xs" "\<forall>e \<in> set (map arg_obj xs). strobj_ok e"
  by (auto simp: arg_obj_good)

lemma created_good [simp]: "strobj_ok (createStringObject a)" "str_bytes (createStringObject a) = a"
  by (simp_all add: createStringObject_def createEmbeddedStringObject_def createRawStringObject_def)

lemma sadd_each:
  assumes "set_ok ob" "mx < 2 ^ 28"
  shows "\<exists>ob' n. add_each (setTypeAdd env mx) (map arg_obj xs) ob 0 = Some (ob', n) \<and>
    set_ok ob' \<and> members ob' = members ob \<union> set xs"
proof -
  \<comment> \<open>the number of members that are new does not matter here\<close>
  have "set_rep ob A \<Longrightarrow> \<exists>ob' m. add_each (setTypeAdd env mx) (map arg_obj xs) ob n = Some (ob', m) \<and>
    set_rep ob' (A \<union> set xs)" for A n
  proof (induction xs arbitrary: ob A n)
    case (Cons a xs)
    obtain ob' where "setTypeAdd env mx ob (arg_obj a) = Some (ob', a \<notin> A)" "set_rep ob' (insert a A)"
      using setTypeAdd_ok[OF Cons.prems, of mx "arg_obj a" env] assms(2) by (auto simp: set_good_def arg_obj_good)
    then show ?case using Cons.IH[of ob' "insert a A" "if a \<notin> A then n + 1 else n"] by simp
  qed simp
  from this[OF set_ok_rep[OF assms(1)], of 0] show ?thesis by (auto simp: set_rep_iff)
qed

lemma srem_loop_ok:
  assumes "set_ok ob" "members ob \<noteq> {}"
  shows "\<exists>ob' n. srem_loop env xs ob d = Some (ob', n, members ob' = {}) \<and> set_ok ob' \<and> members ob' \<subseteq> members ob \<and>
    d \<le> n \<and> (members ob' = {} \<longrightarrow> d < n)"
  using assms
proof (induction xs arbitrary: ob d)
  case (Cons a xs)
  obtain ob' where r: "setTypeRemove env ob (createStringObject a) = Some (ob', a \<in> members ob)"
    "set_rep ob' (members ob - {a})"
    using setTypeRemove_ok[OF set_ok_rep[OF Cons.prems(1)], of "createStringObject a" env] by auto
  then have ob': "set_ok ob'" "members ob' = members ob - {a}" by (simp_all add: set_rep_iff)
  show ?case
  proof (cases "members ob' = {}")
    case True
    then have "a \<in> members ob" using ob'(2) Cons.prems(2) by blast
    then show ?thesis using r(1) True ob' size_zero[OF ob'(1)] by auto
  next
    case False
    obtain ob'' n where "srem_loop env xs ob' (if a \<in> members ob then d + 1 else d) = Some (ob'', n, members ob'' = {})"
      "set_ok ob''" "members ob'' \<subseteq> members ob'" "(if a \<in> members ob then d + 1 else d) \<le> n"
      "members ob'' = {} \<longrightarrow> (if a \<in> members ob then d + 1 else d) < n"
      using Cons.IH[OF ob'(1) False] by blast
    then show ?thesis using r(1) False ob' size_zero[OF ob'(1)] by (auto split: if_splits)
  qed
qed auto

section \<open>One key\<close>

lemma but_ok_put:
  assumes "db_ok_but j key s" "set_ok ob" "members ob \<noteq> {}"
  shows "db_ok (put_set j key ob s)"
proof -
  have j: "j < length (dbs s)" using assms(1) by (simp add: db_ok_but_def okdb_less)
  have "db_ok_but j key (put_set j key ob s)" using assms(1) by simp
  moreover have "val_of (put_set j key ob s) j key = Some (SetObj ob)" using j by (simp add: put_val)
  ultimately show ?thesis using but_done assms(2,3) by simp
qed

lemma sadd_members_ok:
  assumes "db_ok_but (cdb (cl s c)) (argv s c ! 1) s" "set_ok ob" "3 \<le> length (argv s c)" "set_max_intset_entries s < 2 ^ 28"
  shows "db_ok (sadd_members env c ob s)"
proof -
  obtain ob' n where a: "add_each (setTypeAdd env (set_max_intset_entries s)) (map arg_obj (drop 2 (argv s c))) ob 0 = Some (ob', n)"
    "set_ok ob'" "members ob' = members ob \<union> set (drop 2 (argv s c))"
    using sadd_each[OF assms(2,4)] by blast
  have "members ob' \<noteq> {}" using a(3) assms(3) by (cases "drop 2 (argv s c)") auto
  then have "db_ok (put_set (cdb (cl s c)) (argv s c ! 1) ob' s)" using but_ok_put[OF assms(1) a(2)] by blast
  then show ?thesis using a(1) by (simp add: sadd_members_def Let_def)
qed

lemma set_reads_ok:
  assumes "db_ok s" "okdb s (cdb (cl s c))"
  shows "db_ok (sismemberCommand c s)" "db_ok (scardCommand c s)"
proof -
  let ?v = "kept s (cdb (cl s c)) (argv s c ! 1) (argv s c ! 1)"
  have "setTypeIsMember x (arg_obj a) = Some (a \<in> members x)" if "?v = Some (SetObj x)" for x a
    using kept_some[OF assms that] setTypeIsMember_ok[OF set_ok_rep, of x "arg_obj a"] by (simp add: arg_obj_good)
  then show "db_ok (sismemberCommand c s)"
    using assms by (simp add: sismemberCommand_def case_prod_beta split: option.split robj.split)
  show "db_ok (scardCommand c s)"
    using assms by (simp add: scardCommand_def case_prod_beta split: option.split robj.split)
qed

lemma saddCommand_ok:
  assumes "db_ok s" "okdb s (cdb (cl s c))" "3 \<le> length (argv s c)" "set_max_intset_entries s < 2 ^ 28"
  shows "db_ok (saddCommand env c s)"
proof -
  let ?j = "cdb (cl s c)" and ?key = "argv s c ! 1"
  let ?t = "fst (lookupKeyWrite ?j ?key s)"
  have t: "db_ok ?t" "okdb ?t ?j" "set_max_intset_entries ?t < 2 ^ 28" using assms by simp_all
  show ?thesis
  proof (cases "kept s ?j ?key ?key")
    case None
    let ?u = "dbAdd ?j ?key (SetObj (setTypeCreate (createStringObject (argv s c ! 2)))) ?t"
    have "db_ok_but ?j ?key ?u" using t None assms(2) by (intro but_add) simp_all
    then have "db_ok (sadd_members env c (setTypeCreate (createStringObject (argv s c ! 2))) ?u)"
      using t(3) assms(3) by (intro sadd_members_ok) simp_all
    then show ?thesis using None assms(2) by (simp add: saddCommand_def Let_def case_prod_beta)
  next
    case (Some v)
    have "db_ok (sadd_members env c x ?t)" if "v = SetObj x" for x
      using kept_some[OF assms(1,2) Some] t assms Some that by (intro sadd_members_ok) simp_all
    then show ?thesis using Some t assms(2) by (auto simp: saddCommand_def Let_def case_prod_beta split: robj.split)
  qed
qed

lemma but_client [simp]: "db_ok_but j key (upd_client c f s) = db_ok_but j key s"
proof -
  have "put j key v (upd_client c f s) = upd_client c f (put j key v s)" for v
    by (simp add: upd_db_def upd_client_def)
  then show ?thesis by (simp add: db_ok_but_def)
qed

lemma finish_set:
  \<comment> \<open>a set that has been changed: the key goes when it is empty\<close>
  assumes "db_ok s" "okdb s j" "val_of s j key = Some v" "set_ok ob"
  shows "members ob \<noteq> {} \<Longrightarrow> db_ok (put_set j key ob s)" "db_ok (fst (dbDelete j key (put_set j key ob s)))"
proof -
  have b: "db_ok_but j key s" using assms by simp
  show "members ob \<noteq> {} \<Longrightarrow> db_ok (put_set j key ob s)" using but_ok_put[OF b assms(4)] .
  have "db_ok_but j key (put_set j key ob s)" using b by simp
  then show "db_ok (fst (dbDelete j key (put_set j key ob s)))" by (rule but_delete)
qed

lemma sremCommand_ok:
  assumes "db_ok s" "okdb s (cdb (cl s c))"
  shows "db_ok (sremCommand env c s)"
proof (cases "kept s (cdb (cl s c)) (argv s c ! 1) (argv s c ! 1)")
  case None
  then show ?thesis using assms by (simp add: sremCommand_def Let_def case_prod_beta)
next
  case (Some v)
  let ?j = "cdb (cl s c)" and ?key = "argv s c ! 1"
  let ?t = "fst (lookupKeyWrite ?j ?key s)"
  have t: "db_ok ?t" "okdb ?t ?j" "val_of ?t ?j ?key = Some v" using assms Some by simp_all
  show ?thesis
  proof (cases v)
    case (SetObj x)
    then have x: "set_ok x" "members x \<noteq> {}" using kept_some[OF assms Some] by simp_all
    obtain y n where r: "srem_loop env (drop 2 (argv s c)) x 0 = Some (y, n, members y = {})" "set_ok y"
      using srem_loop_ok[OF x, of env "drop 2 (argv s c)" 0] by blast
    show ?thesis using finish_set[OF t r(2)] r(1) Some SetObj assms
      by (cases "members y = {}") (simp_all add: sremCommand_def Let_def case_prod_beta)
  qed (use t Some assms in \<open>simp_all add: sremCommand_def case_prod_beta\<close>)
qed

lemma spop_remove_ok:
  assumes "set_ok ob" "elem_good e" "setTypeRandomElement env n ob = Some e"
  shows "\<exists>ob'. spop_remove env e ob = Some ob' \<and> set_ok ob' \<and> members ob' = members ob - {elem_bytes e}"
proof -
  have r: "set_rep ob (members ob)" using assms(1) by blast
  have g: "\<exists>ob'. map_option fst (setTypeRemove env ob (elem_obj e)) = Some ob' \<and> set_ok ob' \<and>
      members ob' = members ob - {elem_bytes e}"
    using setTypeRemove_ok[OF r elem_good_obj[OF assms(2)], of env] by (auto simp: set_rep_iff)
  show ?thesis
  proof (cases e)
    case (EInt v)
    then obtain "is" where ob: "ob = IntSet is" using assms(3) by (auto simp: setTypeRandomElement_def split: set_obj.splits)
    have "isObjectRepresentableAsLongLong (elem_obj e) = Some v"
      using EInt assms(2) representable_iff[OF elem_good_obj[OF assms(2)], of v] by simp
    then have "spop_remove env e ob = map_option fst (setTypeRemove env ob (elem_obj e))"
      using EInt ob by (auto simp: spop_remove_def setTypeRemove_def split: bind_splits)
    then show ?thesis using g by simp
  qed (use g in \<open>simp add: spop_remove_def\<close>)
qed

lemma spopCommand_ok:
  assumes "db_ok s" "okdb s (cdb (cl s c))" "env_ok env"
  shows "db_ok (spopCommand env c s)"
proof (cases "kept s (cdb (cl s c)) (argv s c ! 1) (argv s c ! 1)")
  case None
  then show ?thesis using assms by (simp add: spopCommand_def Let_def case_prod_beta)
next
  case (Some v)
  let ?j = "cdb (cl s c)" and ?key = "argv s c ! 1"
  let ?t = "fst (lookupKeyWrite ?j ?key s)"
  have t: "db_ok ?t" "okdb ?t ?j" "val_of ?t ?j ?key = Some v" using assms Some by simp_all
  show ?thesis
  proof (cases v)
    case (SetObj x)
    then have x: "set_ok x" "members x \<noteq> {}" using kept_some[OF assms(1,2) Some] by simp_all
    obtain e where e: "setTypeRandomElement env 0 x = Some e" "elem_good e"
      using setTypeRandomElement_ok[OF set_ok_rep[OF x(1)] assms(3) x(2), of 0] by blast
    obtain y where y: "spop_remove env e x = Some y" "set_ok y" using spop_remove_ok[OF x(1) e(2,1)] by blast
    show ?thesis
    proof (cases "members y = {}")
      case True
      let ?u = "put_set ?j ?key y ?t"
      let ?w = "addReply c (RBulk (elem_bytes e)) (rewriteClientCommandVector c [''SREM'', ?key, elem_bytes e]
        (notifyKeyspaceEvent REDIS_NOTIFY_SET ''spop'' ?key ?j ?u))"
      have "db_ok_but ?j ?key ?u" using t by simp
      then have "db_ok_but ?j ?key ?w" by simp
      then have "db_ok (fst (dbDelete ?j ?key ?w))" by (rule but_delete)
      then show ?thesis using e y(1) True size_zero[OF y(2)] Some SetObj assms
        by (simp add: spopCommand_def Let_def case_prod_beta)
    next
      case False
      then have "db_ok (put_set ?j ?key y ?t)" using finish_set(1)[OF t y(2)] by blast
      then show ?thesis using e y(1) False size_zero[OF y(2)] Some SetObj assms
        by (simp add: spopCommand_def Let_def case_prod_beta)
    qed
  qed (use t Some assms in \<open>simp_all add: spopCommand_def case_prod_beta\<close>)
qed

section \<open>Two keys\<close>

lemma smove_add_ok:
  assumes "db_ok_but (cdb (cl s c)) dst s" "set_ok ob" "set_max_intset_entries s < 2 ^ 28" "strobj_ok ele"
  shows "db_ok (smove_add env c dst ele ob s)"
proof -
  obtain y where y: "setTypeAdd env (set_max_intset_entries s) ob ele = Some (y, str_bytes ele \<notin> members ob)"
    "set_rep y (insert (str_bytes ele) (members ob))"
    using setTypeAdd_ok[OF set_ok_rep[OF assms(2)], of "set_max_intset_entries s" ele env] assms(3,4)
    by (auto simp: set_good_def)
  then have "db_ok (put_set (cdb (cl s c)) dst y s)" by (intro but_ok_put[OF assms(1)]) (auto simp: set_rep_iff)
  then show ?thesis using y(1) by (simp add: smove_add_def Let_def)
qed

lemma smove_sets_ok:
  assumes "db_ok s" "okdb s (cdb (cl s c))" "val_of s (cdb (cl s c)) src = Some (SetObj a)"
    and "val_of s (cdb (cl s c)) dst = map_option SetObj b" "src \<noteq> dst" "set_max_intset_entries s < 2 ^ 28" "strobj_ok ele"
  shows "db_ok (smove_sets env c src dst ele a b s)"
proof -
  let ?j = "cdb (cl s c)"
  note j = okdb_less[OF assms(2)]
  have a: "set_ok a" "members a \<noteq> {}" using db_okD(3)[OF assms(1) j assms(3)] by simp_all
  obtain a' where r: "setTypeRemove env a ele = Some (a', str_bytes ele \<in> members a)" "set_rep a' (members a - {str_bytes ele})"
    using setTypeRemove_ok[OF set_ok_rep[OF a(1)] assms(7), of env] by auto
  then have a': "set_ok a'" "members a' = members a - {str_bytes ele}" by (simp_all add: set_rep_iff)
  note fin = finish_set[OF assms(1-3) a'(1)]
  show ?thesis
  proof (cases "str_bytes ele \<in> members a")
    case False
    then have "members a' \<noteq> {}" using a a' by simp
    then show ?thesis using fin(1) r(1) False by (simp add: smove_sets_def Let_def)
  next
    case True
    define p where "p = notifyKeyspaceEvent REDIS_NOTIFY_SET ''srem'' src ?j (put_set ?j src a' s)"
    define u where "u = (if setTypeSize a' = 0
      then notifyKeyspaceEvent REDIS_NOTIFY_GENERIC ''del'' src ?j (fst (dbDelete ?j src p)) else p)"
    define v where "v = (let t = signalModifiedKey ?j dst (signalModifiedKey ?j src u) in t\<lparr>dirty := dirty t + 1\<rparr>)"
    have eq: "smove_sets env c src dst ele a b s =
        (case b of None \<Rightarrow> smove_add env c dst ele (setTypeCreate ele) (dbAdd ?j dst (SetObj (setTypeCreate ele)) v)
         | Some b \<Rightarrow> smove_add env c dst ele b v)"
      using r(1) True unfolding smove_sets_def Let_def v_def u_def p_def by simp
    have p: "db_ok_but ?j src p" "okdb p ?j" "cdb (cl p c) = ?j" "set_max_intset_entries p = set_max_intset_entries s"
        "val_of p ?j dst = val_of s ?j dst" "length (dbs p) = length (dbs s)"
      using assms(1-3,5) j by (simp_all add: p_def put_val val_nth[OF j])
    have pn: "members a' \<noteq> {} \<Longrightarrow> db_ok p" using fin(1) by (simp add: p_def)
    have u: "db_ok u" "okdb u ?j" "cdb (cl u c) = ?j" "set_max_intset_entries u = set_max_intset_entries s"
        "val_of u ?j dst = val_of s ?j dst"
    proof -
      show "db_ok u" using but_delete[OF p(1)] pn size_zero[OF a'(1)] by (simp add: u_def)
      show "okdb u ?j" "cdb (cl u c) = ?j" "set_max_intset_entries u = set_max_intset_entries s" using p by (simp_all add: u_def)
      show "val_of u ?j dst = val_of s ?j dst" using p(5,6) assms(5) j by (simp add: u_def)
    qed
    have v: "db_ok v" "okdb v ?j" "cdb (cl v c) = ?j" "set_max_intset_entries v = set_max_intset_entries s"
        "val_of v ?j dst = val_of s ?j dst"
      using u by (simp_all add: v_def Let_def signalModifiedKey_def)
    show ?thesis
    proof (cases b)
      case None
      let ?w = "dbAdd ?j dst (SetObj (setTypeCreate ele)) v"
      have "db_ok_but ?j dst ?w" using v None assms(4) by (intro but_add) simp_all
      then show ?thesis unfolding eq using None v assms(6,7) by (simp add: smove_add_ok)
    next
      case (Some y)
      then have "set_ok y" using db_okD(3)[OF assms(1) j, of dst "SetObj y"] assms(4) by simp
      then show ?thesis unfolding eq using Some v assms(4,6,7) by (simp add: smove_add_ok)
    qed
  qed
qed

lemma smoveCommand_ok:
  assumes "db_ok s" "okdb s (cdb (cl s c))" "set_max_intset_entries s < 2 ^ 28"
    and "argv s c ! 1 \<noteq> argv s c ! 2 \<or> exp_of s (cdb (cl s c)) (argv s c ! 1) = None"
  shows "db_ok (smoveCommand env c s)"
proof -
  let ?j = "cdb (cl s c)" and ?src = "argv s c ! 1" and ?dst = "argv s c ! 2" and ?ele = "arg_obj (argv s c ! 3)"
  note j = okdb_less[OF assms(2)]
  define t where "t = fst (lookupKeyWrite ?j ?src s)"
  define u where "u = fst (lookupKeyWrite ?j ?dst t)"
  have t: "db_ok t" "okdb t ?j" "val_of t ?j = kept s ?j ?src" "cdb (cl t c) = ?j" "ctx t = ctx s"
    using assms(1,2) j by (simp_all add: t_def)
  have u: "db_ok u" "okdb u ?j" "val_of u ?j = kept t ?j ?dst" "cdb (cl u c) = ?j" "set_max_intset_entries u < 2 ^ 28"
    "?j < length (dbs u)"
    using t assms(3) okdb_less[OF t(2)] ctxD(14)[OF t(5)] by (simp_all add: u_def)
  have live: "val_of u ?j ?src = kept s ?j ?src ?src"
  proof (cases "?src = ?dst")
    case False
    then show ?thesis using u(3) t(3) by (simp add: kept_def)
  next
    case True
    then have e: "exp_of s ?j ?src = None" using assms(4) by simp
    then have "exp_of t ?j ?src = None" using j by (simp add: t_def kept_exp_def)
    then show ?thesis using u(3) t(3) True by (simp add: kept_def expired_at_def)
  qed
  have dstv: "kept t ?j ?dst ?dst = val_of u ?j ?dst" using u(3) by simp
  have kv: "kv (the_db u ?j) = val_of u ?j" by (rule val_nth(1)[OF u(6)])
  have look1: "lookupKeyWrite ?j ?src s = (t, kept s ?j ?src ?src)" using j by (intro prod_eqI) (simp_all add: t_def)
  have look2: "lookupKeyWrite ?j ?dst t = (u, val_of u ?j ?dst)"
    using okdb_less[OF t(2)] dstv by (intro prod_eqI) (simp_all add: u_def)
  have assert: "redisAssert (x = None \<or> x = x) u = u" for x :: "robj option" by simp
  have eq: "smoveCommand env c s = (case kept s ?j ?src ?src of
      None \<Rightarrow> addReply c shared_czero u
    | Some (SetObj a) \<Rightarrow>
        (case val_of u ?j ?dst of
           Some (SetObj b) \<Rightarrow>
             if ?src = ?dst then
               (case setTypeIsMember a ?ele of
                  None \<Rightarrow> redisAssert False u
                | Some b \<Rightarrow> addReply c (if b then shared_cone else shared_czero) u)
             else smove_sets env c ?src ?dst ?ele a (Some b) u
         | Some _ \<Rightarrow> addReply c wrongtypeerr u
         | None \<Rightarrow> smove_sets env c ?src ?dst ?ele a None u)
    | Some _ \<Rightarrow> addReply c wrongtypeerr u)"
    unfolding smoveCommand_def Let_def look1 look2 prod.case kv live assert by (rule refl)
  have mem: "setTypeIsMember a ?ele = Some (argv s c ! 3 \<in> members a)" if "kept s ?j ?src ?src = Some (SetObj a)" for a
    using kept_some[OF assms(1,2) that] setTypeIsMember_ok[OF set_ok_rep, of a ?ele] by (simp add: arg_obj_good)
  have sets: "db_ok (smove_sets env c ?src ?dst ?ele a b u)"
    if "kept s ?j ?src ?src = Some (SetObj a)" "val_of u ?j ?dst = map_option SetObj b" "?src \<noteq> ?dst" for a b
    using u that live by (intro smove_sets_ok) (simp_all add: arg_obj_good)
  have none: "?src \<noteq> ?dst" if "kept s ?j ?src ?src = Some v" "val_of u ?j ?dst = None" for v
    using that live by auto
  show ?thesis unfolding eq using u(1) mem sets none by (auto split: option.split robj.split)
qed

section \<open>Many keys\<close>

abbreviation look :: "bool \<Rightarrow> nat \<Rightarrow> string \<Rightarrow> server \<Rightarrow> server \<times> robj option" where
  "look w j key s \<equiv> (if w then lookupKeyWrite j key s else lookupKeyRead j key s)"

lemma look_ok:
  assumes "db_ok s" "okdb s j"
  shows "db_ok (fst (look w j key s))" "okdb (fst (look w j key s)) i = okdb s i" "ctx (fst (look w j key s)) = ctx s"
    "val_of (fst (look w j key s)) j = kept s j key" "exp_of (fst (look w j key s)) j = kept_exp s j key"
    "snd (look w j key s) = kept s j key key"
  using assms okdb_less[OF assms(2)] by (cases w; simp)+

lemma kept_other: "k \<noteq> key \<or> exp_of s j k = None \<Longrightarrow> kept s j key k = val_of s j k"
  by (auto simp: kept_def expired_at_def)

lemma kept_exp_none: "exp_of s j k = None \<Longrightarrow> kept_exp s j key k = None"
  by (simp add: kept_exp_def)

definition once :: "server \<Rightarrow> nat \<Rightarrow> string list \<Rightarrow> bool" where
  \<comment> \<open>no key with an expire occurs twice\<close>
  "once s j keys \<longleftrightarrow> (\<forall>k. exp_of s j k \<noteq> None \<longrightarrow> count_list keys k \<le> 1)"

lemma onceD: "once s j (k # keys) \<Longrightarrow> k \<notin> set keys \<or> exp_of s j k = None"
proof -
  assume "once s j (k # keys)"
  then have "exp_of s j k \<noteq> None \<longrightarrow> count_list keys k = 0" by (auto simp: once_def dest!: spec[of _ k])
  then show ?thesis by (auto simp: count_list_0_iff)
qed

lemma once_look:
  assumes "db_ok s" "okdb s j" "once s j (k # keys)"
  shows "once (fst (look w j key s)) j keys"
  unfolding once_def look_ok(5)[OF assms(1,2)]
proof (intro allI impI)
  fix x assume "kept_exp s j key x \<noteq> None"
  then have "exp_of s j x \<noteq> None" by (auto simp: kept_exp_def split: if_splits)
  then have "count_list (k # keys) x \<le> 1" using assms(3) by (simp add: once_def)
  then show "count_list keys x \<le> 1" by (simp split: if_splits)
qed

definition found_ok :: "server \<Rightarrow> nat \<Rightarrow> sets \<Rightarrow> bool" where
  \<comment> \<open>the sets that were looked up are those in the database\<close>
  "found_ok s j sets \<longleftrightarrow>
     (\<forall>(k, ob) \<in> set sets. val_of s j k = map_option SetObj ob \<and> (\<forall>x. ob = Some x \<longrightarrow> set_ok x \<and> members x \<noteq> {}))"

lemma found_ok_simps [simp]:
  "found_ok s j []"
  "found_ok s j ((k, ob) # sets) \<longleftrightarrow>
     val_of s j k = map_option SetObj ob \<and> (\<forall>x. ob = Some x \<longrightarrow> set_ok x \<and> members x \<noteq> {}) \<and> found_ok s j sets"
  by (simp_all add: found_ok_def)

lemma found_sets_ok: "found_ok s j sets \<Longrightarrow> sets_ok sets"
proof -
  assume f: "found_ok s j sets"
  have "a = b" if "(k, a) \<in> set sets" "(k, b) \<in> set sets" for k a b
  proof -
    have "map_option SetObj a = map_option SetObj b" using bspec[OF f[unfolded found_ok_def] that(1)] bspec[OF f[unfolded found_ok_def] that(2)] by simp
    then show ?thesis by (cases a; cases b) auto
  qed
  moreover have "set_ok x" if "(k, Some x) \<in> set sets" for k x
    using bspec[OF f[unfolded found_ok_def] that] by simp
  ultimately show ?thesis unfolding sets_ok_def by blast
qed

lemma look_found:
  assumes "db_ok s" "okdb s j" "snd (look w j key s) = Some (SetObj x)"
  shows "set_ok x" "members x \<noteq> {}"
  using kept_some[OF assms(1,2), of key key] assms(3) unfolding look_ok(6)[OF assms(1,2)] by simp_all

lemma union_lookup_ok:
  assumes "db_ok s" "okdb s j"
  shows "db_ok (fst (union_lookup w j keys s))" "okdb (fst (union_lookup w j keys s)) i = okdb s i"
    "ctx (fst (union_lookup w j keys s)) = ctx s"
    "k \<notin> set keys \<or> exp_of s j k = None \<Longrightarrow> val_of (fst (union_lookup w j keys s)) j k = val_of s j k"
    "snd (union_lookup w j keys s) = Some sets \<Longrightarrow> map fst sets = keys"
    "snd (union_lookup w j keys s) = Some sets \<Longrightarrow> once s j keys \<Longrightarrow> found_ok (fst (union_lookup w j keys s)) j sets"
proof -
  have "db_ok (fst (union_lookup w j keys s)) \<and> okdb (fst (union_lookup w j keys s)) i = okdb s i \<and>
    ctx (fst (union_lookup w j keys s)) = ctx s \<and>
    (\<forall>k. k \<notin> set keys \<or> exp_of s j k = None \<longrightarrow> val_of (fst (union_lookup w j keys s)) j k = val_of s j k) \<and>
    (\<forall>sets. snd (union_lookup w j keys s) = Some sets \<longrightarrow> map fst sets = keys \<and>
       (once s j keys \<longrightarrow> found_ok (fst (union_lookup w j keys s)) j sets))"
    using assms
  proof (induction keys arbitrary: s)
    case Nil
    then show ?case by simp
  next
    case (Cons key keys)
    obtain t v where l: "look w j key s = (t, v)" by (cases "look w j key s")
    have t: "db_ok t" "okdb t j" "okdb t i = okdb s i" "ctx t = ctx s" "val_of t j = kept s j key"
      "exp_of t j = kept_exp s j key" "v = kept s j key key"
      using look_ok[OF Cons.prems, of w key] Cons.prems(2) unfolding l by simp_all
    note IH = Cons.IH[OF t(1,2)]
    let ?u = "fst (union_lookup w j keys t)"
    have step: "union_lookup w j (key # keys) s =
        (case v of
           None \<Rightarrow> (?u, map_option (Cons (key, None)) (snd (union_lookup w j keys t)))
         | Some (SetObj ob) \<Rightarrow> (?u, map_option (Cons (key, Some ob)) (snd (union_lookup w j keys t)))
         | Some _ \<Rightarrow> (t, None))"
      by (simp add: l case_prod_beta split: option.split robj.split)
    have same: "k \<notin> set (key # keys) \<or> exp_of s j k = None \<Longrightarrow> val_of t j k = val_of s j k \<and> val_of ?u j k = val_of s j k" for k
      using IH t(5,6) by (auto simp: kept_other kept_exp_none)
    have head: "val_of ?u j key = v" if "once s j (key # keys)"
    proof -
      have "key \<notin> set keys \<or> exp_of t j key = None" using onceD[OF that] t(6) by (auto simp: kept_exp_none)
      then show ?thesis using IH t(5,7) by auto
    qed
    have next_once: "once t j keys" if "once s j (key # keys)"
      using once_look[OF Cons.prems that, of w key] l by simp
    consider (none) "v = None" | (set) ob where "v = Some (SetObj ob)" | (wrong) "snd (union_lookup w j (key # keys) s) = None"
        "fst (union_lookup w j (key # keys) s) = t"
      using step by (cases v; cases "the v") auto
    then show ?case
    proof cases
      case none
      then have st: "union_lookup w j (key # keys) s = (?u, map_option (Cons (key, None)) (snd (union_lookup w j keys t)))"
        by (simp only: step option.case)
      show ?thesis unfolding st fst_conv snd_conv using IH t(1-6) same head[unfolded none] next_once by auto
    next
      case set
      then have st: "union_lookup w j (key # keys) s = (?u, map_option (Cons (key, Some ob)) (snd (union_lookup w j keys t)))"
        by (simp only: step option.case robj.case)
      have "set_ok ob" "members ob \<noteq> {}" using look_found[OF Cons.prems, of w key ob] l set by simp_all
      then show ?thesis unfolding st fst_conv snd_conv using IH t(1-6) same head[unfolded set] next_once by auto
    next
      case wrong
      then show ?thesis using t same by simp
    qed
  qed
  then show "db_ok (fst (union_lookup w j keys s))" "okdb (fst (union_lookup w j keys s)) i = okdb s i"
    "ctx (fst (union_lookup w j keys s)) = ctx s"
    "k \<notin> set keys \<or> exp_of s j k = None \<Longrightarrow> val_of (fst (union_lookup w j keys s)) j k = val_of s j k"
    "snd (union_lookup w j keys s) = Some sets \<Longrightarrow> map fst sets = keys"
    "snd (union_lookup w j keys s) = Some sets \<Longrightarrow> once s j keys \<Longrightarrow> found_ok (fst (union_lookup w j keys s)) j sets"
    by blast+
qed

lemma look_there:
  \<comment> \<open>a key that is found has not expired, and nothing has changed\<close>
  assumes "db_ok s" "okdb s j" "snd (look w j key s) = Some v"
  shows "val_of (fst (look w j key s)) j = val_of s j" "val_of s j key = Some v"
  using assms look_ok[OF assms(1,2), of w key] by (auto simp: kept_def split: if_splits)

lemma inter_lookup_ok:
  assumes "db_ok s" "okdb s j"
  shows "db_ok (fst (inter_lookup w j keys s))" "okdb (fst (inter_lookup w j keys s)) i = okdb s i"
    "ctx (fst (inter_lookup w j keys s)) = ctx s"
    "snd (inter_lookup w j keys s) = Found sets \<Longrightarrow> map fst sets = keys \<and>
       val_of (fst (inter_lookup w j keys s)) j = val_of s j \<and> found_ok (fst (inter_lookup w j keys s)) j sets \<and>
       (\<forall>(k, ob) \<in> set sets. ob \<noteq> None)"
proof -
  have "db_ok (fst (inter_lookup w j keys s)) \<and> okdb (fst (inter_lookup w j keys s)) i = okdb s i \<and>
    ctx (fst (inter_lookup w j keys s)) = ctx s \<and>
    (\<forall>sets. snd (inter_lookup w j keys s) = Found sets \<longrightarrow> map fst sets = keys \<and>
       val_of (fst (inter_lookup w j keys s)) j = val_of s j \<and> found_ok (fst (inter_lookup w j keys s)) j sets \<and>
       (\<forall>(k, ob) \<in> set sets. ob \<noteq> None))"
    using assms
  proof (induction keys arbitrary: s)
    case Nil
    then show ?case by simp
  next
    case (Cons key keys)
    obtain t v where l: "look w j key s = (t, v)" by (cases "look w j key s")
    have t: "db_ok t" "okdb t j" "okdb t i = okdb s i" "ctx t = ctx s"
      using look_ok[OF Cons.prems, of w key] Cons.prems(2) unfolding l by simp_all
    note IH = Cons.IH[OF t(1,2)]
    obtain u r where u: "inter_lookup w j keys t = (u, r)" by (cases "inter_lookup w j keys t")
    have step: "inter_lookup w j (key # keys) s =
        (case v of
           None \<Rightarrow> (t, Missing)
         | Some (SetObj ob) \<Rightarrow> (case r of Found sets \<Rightarrow> (u, Found ((key, Some ob) # sets)) | _ \<Rightarrow> (u, r))
         | Some _ \<Rightarrow> (t, WrongType))"
      by (simp add: l u split: option.split robj.split found.split)
    show ?case
    proof (cases "\<exists>ob sets. v = Some (SetObj ob) \<and> r = Found sets")
      case True
      then obtain ob sets where s: "v = Some (SetObj ob)" "r = Found sets" by blast
      have v: "val_of t j = val_of s j" "val_of s j key = v" and o: "set_ok ob" "members ob \<noteq> {}"
        using look_there[OF Cons.prems, of w key] look_found[OF Cons.prems, of w key ob] l s by simp_all
      have st: "inter_lookup w j (key # keys) s = (u, Found ((key, Some ob) # sets))"
        unfolding step s by simp
      show ?thesis unfolding st using IH t v o s unfolding u by auto
    next
      case False
      then have "inter_lookup w j (key # keys) s \<in> {(t, Missing), (t, WrongType), (u, Missing), (u, WrongType)}"
        unfolding step by (auto split: option.split robj.split found.split)
      then show ?thesis using IH t unfolding u by auto
    qed
  qed
  then show "db_ok (fst (inter_lookup w j keys s))" "okdb (fst (inter_lookup w j keys s)) i = okdb s i"
    "ctx (fst (inter_lookup w j keys s)) = ctx s"
    "snd (inter_lookup w j keys s) = Found sets \<Longrightarrow> map fst sets = keys \<and>
       val_of (fst (inter_lookup w j keys s)) j = val_of s j \<and> found_ok (fst (inter_lookup w j keys s)) j sets \<and>
       (\<forall>(k, ob) \<in> set sets. ob \<noteq> None)"
    by blast+
qed

lemma store_result_ok:
  assumes "db_ok s" "okdb s (cdb (cl s c))" "set_ok ob"
  shows "db_ok (store_result c dst ob event s)"
proof -
  let ?j = "cdb (cl s c)"
  obtain t deleted where d: "dbDelete ?j dst s = (t, deleted)" by (cases "dbDelete ?j dst s")
  have t: "db_ok t" "okdb t ?j" "val_of t ?j dst = None"
    using assms(1,2) okdb_less[OF assms(2)] db_ok_dbDelete[OF assms(1,2), of dst] okdb_fields(7)[of ?j dst s ?j]
      dbDelete_val(1)[OF okdb_less[OF assms(2)], of dst] unfolding d by (simp_all del: db_ok_dbDelete okdb_fields)
  have "members ob \<noteq> {} \<Longrightarrow> db_ok (dbAdd ?j dst (SetObj ob) t)" using t assms(3) by simp
  then show ?thesis using t(1) size_zero[OF assms(3)] unfolding store_result_def Let_def d prod.case
    by (cases "members ob = {}") simp_all
qed

lemma add_elems:
  assumes "\<forall>e \<in> set es. elem_good e" "mx < 2 ^ 28"
  shows "\<exists>ob. add_each (setTypeAdd env mx) (map elem_obj es) (IntSet intsetNew) 0 =
      Some (ob, card (set (map elem_bytes es))) \<and> set_ok ob \<and> members ob = set (map elem_bytes es)"
  using add_each_good[OF set_rep_empty(1) assms, of 0 env] by (auto simp: set_rep_iff)

lemma sinterGenericCommand_ok:
  assumes "db_ok s" "okdb s (cdb (cl s c))" "env_ok env" "set_max_intset_entries s < 2 ^ 28" "keys \<noteq> []"
  shows "db_ok (sinterGenericCommand env c keys dst s)"
proof -
  let ?j = "cdb (cl s c)"
  obtain t r where l: "inter_lookup (dst \<noteq> None) ?j keys s = (t, r)" by (cases "inter_lookup (dst \<noteq> None) ?j keys s")
  have t: "db_ok t" "okdb t ?j" "ctx t = ctx s"
    using inter_lookup_ok[OF assms(1,2), of "dst \<noteq> None" keys] assms(2) unfolding l by simp_all
  have c: "cdb (cl t c) = ?j" "set_max_intset_entries t < 2 ^ 28" using ctx_clientD(1)[OF t(3)] ctxD(14)[OF t(3)] assms(4) by simp_all
  show ?thesis
  proof (cases r)
    case Missing
    then show ?thesis using t c unfolding sinterGenericCommand_def Let_def l prod.case Missing found.case
      by (simp add: case_prod_beta split: option.split)
  next
    case WrongType
    then show ?thesis using t unfolding sinterGenericCommand_def Let_def l prod.case WrongType found.case by simp
  next
    case (Found sets)
    then have f: "map fst sets = keys" "found_ok t ?j sets" "\<forall>(k, ob) \<in> set sets. ob \<noteq> None"
      using inter_lookup_ok(4)[OF assms(1,2), of "dst \<noteq> None" keys sets] unfolding l by simp_all
    obtain es where es: "inter_sets env sets = Some es" "\<forall>e \<in> set es. elem_good e"
      using inter_sets_ok[OF assms(3) found_sets_ok[OF f(2)]] f(1,3) assms(5) by auto
    obtain ob where ob: "add_each (setTypeAdd env (set_max_intset_entries t)) (map elem_obj es) (IntSet intsetNew) 0 =
        Some (ob, card (set (map elem_bytes es)))" "set_ok ob"
      using add_elems[OF es(2) c(2), of env] by blast
    show ?thesis using Found t c es(1) ob store_result_ok[OF t(1) _ ob(2), of c]
      unfolding sinterGenericCommand_def Let_def l prod.case Found found.case by (simp split: option.split)
  qed
qed

lemma union_live:
  assumes "found_ok s j sets" "j < length (dbs s)"
  shows "all_live j sets s"
  using assms by (auto simp: all_live_def found_ok_def list_all_iff val_nth(1)[OF assms(2)])

lemma sunionDiffGenericCommand_ok:
  assumes "db_ok s" "okdb s (cdb (cl s c))" "env_ok env" "set_max_intset_entries s < 2 ^ 28" "once s (cdb (cl s c)) keys"
  shows "db_ok (sunionDiffGenericCommand env c keys dst op s)"
proof -
  let ?j = "cdb (cl s c)"
  obtain t r where l: "union_lookup (dst \<noteq> None) ?j keys s = (t, r)" by (cases "union_lookup (dst \<noteq> None) ?j keys s")
  have t: "db_ok t" "okdb t ?j" "ctx t = ctx s"
    using union_lookup_ok(1-3)[OF assms(1,2), of "dst \<noteq> None" keys] assms(2) unfolding l by simp_all
  have c: "cdb (cl t c) = ?j" "set_max_intset_entries t < 2 ^ 28" using ctx_clientD(1)[OF t(3)] ctxD(14)[OF t(3)] assms(4) by simp_all
  show ?thesis
  proof (cases r)
    case None
    then show ?thesis using t unfolding sunionDiffGenericCommand_def Let_def l prod.case None option.case by simp
  next
    case (Some sets)
    then have f: "found_ok t ?j sets"
      using union_lookup_ok(6)[OF assms(1,2), of "dst \<noteq> None" keys sets] assms(5) unfolding l by simp
    note ok = found_sets_ok[OF f]
    let ?r = "if op = REDIS_OP_UNION then union_loop env (set_max_intset_entries t) 0 sets (IntSet intsetNew) 0
      else diff_sets env (set_max_intset_entries t) sets"
    have "\<exists>ob n. ?r = Some (ob, n) \<and> set_ok ob"
    proof (cases "op = REDIS_OP_UNION")
      case True
      then show ?thesis using union_loop_ok[OF assms(3) _ c(2) set_rep_empty(1), of sets 0 0] ok
        by (fastforce simp: sets_ok_def set_rep_iff)
    next
      case False
      show ?thesis
      proof (cases "\<exists>k x rest. sets = (k, Some x) # rest")
        case True
        then show ?thesis using False diff_sets_ok[OF assms(3) _ c(2)] ok by (fastforce simp: set_rep_iff)
      next
        case no: False
        then have "diff_sets env (set_max_intset_entries t) sets = Some (IntSet intsetNew, 0)"
          by (auto simp: diff_sets_def split: list.split option.split)
        then show ?thesis using False set_rep_empty(1) by (simp add: set_rep_iff)
      qed
    qed
    then obtain ob n where ob: "?r = Some (ob, n)" "set_ok ob" by blast
    obtain es where es: "setTypeNext_all env 0 ob = Some es"
      using setTypeNext_all_ok[OF set_ok_rep[OF ob(2)] assms(3), of 0] by blast
    have live: "redisAssert (all_live ?j sets t) t = t" using union_live[OF f okdb_less[OF t(2)]] by simp
    show ?thesis using t c store_result_ok[OF t(1) _ ob(2), of c]
      unfolding sunionDiffGenericCommand_def Let_def l prod.case Some option.case live ob(1) es by (simp split: option.split)
  qed
qed

section \<open>Random members\<close>

lemma random_all:
  assumes "set_ok ob" "env_ok env" "members ob \<noteq> {}"
  shows "those (map (\<lambda>n. setTypeRandomElement env n ob) ns) \<noteq> None"
proof -
  have "\<exists>e. setTypeRandomElement env n ob = Some e" for n
    using setTypeRandomElement_ok[OF set_ok_rep[OF assms(1)] assms(2,3)] by blast
  then obtain f where "\<And>n. setTypeRandomElement env n ob = Some (f n)" by metis
  then show ?thesis by (simp add: those_map)
qed

lemma all_members:
  assumes "set_ok ob" "env_ok env"
  shows "\<exists>es. setTypeNext_all env n ob = Some es \<and> distinct (map elem_bytes es) \<and> card (set (map elem_bytes es)) = setTypeSize ob"
  using setTypeNext_all_ok[OF set_ok_rep[OF assms(1)] assms(2), of n] setTypeSize_ok[OF set_ok_rep[OF assms(1)]]
  by (auto simp: comp_def)

lemma srandmemberWithCountCommand_ok:
  assumes "db_ok s" "okdb s (cdb (cl s c))" "env_ok env" "set_max_intset_entries s < 2 ^ 28"
    and "srandmemberWithCountCommand env c s = Some r"
  shows "db_ok r"
proof -
  let ?j = "cdb (cl s c)" and ?key = "argv s c ! 1"
  obtain t l where a: "getLongFromSdsOrReply c (argv s c ! 2) None s = (t, l)" by fastforce
  have tt: "t = fst (getLongFromSdsOrReply c (argv s c ! 2) None s)" using a by simp
  have t: "db_ok t" "okdb t ?j" "cdb (cl t c) = ?j" "set_max_intset_entries t < 2 ^ 28"
    using assms(1,2,4) unfolding tt by simp_all
  obtain u v where b: "lookupKeyReadOrReply c ?key (RMulti 0) t = (u, v)" by fastforce
  have uv: "u = fst (lookupKeyReadOrReply c ?key (RMulti 0) t)" "v = snd (lookupKeyReadOrReply c ?key (RMulti 0) t)"
    using b by simp_all
  have v: "v = kept t ?j ?key ?key" "db_ok u" "okdb u ?j" "cdb (cl u c) = ?j" "set_max_intset_entries u < 2 ^ 28"
    unfolding uv lookupReply_sel(1,2)[OF t(3)[symmetric]] using t okdb_less[OF t(2)] by simp_all
  have sd: "db_ok (sunionDiffGenericCommand env c [?key] None REDIS_OP_UNION u)"
    using v assms(3) by (intro sunionDiffGenericCommand_ok) (auto simp: once_def)
  show ?thesis
  proof (cases l)
    case None
    then show ?thesis using assms(5) t a by (simp add: srandmemberWithCountCommand_def)
  next
    case (Some n)
    show ?thesis
    proof (cases "\<exists>x. v = Some (SetObj x)")
      case False
      then show ?thesis using assms(5) v a b Some
        by (auto simp: srandmemberWithCountCommand_def Let_def split: option.splits robj.splits)
    next
      case True
      then obtain x where x: "v = Some (SetObj x)" by blast
      then have ok: "set_ok x" "members x \<noteq> {}" using kept_some[OF t(1,2), of ?key ?key] v(1) by simp_all
      obtain es where es: "setTypeNext_all env 0 x = Some es" "distinct (map elem_bytes es)"
        "card (set (map elem_bytes es)) = setTypeSize x"
        using all_members[OF ok(1) assms(3)] by blast
      show ?thesis using assms(5) v(2) sd random_all[OF ok(1) assms(3) ok(2), of "[0..<nat (u64 (- n))]"] es(2,3)
        unfolding srandmemberWithCountCommand_def Let_def a b prod.case Some option.case x robj.case es(1)
        by (auto split: if_splits option.splits)
    qed
  qed
qed

lemma srandmemberCommand_ok:
  assumes "db_ok s" "okdb s (cdb (cl s c))" "env_ok env" "set_max_intset_entries s < 2 ^ 28"
    and "srandmemberCommand env c s = Some r"
  shows "db_ok r"
proof (cases "length (argv s c) = 3")
  case True
  then show ?thesis using srandmemberWithCountCommand_ok[OF assms(1-4)] assms(5) by (simp add: srandmemberCommand_def)
next
  case False
  have "setTypeRandomElement env 0 x \<noteq> None" if "kept s (cdb (cl s c)) (argv s c ! 1) (argv s c ! 1) = Some (SetObj x)" for x
    using random_all[of x env "[0]"] kept_some[OF assms(1,2) that] assms(3) by (auto split: option.splits)
  then show ?thesis using False assms
    by (auto simp: srandmemberCommand_def case_prod_beta split: if_splits option.splits robj.splits)
qed

end
