(* ===== verification/HashInv.thy ===== *)
theory HashInv
  imports THash SetInv
begin

text \<open>
  Hash objects implement finite maps from fields to values: the interface \<open>map_impl\<close>, its interpretation on the two
  encodings with their conversion, and the invariant of the dataset under the hash commands.
\<close>

section \<open>The map of a hash\<close>

fun hash_map :: "hash_obj \<Rightarrow> (string \<rightharpoonup> string)" where
  "hash_map (HashZip fs) = map_of fs"
| "hash_map (HashTable d) = d"

fun hash_wf :: "hash_obj \<Rightarrow> bool" where
  "hash_wf (HashZip fs) = distinct (map fst fs)"
| "hash_wf (HashTable d) = finite (dom d)"

lemma hash_ok_iff: "hash_ok ob \<longleftrightarrow> hash_wf ob \<and> hash_map ob \<noteq> Map.empty"
  by (cases ob) auto

lemma hash_finite: "hash_wf ob \<Longrightarrow> finite (dom (hash_map ob))"
  by (cases ob) (simp_all add: finite_dom_map_of)

lemma created_bytes [simp]: "str_bytes (tryObjectEncoding (createStringObject b)) = b" "str_bytes (createStringObject b) = b"
  by (rule arg_obj_good(2)) (simp add: createStringObject_def createEmbeddedStringObject_def createRawStringObject_def)

declare map_of_eq_Some_iff [simp del]

lemma convert_loop_ok:
  "distinct (map fst fs) \<Longrightarrow> fst ` set fs \<inter> dom d = {} \<Longrightarrow> convert_loop fs d = Some (d ++ map_of fs)"
proof (induction fs arbitrary: d)
  case (Cons p fs)
  obtain f v where p: "p = (f, v)" by (cases p)
  have n: "d f = None" "fst ` set fs \<inter> dom (d(f \<mapsto> v)) = {}" "distinct (map fst fs)" using Cons.prems p by auto
  have "(d(f \<mapsto> v)) ++ map_of fs = d ++ map_of ((f, v) # fs)"
    using Cons.prems(1) p by (simp add: map_add_upd_left dom_map_of_conv_image_fst)
  then show ?case using Cons.IH[OF n(3,2)] n(1) unfolding p convert_loop.simps by (simp only: Let_def created_bytes refl if_True)
qed simp

lemma hashTypeConvertZiplist_ok:
  "distinct (map fst fs) \<Longrightarrow> hashTypeConvertZiplist fs = Some (HashTable (map_of fs))"
  by (simp add: hashTypeConvertZiplist_def convert_loop_ok)

lemma hashTypeTryConversion_ok:
  assumes "hash_wf ob"
  shows "\<exists>ob'. hashTypeTryConversion mx ob args = Some ob' \<and> hash_wf ob' \<and> hash_map ob' = hash_map ob"
  using assms hashTypeConvertZiplist_ok
  by (cases ob) (auto simp: hashTypeTryConversion_def hashTypeConvert_def finite_dom_map_of)

lemma hashTypeGet_map [simp]: "hashTypeGet ob field = hash_map ob (str_bytes field)"
  by (cases ob) (simp_all add: hashTypeGet_def hashTypeGetFromZiplist_def hashTypeGetFromHashTable_def)

lemma hashTypeExists_map [simp]: "hashTypeExists ob field \<longleftrightarrow> hash_map ob (str_bytes field) \<noteq> None"
  by (cases ob) (simp_all add: hashTypeExists_def hashTypeGetFromZiplist_def hashTypeGetFromHashTable_def)

lemma hashTypeLength_card: "hash_wf ob \<Longrightarrow> hashTypeLength ob = card (dom (hash_map ob))"
  by (cases ob) (simp_all add: hashTypeLength_def dom_map_of_conv_image_fst distinct_card flip: set_map)

lemma zip_replace_fst [simp]: "map fst (zip_replace f v fs) = map fst fs"
  by (induction f v fs rule: zip_replace.induct) simp_all

lemma zip_replace_map: "map_of fs f \<noteq> None \<Longrightarrow> map_of (zip_replace f v fs) = (map_of fs)(f \<mapsto> v)"
  by (induction f v fs rule: zip_replace.induct) (auto simp: fun_eq_iff)

lemma zip_delete_ok:
  "distinct (map fst fs) \<Longrightarrow> map_of (zip_delete f fs) = (map_of fs)(f := None) \<and> distinct (map fst (zip_delete f fs)) \<and>
    set (zip_delete f fs) \<subseteq> set fs"
proof (induction f fs rule: zip_delete.induct)
  case (2 f g w fs)
  then have "map_of fs g = None" by (simp add: map_of_eq_None_iff)
  then show ?case using 2 by (auto simp: fun_eq_iff)
qed simp

lemma hashTypeSet_ok:
  assumes "hash_wf ob"
  shows "\<exists>ob'. hashTypeSet mx ob field v = Some (ob', hash_map ob (str_bytes field) \<noteq> None) \<and> hash_wf ob' \<and>
    hash_map ob' = (hash_map ob)(str_bytes field \<mapsto> str_bytes v)"
proof (cases ob)
  case (HashTable d)
  then show ?thesis using assms by (simp add: hashTypeSet_def Let_def)
next
  case (HashZip fs)
  define fs' where "fs' = (if map_of fs (str_bytes field) \<noteq> None then zip_replace (str_bytes field) (str_bytes v) fs
      else fs @ [(str_bytes field, str_bytes v)])"
  have d: "distinct (map fst fs')" "map_of fs' = (map_of fs)(str_bytes field \<mapsto> str_bytes v)"
  proof -
    have n: "map_of fs (str_bytes field) = None \<Longrightarrow> str_bytes field \<notin> fst ` set fs" by (simp add: map_of_eq_None_iff)
    then show "distinct (map fst fs')" using assms HashZip by (auto simp: fs'_def)
    show "map_of fs' = (map_of fs)(str_bytes field \<mapsto> str_bytes v)"
      using zip_replace_map[of fs "str_bytes field"] map_add_upd_left[of "str_bytes field" "map_of fs" Map.empty]
      by (auto simp: fs'_def domIff)
  qed
  have e: "hashTypeSet mx ob field v = (if hashTypeLength (HashZip fs') > mx
      then do { ob \<leftarrow> hashTypeConvert (HashZip fs'); Some (ob, map_of fs (str_bytes field) \<noteq> None) }
      else Some (HashZip fs', map_of fs (str_bytes field) \<noteq> None))"
    by (simp add: hashTypeSet_def HashZip Let_def fs'_def)
  show ?thesis unfolding e using HashZip d hashTypeConvertZiplist_ok[OF d(1)]
    by (simp add: hashTypeConvert_def finite_dom_map_of)
qed

lemma hashTypeDelete_ok:
  assumes "hash_wf ob"
  shows "\<exists>ob'. hashTypeDelete ob field = (ob', hash_map ob (str_bytes field) \<noteq> None) \<and> hash_wf ob' \<and>
    hash_map ob' = (hash_map ob)(str_bytes field := None)"
proof (cases ob)
  case (HashZip fs)
  then show ?thesis using assms zip_delete_ok[of fs "str_bytes field"] by (auto simp: hashTypeDelete_def Let_def fun_eq_iff)
next
  case (HashTable d)
  then show ?thesis using assms by (auto simp: hashTypeDelete_def Let_def fun_eq_iff)
qed

section \<open>The interface of a map\<close>

datatype 'a map_op = MSet 'a 'a | MDelete 'a | MGet 'a | MSize

datatype 'a map_answer = AFlag bool | AValue "'a option" | ASize nat

fun run_map_ops :: "('l \<Rightarrow> 's \<Rightarrow> 'a \<Rightarrow> 'a \<Rightarrow> ('s \<times> bool) option) \<Rightarrow> ('s \<Rightarrow> 'a \<Rightarrow> 's \<times> bool) \<Rightarrow> ('s \<Rightarrow> 'a \<Rightarrow> 'a option) \<Rightarrow>
    ('s \<Rightarrow> nat) \<Rightarrow> ('l \<times> 'a map_op) list \<Rightarrow> 's \<Rightarrow> ('s \<times> 'a map_answer list) option" where
  \<comment> \<open>every request with the limits that are configured then\<close>
  "run_map_ops st del get len [] s = Some (s, [])"
| "run_map_ops st del get len ((l, MSet f v) # ops) s =
     do { (s, b) \<leftarrow> st l s f v; (s, as) \<leftarrow> run_map_ops st del get len ops s; Some (s, AFlag b # as) }"
| "run_map_ops st del get len ((l, MDelete f) # ops) s =
     (case del s f of (s, b) \<Rightarrow> do { (s, as) \<leftarrow> run_map_ops st del get len ops s; Some (s, AFlag b # as) })"
| "run_map_ops st del get len ((l, MGet f) # ops) s =
     do { (s', as) \<leftarrow> run_map_ops st del get len ops s; Some (s', AValue (get s f) # as) }"
| "run_map_ops st del get len ((l, MSize) # ops) s =
     do { (s', as) \<leftarrow> run_map_ops st del get len ops s; Some (s', ASize (len s) # as) }"

fun spec_map_ops :: "'a map_op list \<Rightarrow> ('a \<rightharpoonup> 'a) \<Rightarrow> ('a \<rightharpoonup> 'a) \<times> 'a map_answer list" where
  \<comment> \<open>what a map answers\<close>
  "spec_map_ops [] m = (m, [])"
| "spec_map_ops (MSet f v # ops) m = (case spec_map_ops ops (m(f \<mapsto> v)) of (m', as) \<Rightarrow> (m', AFlag (m f \<noteq> None) # as))"
| "spec_map_ops (MDelete f # ops) m = (case spec_map_ops ops (m(f := None)) of (m', as) \<Rightarrow> (m', AFlag (m f \<noteq> None) # as))"
| "spec_map_ops (MGet f # ops) m = (case spec_map_ops ops m of (m', as) \<Rightarrow> (m', AValue (m f) # as))"
| "spec_map_ops (MSize # ops) m = (case spec_map_ops ops m of (m', as) \<Rightarrow> (m', ASize (card (dom m)) # as))"

locale map_impl =
  fixes rep :: "'s \<Rightarrow> ('a \<rightharpoonup> 'a) \<Rightarrow> bool"
    and st :: "'l \<Rightarrow> 's \<Rightarrow> 'a \<Rightarrow> 'a \<Rightarrow> ('s \<times> bool) option" and del :: "'s \<Rightarrow> 'a \<Rightarrow> 's \<times> bool"
    and get :: "'s \<Rightarrow> 'a \<Rightarrow> 'a option" and len :: "'s \<Rightarrow> nat"
  assumes st: "rep s m \<Longrightarrow> \<exists>s'. st l s f v = Some (s', m f \<noteq> None) \<and> rep s' (m(f \<mapsto> v))"
    and del: "rep s m \<Longrightarrow> \<exists>s'. del s f = (s', m f \<noteq> None) \<and> rep s' (m(f := None))"
    and get: "rep s m \<Longrightarrow> get s f = m f"
    and len: "rep s m \<Longrightarrow> len s = card (dom m)"
begin

lemma run_ops_ok:
  "rep s m \<Longrightarrow> \<exists>s'. run_map_ops st del get len ops s = Some (s', snd (spec_map_ops (map snd ops) m)) \<and>
    rep s' (fst (spec_map_ops (map snd ops) m))"
proof (induction ops arbitrary: s m)
  case (Cons p ops)
  obtain l q where p: "p = (l, q)" by (cases p)
  show ?case
  proof (cases q)
    case (MSet f v)
    obtain s' where "st l s f v = Some (s', m f \<noteq> None)" "rep s' (m(f \<mapsto> v))"
      using st[OF Cons.prems] by blast
    then show ?thesis using Cons.IH p MSet by (fastforce split: prod.split)
  next
    case (MDelete f)
    obtain s' where "del s f = (s', m f \<noteq> None)" "rep s' (m(f := None))" using del[OF Cons.prems] by blast
    then show ?thesis using Cons.IH p MDelete by (fastforce split: prod.split)
  next
    case (MGet f)
    then show ?thesis using Cons.IH[OF Cons.prems] get[OF Cons.prems] p by (fastforce split: prod.split)
  next
    case MSize
    then show ?thesis using Cons.IH[OF Cons.prems] len[OF Cons.prems] p by (fastforce split: prod.split)
  qed
qed simp

end

definition hash_rep :: "hash_obj \<Rightarrow> (string \<rightharpoonup> string) \<Rightarrow> bool" where
  "hash_rep ob m \<longleftrightarrow> hash_wf ob \<and> hash_map ob = m"

definition hash_store :: "nat \<times> nat \<Rightarrow> hash_obj \<Rightarrow> strobj \<Rightarrow> strobj \<Rightarrow> (hash_obj \<times> bool) option" where
  \<comment> \<open>the way \<open>HSET\<close> stores a field, under the limits on the length of values and the number of entries\<close>
  "hash_store l ob field v =
     do { ob \<leftarrow> hashTypeTryConversion (fst l) ob [field, v];
          hashTypeSet (snd l) ob (hashTypeTryObjectEncoding ob field) (hashTypeTryObjectEncoding ob v) }"

lemma try_encoding_bytes: "strobj_ok a \<Longrightarrow> str_bytes (hashTypeTryObjectEncoding ob a) = str_bytes a"
  using tryObjectEncoding_sound[of a] by (simp add: hashTypeTryObjectEncoding_def split: hash_obj.split)

lemma hash_store_ok:
  assumes "hash_wf ob" "strobj_ok field" "strobj_ok v"
  shows "\<exists>ob'. hash_store l ob field v = Some (ob', hash_map ob (str_bytes field) \<noteq> None) \<and> hash_wf ob' \<and>
    hash_map ob' = (hash_map ob)(str_bytes field \<mapsto> str_bytes v)"
proof -
  obtain ob' where o: "hashTypeTryConversion (fst l) ob [field, v] = Some ob'" "hash_wf ob'" "hash_map ob' = hash_map ob"
    using hashTypeTryConversion_ok[OF assms(1)] by blast
  show ?thesis
    using hashTypeSet_ok[OF o(2), of "snd l" "hashTypeTryObjectEncoding ob' field" "hashTypeTryObjectEncoding ob' v"] o(1,3)
      try_encoding_bytes[OF assms(2), of ob'] try_encoding_bytes[OF assms(3), of ob']
    by (simp add: hash_store_def)
qed

interpretation hashes: map_impl hash_rep "\<lambda>l ob f v. hash_store l ob (createStringObject f) (createStringObject v)"
    "\<lambda>ob f. hashTypeDelete ob (createStringObject f)" "\<lambda>ob f. hashTypeGet ob (createStringObject f)" hashTypeLength
proof
  have g: "strobj_ok (createStringObject b)" for b
    by (simp add: createStringObject_def createEmbeddedStringObject_def createRawStringObject_def)
  fix s m l f v assume r: "hash_rep s m"
  then have w: "hash_wf s" "hash_map s = m" by (simp_all add: hash_rep_def)
  show "\<exists>s'. hash_store l s (createStringObject f) (createStringObject v) = Some (s', m f \<noteq> None) \<and> hash_rep s' (m(f \<mapsto> v))"
    using hash_store_ok[OF w(1) g g, of l f v] w(2) by (simp add: hash_rep_def)
  show "\<exists>s'. hashTypeDelete s (createStringObject f) = (s', m f \<noteq> None) \<and> hash_rep s' (m(f := None))"
    using hashTypeDelete_ok[OF w(1), of "createStringObject f"] w(2) by (simp add: hash_rep_def)
  show "hashTypeGet s (createStringObject f) = m f" "hashTypeLength s = card (dom m)"
    using w hashTypeLength_card by simp_all
qed

section \<open>Every hash command keeps the dataset well formed\<close>

lemma obj_ok_hash [simp]: "obj_ok (HashObj x) \<longleftrightarrow> hash_wf x \<and> hash_map x \<noteq> Map.empty"
  by (simp add: hash_ok_iff)

declare obj_ok.simps(4) [simp del]

lemma length_zero: "hash_wf ob \<Longrightarrow> hashTypeLength ob = 0 \<longleftrightarrow> hash_map ob = Map.empty"
  using hashTypeLength_card[of ob] hash_finite[of ob] by simp

lemma hdel_loop_ok:
  assumes "hash_wf ob" "hash_map ob \<noteq> Map.empty"
  shows "\<exists>ob' n. hdel_loop xs ob d = (ob', n, hash_map ob' = Map.empty) \<and> hash_wf ob' \<and>
    n = d + card (dom (hash_map ob)) - card (dom (hash_map ob')) \<and> card (dom (hash_map ob')) \<le> card (dom (hash_map ob)) \<and>
    hash_map ob' = hash_map ob |` (- set xs)"
  using assms
proof (induction xs arbitrary: ob d)
  case Nil
  then show ?case by simp
next
  case (Cons a xs)
  obtain ob' where o: "hashTypeDelete ob (createStringObject a) = (ob', hash_map ob a \<noteq> None)" "hash_wf ob'"
    "hash_map ob' = (hash_map ob)(a := None)"
    using hashTypeDelete_ok[OF Cons.prems(1), of "createStringObject a"] by auto
  have r: "hash_map ob' |` (- set xs) = hash_map ob |` (- set (a # xs))"
    unfolding o(3) by (auto simp: fun_eq_iff restrict_map_def)
  show ?case
  proof (cases "hash_map ob a")
    case None
    then have "hash_map ob' = hash_map ob" unfolding o(3) by auto
    then show ?thesis using Cons.IH[OF o(2), of d] Cons.prems(2) o(1) None r by simp
  next
    case (Some v)
    have "a \<in> dom (hash_map ob)" "dom (hash_map ob') = dom (hash_map ob) - {a}" using Some o(3) by auto
    then have c: "card (dom (hash_map ob)) = Suc (card (dom (hash_map ob')))"
      using hash_finite[OF Cons.prems(1)] by (metis card.remove)
    show ?thesis
    proof (cases "hash_map ob' = Map.empty")
      case True
      then have "hash_map ob |` (- set (a # xs)) = Map.empty" using r by (simp add: restrict_map_def)
      then show ?thesis using o(1,2) Some c length_zero[OF o(2)] True by simp
    next
      case False
      then show ?thesis using Cons.IH[OF o(2) False, of "d + 1"] o(1) Some c length_zero[OF o(2)] r by auto
    qed
  qed
qed

fun arg_pairs :: "string list \<Rightarrow> (string \<times> string) list" where
  "arg_pairs (f # v # args) = (f, v) # arg_pairs args"
| "arg_pairs _ = []"

lemma hmset_loop_ok:
  "hash_wf ob \<Longrightarrow> \<exists>ob'. hmset_loop mx args ob = Some ob' \<and> hash_wf ob' \<and>
    hash_map ob' = hash_map ob ++ map_of (rev (arg_pairs args))"
proof (induction mx args ob rule: hmset_loop.induct)
  case (1 mx f v args ob)
  obtain ob' where o: "hashTypeSet mx ob (hashTypeTryObjectEncoding ob (createStringObject f))
      (hashTypeTryObjectEncoding ob (createStringObject v)) = Some (ob', hash_map ob f \<noteq> None)" "hash_wf ob'"
    "hash_map ob' = (hash_map ob)(f \<mapsto> v)"
    using hashTypeSet_ok[OF 1(2), of mx "hashTypeTryObjectEncoding ob (createStringObject f)"
      "hashTypeTryObjectEncoding ob (createStringObject v)"] by (auto simp: try_encoding_bytes[OF created_good(1)])
  obtain ob'' where i: "hmset_loop mx args ob' = Some ob''" "hash_wf ob''"
    "hash_map ob'' = (hash_map ob)(f \<mapsto> v) ++ map_of (rev (arg_pairs args))"
    using 1(1)[OF o(1) refl o(2)] unfolding o(3) by blast
  have "hmset_loop mx (f # v # args) ob = Some ob''" by (simp add: o(1) i(1))
  moreover have "(hash_map ob)(f \<mapsto> v) ++ map_of (rev (arg_pairs args)) = hash_map ob ++ map_of (rev (arg_pairs (f # v # args)))"
    by (simp only: arg_pairs.simps rev.simps map_of_append map_add_assoc map_of.simps fst_conv snd_conv map_add_upd map_add_empty)
  ultimately show ?case using i(2,3) by simp
qed simp_all

lemma put_ok:
  \<comment> \<open>an object that has been changed: the key goes when it is empty\<close>
  assumes "db_ok_but j key s"
  shows "obj_ok v \<Longrightarrow> db_ok (put j key v s)" "db_ok (fst (dbDelete j key (put j key v s)))"
proof -
  have j: "j < length (dbs s)" using assms by (simp add: db_ok_but_def okdb_less)
  have b: "db_ok_but j key (put j key v s)" using assms by simp
  show "obj_ok v \<Longrightarrow> db_ok (put j key v s)" by (rule but_done[OF b, of v]) (use j in \<open>simp_all add: put_val\<close>)
  show "db_ok (fst (dbDelete j key (put j key v s)))" by (rule but_delete[OF b])
qed

lemma create_hash:
  assumes "db_ok s" "okdb s (cdb (cl s c))" "hashTypeLookupWriteOrCreate c key s = (t, r)" "j = cdb (cl s c)"
  shows "r = None \<Longrightarrow> db_ok t"
    "r = Some ob \<Longrightarrow> db_ok_but j key t \<and> hash_wf ob \<and> ctx t = ctx s \<and> val_of t j key = Some (HashObj ob) \<and>
      (ob = HashZip [] \<or> (db_ok t \<and> hash_map ob \<noteq> Map.empty))"
proof -
  let ?u = "fst (lookupKeyWrite j key s)"
  have u: "db_ok ?u" "okdb ?u j" "ctx ?u = ctx s" using assms(1,2,4) by simp_all
  consider (none) "kept s j key key = None" | (hash) ob' where "kept s j key key = Some (HashObj ob')"
    | (wrong) "kept s j key key \<noteq> None" "\<And>x. kept s j key key \<noteq> Some (HashObj x)"
  proof (cases "kept s j key key")
    case (Some v)
    then show thesis using that by (cases v) simp_all
  qed
  then have "(r = None \<longrightarrow> db_ok t) \<and> (\<forall>ob. r = Some ob \<longrightarrow> db_ok_but j key t \<and> hash_wf ob \<and> ctx t = ctx s \<and>
      val_of t j key = Some (HashObj ob) \<and> (ob = HashZip [] \<or> (db_ok t \<and> hash_map ob \<noteq> Map.empty)))"
  proof cases
    case none
    then have "t = dbAdd j key (HashObj (HashZip [])) ?u" "r = Some (HashZip [])"
      using assms by (auto simp: hashTypeLookupWriteOrCreate_def Let_def case_prod_beta)
    moreover have "db_ok_but j key (dbAdd j key (HashObj (HashZip [])) ?u)"
      using u none assms by (intro but_add) simp_all
    ultimately show ?thesis using u okdb_less[OF u(2)] by simp
  next
    case hash
    then have "t = ?u" "r = Some ob'"
      using assms by (auto simp: hashTypeLookupWriteOrCreate_def Let_def case_prod_beta)
    moreover have "val_of ?u j key = Some (HashObj ob')" using hash assms by simp
    ultimately show ?thesis using u kept_some[OF assms(1) _ hash] assms(2,4) by simp
  next
    case wrong
    then obtain v where v: "kept s j key key = Some v" "\<not> is_hash v" by (metis is_hash.elims(2) not_None_eq)
    then have "t = addReply c wrongtypeerr ?u" "r = None"
      using assms by (auto simp: hashTypeLookupWriteOrCreate_def Let_def case_prod_beta split: robj.splits)
    then show ?thesis using u by simp
  qed
  then show "r = None \<Longrightarrow> db_ok t"
    "r = Some ob \<Longrightarrow> db_ok_but j key t \<and> hash_wf ob \<and> ctx t = ctx s \<and> val_of t j key = Some (HashObj ob) \<and>
      (ob = HashZip [] \<or> (db_ok t \<and> hash_map ob \<noteq> Map.empty))"
    by blast+
qed

lemma hash_changed_sel [simp]:
  "db_ok (hash_changed j key event s) = db_ok s"
  "db_ok_but i k (hash_changed j key event s) = db_ok_but i k s"
  by (simp_all add: hash_changed_def Let_def)

lemma map_upd_not_empty [simp]: "m(k \<mapsto> v) \<noteq> Map.empty"
  by (metis map_upd_nonempty)

lemma hsetCommand_ok:
  assumes "db_ok s" "okdb s (cdb (cl s c))"
  shows "db_ok (hsetCommand c s)"
proof -
  let ?j = "cdb (cl s c)" and ?key = "argv s c ! 1"
  obtain t r where l: "hashTypeLookupWriteOrCreate c ?key s = (t, r)" by fastforce
  note h = create_hash[OF assms l refl]
  show ?thesis
  proof (cases r)
    case None
    then show ?thesis using h(1) unfolding hsetCommand_def Let_def l prod.case None option.case by simp
  next
    case (Some ob)
    obtain ob' b where e: "hash_store (hash_max_ziplist_value t, hash_max_ziplist_entries t) ob
        (createStringObject (argv s c ! 2)) (createStringObject (argv s c ! 3)) = Some (ob', b)" "hash_wf ob'" "hash_map ob' \<noteq> Map.empty"
      using hash_store_ok[OF _ created_good(1) created_good(1)] h(2)[OF Some] by (metis map_upd_not_empty)
    have "db_ok (put_hash ?j ?key ob' t)" using put_ok(1)[of ?j ?key t "HashObj ob'"] h(2)[OF Some] e(2,3) by simp
    then show ?thesis unfolding hsetCommand_def Let_def l prod.case Some option.case
      using e(1) by (simp add: hash_store_def)
  qed
qed

lemma hsetnxCommand_ok:
  assumes "db_ok s" "okdb s (cdb (cl s c))"
  shows "db_ok (hsetnxCommand c s)"
proof -
  let ?j = "cdb (cl s c)" and ?key = "argv s c ! 1"
  obtain t r where l: "hashTypeLookupWriteOrCreate c ?key s = (t, r)" by fastforce
  note h = create_hash[OF assms l refl]
  show ?thesis
  proof (cases r)
    case None
    then show ?thesis using h(1) unfolding hsetnxCommand_def Let_def l prod.case None option.case by simp
  next
    case (Some ob)
    let ?f = "createStringObject (argv s c ! 2)" and ?v = "createStringObject (argv s c ! 3)"
    obtain x where x: "hashTypeTryConversion (hash_max_ziplist_value t) ob [?f, ?v] = Some x" "hash_wf x" "hash_map x = hash_map ob"
      using hashTypeTryConversion_ok h(2)[OF Some] by blast
    obtain y b where y: "hashTypeSet (hash_max_ziplist_entries t) x (hashTypeTryObjectEncoding x ?f) (hashTypeTryObjectEncoding x ?v) =
        Some (y, b)" "hash_wf y" "hash_map y \<noteq> Map.empty"
      using hashTypeSet_ok[OF x(2)] by (metis map_upd_not_empty)
    have p: "obj_ok (HashObj z) \<Longrightarrow> db_ok (put_hash ?j ?key z t)" for z using put_ok(1) h(2)[OF Some] by blast
    have "hashTypeExists x ?f \<Longrightarrow> hash_map x \<noteq> Map.empty" by auto
    then show ?thesis unfolding hsetnxCommand_def Let_def l prod.case Some option.case x(1) y(1)
      using p[of x] p[of y] x(2) y(2,3) by simp
  qed
qed

lemma hmsetCommand_ok:
  assumes "db_ok s" "okdb s (cdb (cl s c))" "4 \<le> length (argv s c)"
  shows "db_ok (hmsetCommand c s)"
proof -
  let ?j = "cdb (cl s c)" and ?key = "argv s c ! 1" and ?args = "drop 2 (argv s c)"
  obtain t r where l: "hashTypeLookupWriteOrCreate c ?key s = (t, r)" by fastforce
  note h = create_hash[OF assms(1,2) l refl]
  show ?thesis
  proof (cases r)
    case None
    then show ?thesis using h(1) assms(1) unfolding hmsetCommand_def Let_def l prod.case None option.case by simp
  next
    case (Some ob)
    obtain x where x: "hashTypeTryConversion (hash_max_ziplist_value t) ob (map createStringObject ?args) = Some x" "hash_wf x"
      using hashTypeTryConversion_ok h(2)[OF Some] by blast
    obtain y where y: "hmset_loop (hash_max_ziplist_entries t) ?args x = Some y" "hash_wf y"
      "hash_map y = hash_map x ++ map_of (rev (arg_pairs ?args))"
      using hmset_loop_ok[OF x(2)] by blast
    obtain f v as where "?args = f # v # as" using assms(3) by (cases ?args rule: arg_pairs.cases) (auto dest: arg_cong[where f = length])
    then have "map_of (rev (arg_pairs ?args)) f \<noteq> None" by (simp add: map_of_eq_None_iff)
    then have "hash_map y f \<noteq> None" unfolding y(3) by auto
    then have "hash_map y \<noteq> Map.empty" by auto
    then have "db_ok (put_hash ?j ?key y t)" using put_ok(1)[of ?j ?key t "HashObj y"] h(2)[OF Some] y(2) by simp
    then show ?thesis using assms(1) x(1) y(1) unfolding hmsetCommand_def Let_def l prod.case Some option.case by simp
  qed
qed

lemma hincrbyCommand_ok:
  assumes "db_ok s" "okdb s (cdb (cl s c))"
  shows "db_ok (hincrbyCommand c s)"
proof -
  let ?j = "cdb (cl s c)" and ?key = "argv s c ! 1" and ?f = "createStringObject (argv s c ! 2)"
  obtain u l where a: "getLongLongFromSdsOrReply c (argv s c ! 3) None s = (u, l)" by fastforce
  have uu: "u = fst (getLongLongFromSdsOrReply c (argv s c ! 3) None s)" using a by simp
  have u: "db_ok u" "okdb u (cdb (cl u c))" "cdb (cl u c) = ?j" using assms unfolding uu by simp_all
  obtain t r where b: "hashTypeLookupWriteOrCreate c ?key u = (t, r)" by fastforce
  note h = create_hash[OF u(1,2) b u(3)[symmetric]]
  consider (no) "l = None" | (err) "r = None" | (both) i ob where "l = Some i" "r = Some ob" by (cases l; cases r) auto
  then show ?thesis
  proof cases
    case no
    then show ?thesis using u(1) unfolding hincrbyCommand_def Let_def a no prod.case option.case by simp
  next
    case err
    show ?thesis
    proof (cases l)
      case None
      then show ?thesis using u(1) unfolding hincrbyCommand_def Let_def a None prod.case option.case by simp
    next
      case (Some i)
      then show ?thesis using h(1)[OF err] unfolding hincrbyCommand_def Let_def a Some prod.case option.case b err by simp
    qed
  next
    case both
    have set: "\<exists>y z. hashTypeSet m ob f v = Some (y, z) \<and> db_ok (put_hash ?j ?key y t)" for m f v
    proof -
      obtain y z where y: "hashTypeSet m ob f v = Some (y, z)" "hash_wf y" "hash_map y \<noteq> Map.empty"
        using hashTypeSet_ok[of ob] h(2)[OF both(2)] by (metis map_upd_not_empty)
      have "db_ok (put_hash ?j ?key y t)" using put_ok(1)[of ?j ?key t "HashObj y"] h(2)[OF both(2)] y(2,3) by simp
      then show ?thesis using y(1) by blast
    qed
    show ?thesis
    proof (cases "hashTypeGetObject ob ?f")
      case None
      obtain y z where y: "hashTypeSet (hash_max_ziplist_entries t) ob (hashTypeTryObjectEncoding ob ?f)
          (createStringObjectFromLongLong (s64 (0 + i))) = Some (y, z)" "db_ok (put_hash ?j ?key y t)" using set by blast
      show ?thesis using y(2) unfolding hincrbyCommand_def Let_def a b prod.case both option.case None y(1) by simp
    next
      case (Some w)
      have "hash_map ob \<noteq> Map.empty"
        using Some by (auto simp: hashTypeGetObject_def hashTypeGetFromZiplist_def hashTypeGetFromHashTable_def split: hash_obj.splits)
      then have t: "db_ok t" using h(2)[OF both(2)] by auto
      show ?thesis
      proof (cases "getLongLongFromObject (Some w)")
        case None
        then show ?thesis using t Some unfolding hincrbyCommand_def Let_def a b prod.case both option.case by simp
      next
        case v: (Some v)
        obtain y z where y: "hashTypeSet (hash_max_ziplist_entries t) ob (hashTypeTryObjectEncoding ob ?f)
            (createStringObjectFromLongLong (s64 (v + i))) = Some (y, z)" "db_ok (put_hash ?j ?key y t)" using set by blast
        show ?thesis using y(2) t unfolding hincrbyCommand_def Let_def a b prod.case both option.case Some v y(1) by simp
      qed
    qed
  qed
qed

lemma hdelCommand_ok:
  assumes "db_ok s" "okdb s (cdb (cl s c))"
  shows "db_ok (hdelCommand c s)"
proof (cases "kept s (cdb (cl s c)) (argv s c ! 1) (argv s c ! 1)")
  case None
  then show ?thesis using assms by (simp add: hdelCommand_def Let_def case_prod_beta)
next
  case (Some v)
  let ?j = "cdb (cl s c)" and ?key = "argv s c ! 1"
  show ?thesis
  proof (cases v)
    case (HashObj ob)
    obtain t w where l: "lookupKeyWriteOrReply c ?key shared_czero s = (t, w)" by fastforce
    have tw: "t = fst (lookupKeyWriteOrReply c ?key shared_czero s)" "w = snd (lookupKeyWriteOrReply c ?key shared_czero s)"
      using l by simp_all
    have t: "w = Some (HashObj ob)" "db_ok t" "okdb t ?j" "val_of t ?j ?key = Some (HashObj ob)"
      unfolding tw using assms Some HashObj by simp_all
    have ob: "hash_wf ob" "hash_map ob \<noteq> Map.empty" using kept_some[OF assms Some] HashObj by simp_all
    obtain ob' n where d: "hdel_loop (drop 2 (argv s c)) ob 0 = (ob', n, hash_map ob' = Map.empty)" "hash_wf ob'"
      using hdel_loop_ok[OF ob] by blast
    have b: "db_ok_but ?j ?key t" using t by simp
    note p = put_ok[OF b, of "HashObj ob'"]
    have av: "argv t c = argv s c" unfolding tw using assms by simp
    show ?thesis using p d(2) unfolding hdelCommand_def Let_def l prod.case t(1) option.case robj.case av d(1) by simp
  qed (use assms Some in \<open>simp_all add: hdelCommand_def Let_def case_prod_beta\<close>)
qed

lemma hashTypeNext_all_ok:
  assumes "hash_wf ob" "env_ok env"
  shows "length (hashTypeNext_all env ob) = hashTypeLength ob" "set (hashTypeNext_all env ob) = {(f, v). hash_map ob f = Some v}"
    "distinct (hashTypeNext_all env ob)"
proof -
  have v: "set (set_visit env 0 (dom d)) = dom d" "distinct (set_visit env 0 (dom d))" if "finite (dom d)" for d :: "string \<rightharpoonup> string"
    using env_okD[OF assms(2) that] by simp_all
  show "length (hashTypeNext_all env ob) = hashTypeLength ob"
    using assms(1) v distinct_card[OF v(2)] by (cases ob) (simp_all add: hashTypeNext_all_def hashTypeLength_def)
  show "set (hashTypeNext_all env ob) = {(f, v). hash_map ob f = Some v}"
    using assms(1) v by (cases ob) (auto simp: hashTypeNext_all_def map_of_eq_Some_iff image_iff)
  show "distinct (hashTypeNext_all env ob)"
    using assms(1) v by (cases ob) (auto simp: hashTypeNext_all_def distinct_map inj_on_def)
qed

lemma hash_reads_ok:
  assumes "db_ok s" "okdb s (cdb (cl s c))"
  shows "db_ok (hgetCommand c s)" "db_ok (hlenCommand c s)" "db_ok (hexistsCommand c s)" "db_ok (hmgetCommand c s)"
proof -
  have f: "db_ok (fold (addHashFieldToReply c ob) fs t) = db_ok t" for ob fs t
    by (induction fs arbitrary: t) (simp_all add: addHashFieldToReply_def)
  show "db_ok (hgetCommand c s)" "db_ok (hlenCommand c s)" "db_ok (hexistsCommand c s)" "db_ok (hmgetCommand c s)"
    using assms by (simp_all add: hgetCommand_def hlenCommand_def hexistsCommand_def hmgetCommand_def addHashFieldToReply_def f
        Let_def case_prod_beta split: option.split robj.split)
qed

lemma genericHgetallCommand_ok:
  assumes "db_ok s" "okdb s (cdb (cl s c))" "env_ok env"
  shows "db_ok (genericHgetallCommand env c keys vals s)"
proof -
  have "length (concat (map (\<lambda>(f, v). (if keys then [RBulk f] else []) @ (if vals then [RBulk v] else [])) fs)) =
      length fs * ((if keys then 1 else 0) + (if vals then 1 else 0))" for fs :: "(string \<times> string) list"
    by (induction fs) auto
  moreover have "hash_wf ob" if "kept s (cdb (cl s c)) (argv s c ! 1) (argv s c ! 1) = Some (HashObj ob)" for ob
    using kept_some[OF assms(1,2) that] by simp
  ultimately show ?thesis using assms(1,2) hashTypeNext_all_ok(1)[OF _ assms(3)]
    by (simp add: genericHgetallCommand_def Let_def case_prod_beta split: option.split robj.split)
qed

end
