(* ===== verification/SetProps.thy ===== *)
theory SetProps
  imports HashInv ListProps "HOL-Library.List_Lexorder" "HOL-Library.Char_ord"
begin

text \<open>
  Properties of the set and hash commands: every one of them keeps the dataset well formed, and intersection, union and
  difference reply what the operations on mathematical sets give, whatever the encodings of the sets are, whichever algorithm
  the code chooses and however \<open>qsort\<close> orders sets of the same size. The packed arrays behind sets of integers answer any
  history of requests like a set.
\<close>

section \<open>Every set and hash command keeps the dataset well formed\<close>

definition set_procs :: "set_env \<Rightarrow> (string \<times> (nat \<Rightarrow> server \<Rightarrow> server option)) list" where
  "set_procs env =
    [(''saddCommand'', \<lambda>c s. Some (saddCommand env c s)),
     (''sremCommand'', \<lambda>c s. Some (sremCommand env c s)),
     (''smoveCommand'', \<lambda>c s. Some (smoveCommand env c s)),
     (''sismemberCommand'', \<lambda>c s. Some (sismemberCommand c s)),
     (''scardCommand'', \<lambda>c s. Some (scardCommand c s)),
     (''spopCommand'', \<lambda>c s. Some (spopCommand env c s)),
     (''srandmemberCommand'', srandmemberCommand env),
     (''sinterCommand'', \<lambda>c s. Some (sinterCommand env c s)),
     (''sinterstoreCommand'', \<lambda>c s. Some (sinterstoreCommand env c s)),
     (''sunionCommand'', \<lambda>c s. Some (sunionCommand env c s)),
     (''sunionstoreCommand'', \<lambda>c s. Some (sunionstoreCommand env c s)),
     (''sdiffCommand'', \<lambda>c s. Some (sdiffCommand env c s)),
     (''sdiffstoreCommand'', \<lambda>c s. Some (sdiffstoreCommand env c s))]"

definition hash_procs :: "set_env \<Rightarrow> (string \<times> (nat \<Rightarrow> server \<Rightarrow> server option)) list" where
  "hash_procs env =
    map (\<lambda>(p, f). (p, \<lambda>c s. Some (f c s)))
    [(''hsetCommand'', hsetCommand), (''hsetnxCommand'', hsetnxCommand), (''hgetCommand'', hgetCommand),
     (''hmsetCommand'', hmsetCommand), (''hmgetCommand'', hmgetCommand), (''hincrbyCommand'', hincrbyCommand),
     (''hdelCommand'', hdelCommand), (''hlenCommand'', hlenCommand), (''hkeysCommand'', hkeysCommand env),
     (''hvalsCommand'', hvalsCommand env), (''hgetallCommand'', hgetallCommand env), (''hexistsCommand'', hexistsCommand)]"

definition min_args :: "string \<Rightarrow> nat" where
  \<comment> \<open>the number of arguments that the command table asks for\<close>
  "min_args p = (case List.find (\<lambda>(_, prc, _). prc = p) redisCommandTable of
     None \<Rightarrow> 0 | Some (_, _, ar, _) \<Rightarrow> nat \<bar>ar\<bar>)"

lemma min_args_set:
  "min_args ''saddCommand'' = 3" "min_args ''smoveCommand'' = 4" "min_args ''sinterCommand'' = 2"
  "min_args ''sinterstoreCommand'' = 3" "min_args ''hmsetCommand'' = 4"
  by code_simp+

lemma once_drop: "once s j xs \<Longrightarrow> once s j (drop n xs)"
proof -
  assume o: "once s j xs"
  have "count_list (drop n xs) k \<le> count_list xs k" for k
    using count_list_append[of "take n xs" "drop n xs" k] by simp
  then show ?thesis using o order_trans unfolding once_def by blast
qed

lemma once_smove:
  assumes "once s j (drop 1 xs)" "4 \<le> length xs"
  shows "xs ! 1 \<noteq> xs ! 2 \<or> exp_of s j (xs ! 1) = None"
proof -
  obtain a b c r where "xs = a # b # c # r" using assms(2) by (auto simp: numeral_eq_Suc Suc_le_length_iff)
  then show ?thesis using assms(1) onceD[of s j b "c # r"] by auto
qed

lemma set_procs_ok:
  assumes "(p, f) \<in> set (set_procs env)" "env_ok env" "min_args p \<le> length (argv s c)"
    and "db_ok s" "okdb s (cdb (cl s c))" "set_max_intset_entries s < 2 ^ 28"
    and "once s (cdb (cl s c)) (drop 1 (argv s c))" "f c s = Some r"
  shows "db_ok r"
proof -
  note d = assms(4,5)
  have two: "once s (cdb (cl s c)) (drop 2 (argv s c))" using once_drop[OF assms(7), of 1] by (simp add: numeral_2_eq_2)
  show "db_ok r" using assms(1,3,8)
    saddCommand_ok[OF d _ assms(6), of env] sremCommand_ok[OF d, of env] spopCommand_ok[OF d assms(2)]
    smoveCommand_ok[OF d assms(6), of env] once_smove[OF assms(7)] set_reads_ok[OF d]
    srandmemberCommand_ok[OF d assms(2,6)]
    sinterGenericCommand_ok[OF d assms(2,6), of "drop 1 (argv s c)" None]
    sinterGenericCommand_ok[OF d assms(2,6), of "drop 2 (argv s c)" "Some (argv s c ! 1)"]
    sunionDiffGenericCommand_ok[OF d assms(2,6,7), of None REDIS_OP_UNION]
    sunionDiffGenericCommand_ok[OF d assms(2,6,7), of None REDIS_OP_DIFF]
    sunionDiffGenericCommand_ok[OF d assms(2,6) two, of "Some (argv s c ! 1)" REDIS_OP_UNION]
    sunionDiffGenericCommand_ok[OF d assms(2,6) two, of "Some (argv s c ! 1)" REDIS_OP_DIFF]
    unfolding set_procs_def
    by (simp only: list.set insert_iff empty_iff prod.inject min_args_set sinterCommand_def sinterstoreCommand_def
        sunionCommand_def sunionstoreCommand_def sdiffCommand_def sdiffstoreCommand_def)
      (elim disjE; simp add: min_args_set)
qed

lemma hash_procs_ok:
  assumes "(p, f) \<in> set (hash_procs env)" "env_ok env" "min_args p \<le> length (argv s c)"
    and "db_ok s" "okdb s (cdb (cl s c))" "f c s = Some r"
  shows "db_ok r"
  using assms(1,3,6) hash_reads_ok[OF assms(4,5)] hsetCommand_ok[OF assms(4,5)] hsetnxCommand_ok[OF assms(4,5)]
    hincrbyCommand_ok[OF assms(4,5)] hdelCommand_ok[OF assms(4,5)] hmsetCommand_ok[OF assms(4,5)]
    genericHgetallCommand_ok[OF assms(4,5,2), of True False] genericHgetallCommand_ok[OF assms(4,5,2), of False True]
    genericHgetallCommand_ok[OF assms(4,5,2), of True True]
  unfolding hash_procs_def
  by (simp only: list.map prod.case list.set insert_iff empty_iff prod.inject hkeysCommand_def hvalsCommand_def hgetallCommand_def)
    (elim disjE; simp add: min_args_set)


section \<open>An environment and a server for the examples\<close>

definition plain_env :: set_env where
  "plain_env = \<lparr>set_junk = (\<lambda>_. 0), set_rand = (\<lambda>n. n),
     set_visit = (\<lambda>_ A. rev (sorted_list_of_set A)), set_pick = (\<lambda>_ A. Min A), set_qsort = (\<lambda>_ xs. rev xs)\<rparr>"

lemma plain_env_ok [simp]: "env_ok plain_env"
  by (simp add: env_ok_def plain_env_def)

definition set_server :: "string list \<Rightarrow> server" where
  \<comment> \<open>two sets in the two encodings, and client 0 with a request\<close>
  "set_server av = start_server\<lparr>
     dbs := empty_db\<lparr>kv := [''k'' \<mapsto> SetObj (HashSet {''1'', ''a'', ''b''}), ''l'' \<mapsto> SetObj (HashSet {''1'', ''c''})]\<rparr> #
       replicate 15 empty_db,
     cl := (\<lambda>_. no_client\<lparr>cargv := av\<rparr>)\<rparr>"

lemma set_server_fields:
  "val_of (set_server av) 0 = [''k'' \<mapsto> SetObj (HashSet {''1'', ''a'', ''b''}), ''l'' \<mapsto> SetObj (HashSet {''1'', ''c''})]"
  "exp_of (set_server av) 0 = Map.empty" "length (dbs (set_server av)) = 16" "cdb (cl (set_server av) c) = 0"
  "set_max_intset_entries (set_server av) = 512" "argv (set_server av) c = av" "creply (cl (set_server av) c) = []"
  by (simp_all add: set_server_def start_server_def val_of_def exp_of_def empty_db_def no_client_def)

lemma set_server_ok: "db_ok (set_server av)" "okdb (set_server av) 0"
proof -
  show "okdb (set_server av) 0" by (simp add: okdb_def set_server_fields)
  have "val_of (set_server av) j = Map.empty \<and> exp_of (set_server av) j = Map.empty" if "j < 16" "j \<noteq> 0" for j
    using that by (simp add: set_server_def val_of_def exp_of_def nth_Cons empty_db_def split: nat.split)
  moreover have "set_ok (HashSet A)" if "finite A" for A using that by (simp add: set_ok_def set_rep_def)
  moreover have "\<not> crashed (set_server av)" "\<not> cluster_enabled (set_server av)" by (simp_all add: set_server_def start_server_def)
  ultimately have "dom (exp_of (set_server av) j) \<subseteq> dom (val_of (set_server av) j) \<and> (\<forall>v \<in> ran (val_of (set_server av) j). obj_ok v)"
    if "j < 16" for j
    using that by (cases "j = 0") (auto simp: set_server_fields ran_def)
  then show "db_ok (set_server av)" using \<open>\<not> crashed _\<close> \<open>\<not> cluster_enabled _\<close>
    unfolding db_ok_def set_server_fields(3) by (intro conjI) (blast | simp)+
qed


section \<open>The algebra of sets\<close>

definition set_at :: "server \<Rightarrow> nat \<Rightarrow> string \<Rightarrow> set_obj option" where
  "set_at s j key = (case val_of s j key of Some (SetObj x) \<Rightarrow> Some x | _ \<Rightarrow> None)"

definition members_at :: "server \<Rightarrow> nat \<Rightarrow> string \<Rightarrow> string set" where
  \<comment> \<open>the members of the set that a key holds; a key that does not exist is an empty set\<close>
  "members_at s j key = members_opt (set_at s j key)"

definition plain_sets :: "server \<Rightarrow> nat \<Rightarrow> string list \<Rightarrow> bool" where
  \<comment> \<open>the keys hold sets or nothing, without an expire\<close>
  "plain_sets s j keys \<longleftrightarrow>
     list_all (\<lambda>k. exp_of s j k = None \<and> (case val_of s j k of None \<Rightarrow> True | Some v \<Rightarrow> is_set v)) keys"

lemma plain_set_val:
  assumes "plain_sets s j (k # ks)"
  shows "val_of s j k = map_option SetObj (set_at s j k)" "exp_of s j k = None" "plain_sets s j ks"
  using assms by (auto simp: plain_sets_def set_at_def is_set_iff split: option.splits)

lemma stats_only [simp]:
  "plain_sets (s\<lparr>stat_hits := h, stat_misses := m\<rparr>) j ks = plain_sets s j ks"
  "set_at (s\<lparr>stat_hits := h, stat_misses := m\<rparr>) j k = set_at s j k"
  by (simp_all add: plain_sets_def set_at_def)

lemma look_plain:
  assumes "plain_sets s j (k # ks)"
  shows "\<exists>h m. lookupKeyRead j k s = (s\<lparr>stat_hits := h, stat_misses := m\<rparr>, map_option SetObj (set_at s j k))"
proof -
  have kv: "kv (the_db s j) k = map_option SetObj (set_at s j k)" "expires (the_db s j) k = None"
    using plain_set_val[OF assms] by (simp_all add: val_of_def exp_of_def)
  have st: "s\<lparr>stat_hits := x\<rparr> = s\<lparr>stat_hits := x, stat_misses := stat_misses s\<rparr>"
    "s\<lparr>stat_misses := x\<rparr> = s\<lparr>stat_hits := stat_hits s, stat_misses := x\<rparr>" for x by simp_all
  show ?thesis unfolding lookup_no_expire(2)[OF kv(2)] kv(1)
    by (cases "set_at s j k") (simp_all only: option.map option.case, metis st, metis st)
qed

lemma union_lookup_plain:
  "plain_sets s j keys \<Longrightarrow>
    \<exists>h m. union_lookup False j keys s = (s\<lparr>stat_hits := h, stat_misses := m\<rparr>, Some (map (\<lambda>k. (k, set_at s j k)) keys))"
proof (induction keys arbitrary: s)
  case Nil
  show ?case by (rule exI[of _ "stat_hits s"], rule exI[of _ "stat_misses s"]) simp
next
  case (Cons k ks)
  obtain h m where l: "lookupKeyRead j k s = (s\<lparr>stat_hits := h, stat_misses := m\<rparr>, map_option SetObj (set_at s j k))"
    using look_plain[OF Cons.prems] by blast
  obtain h' m' where i: "union_lookup False j ks (s\<lparr>stat_hits := h, stat_misses := m\<rparr>) =
      (s\<lparr>stat_hits := h', stat_misses := m'\<rparr>, Some (map (\<lambda>k. (k, set_at s j k)) ks))"
    using Cons.IH[of "s\<lparr>stat_hits := h, stat_misses := m\<rparr>"] plain_set_val(3)[OF Cons.prems] by auto
  have "union_lookup False j (k # ks) s =
      (s\<lparr>stat_hits := h', stat_misses := m'\<rparr>, Some (map (\<lambda>k. (k, set_at s j k)) (k # ks)))"
    unfolding union_lookup.simps if_False l prod.case by (cases "set_at s j k") (simp_all add: i)
  then show ?case by blast
qed

lemma inter_lookup_plain:
  "plain_sets s j keys \<Longrightarrow>
    \<exists>h m. inter_lookup False j keys s = (s\<lparr>stat_hits := h, stat_misses := m\<rparr>,
      if list_all (\<lambda>k. set_at s j k \<noteq> None) keys then Found (map (\<lambda>k. (k, set_at s j k)) keys) else Missing)"
proof (induction keys arbitrary: s)
  case Nil
  show ?case by (rule exI[of _ "stat_hits s"], rule exI[of _ "stat_misses s"]) simp
next
  case (Cons k ks)
  obtain h m where l: "lookupKeyRead j k s = (s\<lparr>stat_hits := h, stat_misses := m\<rparr>, map_option SetObj (set_at s j k))"
    using look_plain[OF Cons.prems] by blast
  obtain h' m' where i: "inter_lookup False j ks (s\<lparr>stat_hits := h, stat_misses := m\<rparr>) =
      (s\<lparr>stat_hits := h', stat_misses := m'\<rparr>,
       if list_all (\<lambda>k. set_at s j k \<noteq> None) ks then Found (map (\<lambda>k. (k, set_at s j k)) ks) else Missing)"
    using Cons.IH[of "s\<lparr>stat_hits := h, stat_misses := m\<rparr>"] plain_set_val(3)[OF Cons.prems] by auto
  show ?case
  proof (cases "set_at s j k")
    case None
    then show ?thesis unfolding inter_lookup.simps if_False l prod.case by auto
  next
    case (Some x)
    have "inter_lookup False j (k # ks) s = (s\<lparr>stat_hits := h', stat_misses := m'\<rparr>,
        if list_all (\<lambda>k. set_at s j k \<noteq> None) (k # ks) then Found (map (\<lambda>k. (k, set_at s j k)) (k # ks)) else Missing)"
      unfolding inter_lookup.simps if_False l prod.case by (simp add: Some i)
    then show ?thesis by blast
  qed
qed

definition replies_set :: "reply list \<Rightarrow> reply list \<Rightarrow> string set \<Rightarrow> bool" where
  \<comment> \<open>one array with each member of the set once\<close>
  "replies_set before after A \<longleftrightarrow>
     (\<exists>bs. after = before @ RMulti (int (length bs)) # map RBulk bs \<and> distinct bs \<and> set bs = A)"

lemma replies_setI:
  "after = before @ RMulti n # map (\<lambda>e. RBulk (elem_bytes e)) es \<Longrightarrow> n = int (length es) \<Longrightarrow>
    distinct (map elem_bytes es) \<Longrightarrow> set (map elem_bytes es) = A \<Longrightarrow> replies_set before after A"
  unfolding replies_set_def by (intro exI[of _ "map elem_bytes es"]) (simp add: comp_def)

lemma plain_found:
  assumes "db_ok s" "okdb s j" "plain_sets s j keys"
  shows "sets_ok (map (\<lambda>k. (k, set_at s j k)) keys)" "all_live j (map (\<lambda>k. (k, set_at s j k)) keys) s"
proof -
  have v: "val_of s j k = map_option SetObj (set_at s j k)" if "k \<in> set keys" for k
    using assms(3) that by (fastforce simp: plain_sets_def list_all_iff set_at_def is_set_iff split: option.splits)
  have "set_ok x" if "k \<in> set keys" "set_at s j k = Some x" for k x
  proof -
    have "obj_ok (SetObj x)" using db_okD(3)[OF assms(1) okdb_less[OF assms(2)], of k] v[OF that(1)] that(2) by simp
    then show ?thesis by simp
  qed
  then show "sets_ok (map (\<lambda>k. (k, set_at s j k)) keys)" by (auto simp: sets_ok_def)
  show "all_live j (map (\<lambda>k. (k, set_at s j k)) keys) s"
    using v by (auto simp: all_live_def list_all_iff val_of_def)
qed

lemma all_live_stats: "all_live j sets (s\<lparr>stat_hits := h, stat_misses := m\<rparr>) = all_live j sets s"
  by (simp add: all_live_def)

lemma union_diff_reply:
  assumes "db_ok s" "okdb s (cdb (cl s c))" "env_ok env" "set_max_intset_entries s < 2 ^ 28"
    and "plain_sets s (cdb (cl s c)) keys" "keys \<noteq> []"
  shows "replies_set (creply (cl s c)) (creply (cl (sunionDiffGenericCommand env c keys None op s) c))
    (if op = REDIS_OP_UNION then \<Union>k \<in> set keys. members_at s (cdb (cl s c)) k
     else members_at s (cdb (cl s c)) (hd keys) - (\<Union>k \<in> set (tl keys). members_at s (cdb (cl s c)) k))"
    (is "replies_set _ _ ?A")
proof -
  let ?j = "cdb (cl s c)"
  define sets where "sets = map (\<lambda>k. (k, set_at s ?j k)) keys"
  obtain h m where l: "union_lookup False ?j keys s = (s\<lparr>stat_hits := h, stat_misses := m\<rparr>, Some sets)"
    using union_lookup_plain[OF assms(5)] by (auto simp: sets_def)
  let ?t = "s\<lparr>stat_hits := h, stat_misses := m\<rparr>"
  note p = plain_found[OF assms(1,2,5), folded sets_def]
  have live: "redisAssert (all_live ?j sets ?t) ?t = ?t" using p(2) by (simp add: all_live_stats)
  have mx: "set_max_intset_entries ?t < 2 ^ 28" using assms(4) by simp
  let ?r = "if op = REDIS_OP_UNION then union_loop env (set_max_intset_entries ?t) 0 sets (IntSet intsetNew) 0
      else diff_sets env (set_max_intset_entries ?t) sets"
  have "\<exists>ob. ?r = Some (ob, card ?A) \<and> set_rep ob ?A"
  proof (cases "op = REDIS_OP_UNION")
    case True
    have "(\<Union>(k, ob) \<in> set sets. members_opt ob) = ?A" using True by (auto simp: sets_def members_at_def)
    moreover have "\<forall>(k, ob) \<in> set sets. \<forall>x. ob = Some x \<longrightarrow> set_ok x" using p(1) by (auto simp: sets_ok_def)
    ultimately show ?thesis using True union_loop_ok[OF assms(3) _ mx set_rep_empty(1), of sets 0 0] by simp
  next
    case False
    obtain k0 ks where k: "keys = k0 # ks" using assms(6) by (cases keys) auto
    show ?thesis
    proof (cases "set_at s ?j k0")
      case None
      then show ?thesis using False k by (simp add: sets_def diff_sets_def members_at_def)
    next
      case (Some x)
      have s: "sets = (k0, Some x) # map (\<lambda>k. (k, set_at s ?j k)) ks" using Some by (simp add: sets_def k)
      have "members x - (\<Union>(k, ob) \<in> set (map (\<lambda>k. (k, set_at s ?j k)) ks). members_opt ob) = ?A"
        using False Some by (auto simp: members_at_def k)
      then show ?thesis using False diff_sets_ok[OF assms(3) p(1)[unfolded s] mx] by (simp add: s)
    qed
  qed
  then obtain ob where ob: "?r = Some (ob, card ?A)" "set_rep ob ?A" by blast
  obtain es where es: "setTypeNext_all env 0 ob = Some es" "set (map elem_bytes es) = ?A" "distinct (map elem_bytes es)"
    using setTypeNext_all_ok[OF ob(2) assms(3), of 0] by (auto simp: comp_def)
  have n: "((None :: string option) \<noteq> None) = False" by simp
  have "card ?A = length es" using distinct_card[OF es(3)] unfolding es(2) by simp
  moreover have "creply (cl (sunionDiffGenericCommand env c keys None op s) c) =
      creply (cl s c) @ RMulti (int (card ?A)) # map (\<lambda>e. RBulk (elem_bytes e)) es"
    unfolding sunionDiffGenericCommand_def Let_def n l prod.case option.case live ob(1) es(1) by (simp add: addReplies_creply)
  ultimately show ?thesis using es(2,3) by (intro replies_setI) simp_all
qed

lemma inter_reply:
  assumes "db_ok s" "okdb s (cdb (cl s c))" "env_ok env" "plain_sets s (cdb (cl s c)) keys" "keys \<noteq> []"
  shows "replies_set (creply (cl s c)) (creply (cl (sinterGenericCommand env c keys None s) c))
    (\<Inter>k \<in> set keys. members_at s (cdb (cl s c)) k)"
proof -
  let ?j = "cdb (cl s c)" and ?A = "\<Inter>k \<in> set keys. members_at s (cdb (cl s c)) k"
  define sets where "sets = map (\<lambda>k. (k, set_at s ?j k)) keys"
  obtain h m where l: "inter_lookup False ?j keys s = (s\<lparr>stat_hits := h, stat_misses := m\<rparr>,
      if list_all (\<lambda>k. set_at s ?j k \<noteq> None) keys then Found sets else Missing)"
    using inter_lookup_plain[OF assms(4)] by (auto simp: sets_def)
  show ?thesis
  proof (cases "list_all (\<lambda>k. set_at s ?j k \<noteq> None) keys")
    case False
    then have "?A = {}" by (force simp: list_all_iff members_at_def)
    moreover have "creply (cl (sinterGenericCommand env c keys None s) c) = creply (cl s c) @ [RMulti 0]"
      using False l by (simp add: sinterGenericCommand_def addReply_def)
    ultimately show ?thesis by (intro replies_setI[of _ _ 0 "[]"]) simp_all
  next
    case True
    have "\<forall>(k, ob) \<in> set sets. ob \<noteq> None" "sets \<noteq> []" using True assms(5) by (auto simp: sets_def list_all_iff)
    from inter_sets_ok[OF assms(3) plain_found(1)[OF assms(1,2,4), folded sets_def] this(2,1)]
    obtain es where es: "inter_sets env sets = Some es" "distinct (map elem_bytes es)"
      "set (map elem_bytes es) = (\<Inter>(k, ob) \<in> set sets. members_opt ob)" by blast
    have a: "set (map elem_bytes es) = ?A" unfolding es(3) by (auto simp: sets_def members_at_def)
    have "creply (cl (sinterGenericCommand env c keys None s) c) =
        creply (cl s c) @ RMulti (int (length es)) # map (\<lambda>e. RBulk (elem_bytes e)) es"
      using True l es(1) by (simp add: sinterGenericCommand_def addReplies_creply)
    then show ?thesis using es(2) a by (intro replies_setI) simp_all
  qed
qed

text \<open>C11: \<open>SINTER\<close>, \<open>SUNION\<close> and \<open>SDIFF\<close> reply the intersection, the union and the difference of the members of the sets
  that the keys hold, each member once, whatever the two encodings of the sets are, whichever of the two algorithms
  for the difference is chosen, however \<open>qsort\<close> leaves sets that compare equal, and when keys are missing or named twice.\<close>

theorem set_algebra:
  assumes "db_ok s" "okdb s j" "j = cdb (cl s c)" "env_ok env" "set_max_intset_entries s < 2 ^ 28"
    and "argv s c = cmd # key # keys" "plain_sets s j (key # keys)"
  shows "replies_set (creply (cl s c)) (creply (cl (sinterCommand env c s) c)) (\<Inter>k \<in> set (key # keys). members_at s j k) \<and>
    replies_set (creply (cl s c)) (creply (cl (sunionCommand env c s) c)) (\<Union>k \<in> set (key # keys). members_at s j k) \<and>
    replies_set (creply (cl s c)) (creply (cl (sdiffCommand env c s) c))
      (members_at s j key - (\<Union>k \<in> set keys. members_at s j k))"
proof -
  note ok = assms(1) assms(2)[unfolded assms(3)] assms(4)
  note p = assms(7)[unfolded assms(3)]
  show ?thesis
    using inter_reply[OF ok p] union_diff_reply[OF ok assms(5) p, of REDIS_OP_UNION]
      union_diff_reply[OF ok assms(5) p, of REDIS_OP_DIFF]
    by (simp add: sinterCommand_def sunionCommand_def sdiffCommand_def assms(3,6))
qed

theorem set_algebra_witness:
  "replies_set [] (creply (cl (sdiffCommand plain_env 0 (set_server [''SDIFF'', ''k'', ''l'', ''none''])) 0)) {''a'', ''b''}"
proof -
  let ?s = "set_server [''SDIFF'', ''k'', ''l'', ''none'']"
  have p: "plain_sets ?s 0 [''k'', ''l'', ''none'']" by (simp add: plain_sets_def set_server_fields)
  have m: "members_at ?s 0 ''k'' = {''1'', ''a'', ''b''}" "members_at ?s 0 ''l'' = {''1'', ''c''}" "members_at ?s 0 ''none'' = {}"
    by (simp_all add: members_at_def set_at_def set_server_fields)
  have "{''1'', ''a'', ''b''} - ({''1'', ''c''} \<union> {}) = {''a'', ''b''}" by auto
  then show ?thesis
    using set_algebra[OF set_server_ok(1,2) _ plain_env_ok _ _ p, of 0 "''SDIFF''"]
    by (simp add: set_server_fields m)
qed

section \<open>Packed arrays of integers\<close>

text \<open>C13: the packed arrays behind sets of integers implement sets: any sequence of at most \<open>2 ^ 29 - 1\<close> additions, removals and
  searches on a new array ends, reads and writes within the block and within 32-bit sizes, and gives the answers of a
  mathematical set, through every upgrade of the width of the elements and whatever the new memory holds.\<close>

theorem intset_implements_set:
  assumes "length ops < 2 ^ 29" "list_all (in_ll \<circ> op_elem) ops"
  shows "\<exists>is vs. run_ops (intsetAdd junk) (intsetRemove junk) intsetFind ops intsetNew = Some (is, snd (spec_ops ops {})) \<and>
    intset_rep is vs \<and> set vs = fst (spec_ops ops {})"
proof -
  have r: "intset_of intsetNew {}" unfolding intset_of_def using intset_rep_new by fastforce
  have g: "\<forall>e \<in> op_elem ` set ops. fits 8 e" using assms(2) by (simp add: list_all_iff fits_8)
  have "card (op_elem ` set ops) \<le> length ops"
    using card_image_le[of "set ops" op_elem] card_length[of ops] by simp
  then have c: "finite ({} \<union> id ` op_elem ` set ops) \<and> card ({} \<union> id ` op_elem ` set ops) < 2 ^ 29" using assms(1) by simp
  have id: "map (map_set_op id) ops = ops" by (simp add: set_op.map_id0)
  show ?thesis using ints.run_ops_ok[OF r g c, of junk] unfolding id by (auto simp: intset_of_def)
qed

theorem intset_implements_set_witness:
  "\<exists>is. run_ops (intsetAdd (\<lambda>_. 0)) (intsetRemove (\<lambda>_. 0)) intsetFind
     [OpAdd 1, OpAdd 70000, OpAdd (- 1), OpRemove 1, OpFind 70000, OpFind 1] intsetNew =
     Some (is, [True, True, True, True, True, False]) \<and> (\<exists>vs. intset_rep is vs \<and> set vs = {- 1, 70000})"
  using intset_implements_set[of "[OpAdd 1, OpAdd 70000, OpAdd (- 1), OpRemove 1, OpFind 70000, OpFind 1]" "\<lambda>_. 0"]
  by (simp add: insert_commute)

section \<open>A set that is freed while it is used\<close>

text \<open>\<open>SUNION\<close> and \<open>SDIFF\<close> with the same key twice look the key up twice, each time against a new reading of the clock.
  When the key expires in between, the second lookup deletes the set that the first one has put into the array, and the
  command goes on with the freed set.\<close>

lemma sunion_expired_between:
  assumes "argv s c = [cmd, key, key]" "j = cdb (cl s c)" "j < length (dbs s)" "\<not> loading s" "masterhost s = None" "\<not> in_lua s"
    and "val_of s j key = Some (SetObj x)" "exp_of s j key = Some t" "0 \<le> t"
    and "clk s (clk_reads s) \<le> t" "t < clk s (clk_reads s + 1)"
  shows "crashed (sunionDiffGenericCommand env c [key, key] None op s)"
proof -
  let ?u = "s\<lparr>clk_reads := Suc (clk_reads s)\<rparr>" and ?v = "s\<lparr>clk_reads := Suc (clk_reads s), stat_hits := stat_hits s + 1\<rparr>"
  have kv: "kv (the_db s j) key = Some (SetObj x)" "expires (the_db s j) key = Some t"
    using assms(7,8) by (simp_all add: val_of_def exp_of_def)
  have "expireIfNeeded j key s = (?u, False)"
    using assms(4-6,9,10) kv by (simp add: expireIfNeeded_def getExpire_def mstime_def)
  then have l1: "lookupKeyRead j key s = (?v, Some (SetObj x))"
    using kv by (simp add: lookupKeyRead_def lookupKey_def)
  have ex: "expired_at ?v j key" using assms by (simp add: expired_at_def time_now_def exp_of_def)
  have "val_of (fst (lookupKeyRead j key ?v)) j key = None" "snd (lookupKeyRead j key ?v) = None"
    using ex assms(3) by (simp_all add: kept_def)
  then obtain u where u: "lookupKeyRead j key ?v = (u, None)" "kv (the_db u j) key = None"
    by (metis prod.collapse val_of_def)
  have l: "union_lookup False j [key, key] s = (u, Some [(key, Some x), (key, None)])" by (simp add: l1 u(1))
  have n: "((None :: string option) \<noteq> None) = False" by simp
  have "crashed (redisAssert (all_live j [(key, Some x), (key, None)] u) u)"
    using u(2) by (simp add: all_live_def redisAssert_def)
  then show ?thesis
    unfolding sunionDiffGenericCommand_def Let_def n assms(2)[symmetric] l prod.case option.case
    by (simp split: option.split prod.split)
qed

end
