(* ===== verification/HashProps.thy ===== *)
theory HashProps
  imports SetProps
begin

text \<open>
  Properties of the hash commands: the two encodings and the conversion between them cannot be told from the
  answers, and the commands that change a hash do what they promise to its fields.
\<close>

section \<open>Parsing the notation of an integer\<close>

lemma foldl_dec: "foldl (\<lambda>n c. n * 10 + digit_val c) 0 (dec n) = int n"
proof (induction n rule: dec.induct)
  case (1 n)
  have d: "digit_val (digit_char k) = int k" if "k < 10" for k using that by (simp add: digit_val_def of_char_int_nat)
  show ?case
  proof (cases "n < 10")
    case True
    then show ?thesis by (simp add: dec.simps[of n] d)
  next
    case False
    then have "foldl (\<lambda>n c. n * 10 + digit_val c) 0 (dec n) = int (n div 10) * 10 + int (n mod 10)"
      using 1 by (simp add: dec.simps[of n] d)
    also have "\<dots> = int (n div 10 * 10 + n mod 10)" by (simp only: of_nat_add of_nat_mult of_nat_numeral)
    finally show ?thesis by simp
  qed
qed

lemma takeWhile_dec: "takeWhile is_digit (dec n) = dec n" "dropWhile is_digit (dec n) = []"
  using dec_digits[of _ n] by (simp_all add: takeWhile_eq_all_conv)

lemma dec_first: "\<exists>c cs. dec n = c # cs \<and> is_digit c"
  using dec_digits[of _ n] by (cases "dec n") simp_all

lemma digit_not_space: "is_digit c \<Longrightarrow> \<not> c_isspace c \<and> c \<noteq> CHR ''-'' \<and> c \<noteq> CHR ''+''"
  by (auto simp: is_digit_def c_isspace_def)

lemma strtoll_dec: "in_ll v \<Longrightarrow> strtoll (dec_int v) = (v, [], False)"
proof -
  assume v: "in_ll v"
  obtain c cs where c: "dec (nat \<bar>v\<bar>) = c # cs" "is_digit c" using dec_first by blast
  have sp: "\<not> c_isspace (CHR ''-'')" by (simp add: c_isspace_def)
  have f: "foldl (\<lambda>n c. n * 10 + digit_val c) 0 (c # cs) = \<bar>v\<bar>" using foldl_dec[of "nat \<bar>v\<bar>"] unfolding c(1) by simp
  have t: "takeWhile is_digit (c # cs) = c # cs" "dropWhile is_digit (c # cs) = []"
    using takeWhile_dec[of "nat \<bar>v\<bar>"] unfolding c(1) by simp_all
  show ?thesis
  proof (cases "v < 0")
    case True
    then have d: "dec_int v = CHR ''-'' # c # cs" using c(1) by (simp add: dec_int_def)
    show ?thesis using v True sp f t unfolding d strtoll_def by (simp add: Let_def)
  next
    case False
    then have d: "dec_int v = c # cs" using c(1) by (simp add: dec_int_def)
    show ?thesis using v False digit_not_space[OF c(2)] f t unfolding d strtoll_def by (simp add: Let_def)
  qed
qed

lemma getLongLong_dec: "in_ll v \<Longrightarrow> getLongLongFromSds (dec_int v) = Some v"
proof -
  assume v: "in_ll v"
  obtain c cs where "dec_int v = c # cs" "\<not> c_isspace c"
  proof (cases "v < 0")
    case True
    have "\<not> c_isspace (CHR ''-'')" by (simp add: c_isspace_def)
    then show thesis using that True by (simp add: dec_int_def)
  next
    case False
    then show thesis using that dec_first[of "nat v"] digit_not_space by (auto simp: dec_int_def)
  qed
  then show ?thesis using strtoll_dec[OF v] by (simp add: getLongLongFromSds_def)
qed

lemma getLongLong_arg: "getLongLongFromObject (Some (arg_obj b)) = getLongLongFromSds b"
proof (cases "arg_obj b")
  case (SInt v)
  then have "in_ll v" "b = dec_int v" using tryObjectEncoding_sound[OF created_good(1), of b v] by simp_all
  then show ?thesis using getLongLong_dec SInt by simp
qed (use arg_obj_good(2)[of b] in simp_all)

section \<open>The encodings cannot be told apart\<close>

definition hash_requests :: "((nat \<times> nat) \<times> string map_op) list \<Rightarrow> hash_obj \<Rightarrow> (hash_obj \<times> string map_answer list) option" where
  \<comment> \<open>what a history of requests to one hash answers, each under the limits that are configured at that time\<close>
  "hash_requests =
     run_map_ops (\<lambda>l ob f v. hash_store l ob (createStringObject f) (createStringObject v))
       (\<lambda>ob f. hashTypeDelete ob (createStringObject f)) (\<lambda>ob f. hashTypeGet ob (createStringObject f)) hashTypeLength"

text \<open>C14: a hash answers any history of insertions, updates, deletions, lookups and sizes like a finite map from fields to
  values, whatever the limits are under which each request converts the ziplist to a hash table, so that the encoding
  cannot be told from the answers; no assertion fails, and the object stays well formed.\<close>

theorem hash_encodings_invisible:
  "\<exists>ob. hash_requests ops (HashZip []) = Some (ob, snd (spec_map_ops (map snd ops) Map.empty)) \<and>
    hash_wf ob \<and> hash_map ob = fst (spec_map_ops (map snd ops) Map.empty)"
proof -
  have "hash_rep (HashZip []) Map.empty" by (simp add: hash_rep_def)
  from hashes.run_ops_ok[OF this, of ops] show ?thesis by (simp add: hash_requests_def hash_rep_def)
qed

section \<open>The commands that change a hash\<close>

definition hash_at :: "server \<Rightarrow> nat \<Rightarrow> string \<Rightarrow> (string \<rightharpoonup> string)" where
  \<comment> \<open>the fields of the hash that a key holds; a key that does not exist is an empty hash\<close>
  "hash_at s j key = (case val_of s j key of Some (HashObj ob) \<Rightarrow> hash_map ob | _ \<Rightarrow> Map.empty)"

definition plain_hash :: "server \<Rightarrow> nat \<Rightarrow> string \<Rightarrow> bool" where
  \<comment> \<open>the key holds a hash or nothing, without an expire\<close>
  "plain_hash s j key \<longleftrightarrow> exp_of s j key = None \<and> (case val_of s j key of None \<Rightarrow> True | Some v \<Rightarrow> is_hash v)"

lemma create_plain:
  assumes "db_ok s" "okdb s j" "j = cdb (cl s c)" "plain_hash s j key" "notify_keyspace_events s = 0"
  shows "\<exists>t ob. hashTypeLookupWriteOrCreate c key s = (t, Some ob) \<and> hash_wf ob \<and> hash_map ob = hash_at s j key \<and>
    j < length (dbs t) \<and> notify_keyspace_events t = 0 \<and> creply (cl t c) = creply (cl s c)"
proof -
  have e: "expires (the_db s j) key = None" using assms(4) by (simp add: plain_hash_def exp_of_def)
  have l: "lookupKeyWrite j key s = (s, val_of s j key)" using lookup_no_expire(1)[OF e] by (simp add: val_of_def)
  show ?thesis
  proof (cases "val_of s j key")
    case None
    then show ?thesis using l assms okdb_less[OF assms(2)]
      by (simp add: hashTypeLookupWriteOrCreate_def Let_def hash_at_def)
  next
    case (Some v)
    then obtain ob where v: "v = HashObj ob" using assms(4) by (cases v) (auto simp: plain_hash_def)
    have "obj_ok (HashObj ob)" using db_okD(3)[OF assms(1) okdb_less[OF assms(2)] Some] v by simp
    then show ?thesis using l assms okdb_less[OF assms(2)] Some v
      by (simp add: hashTypeLookupWriteOrCreate_def Let_def hash_at_def)
  qed
qed

lemma hash_changed_plain:
  assumes "j < length (dbs t)" "notify_keyspace_events t = 0"
  shows "hash_at (hash_changed j key event (addReply c r (put_hash j key ob t))) j key = hash_map ob"
    "creply (cl (hash_changed j key event (addReply c r (put_hash j key ob t))) c) = creply (cl t c) @ [r]"
  using assms by (simp_all add: hash_changed_def Let_def signalModifiedKey_def hash_at_def put_val addReply_def)

lemma hset_plain:
  assumes "db_ok s" "okdb s j" "j = cdb (cl s c)" "plain_hash s j key" "notify_keyspace_events s = 0"
    and "argv s c = [cmd, key, f, v]"
  shows "hash_at (hsetCommand c s) j key = (hash_at s j key)(f \<mapsto> v)"
    "creply (cl (hsetCommand c s) c) = creply (cl s c) @ [RInt (if hash_at s j key f = None then 1 else 0)]"
proof -
  obtain t ob where l: "hashTypeLookupWriteOrCreate c key s = (t, Some ob)" "hash_wf ob" "hash_map ob = hash_at s j key"
    "j < length (dbs t)" "notify_keyspace_events t = 0" "creply (cl t c) = creply (cl s c)"
    using create_plain[OF assms(1-5)] by blast
  obtain y where y: "hash_store (hash_max_ziplist_value t, hash_max_ziplist_entries t) ob (createStringObject f)
      (createStringObject v) = Some (y, hash_at s j key f \<noteq> None)" "hash_map y = (hash_at s j key)(f \<mapsto> v)"
    using hash_store_ok[OF l(2) created_good(1) created_good(1), of _ f v] l(3) by auto
  have "hsetCommand c s = hash_changed j key ''hset''
      (addReply c (RInt (if hash_at s j key f = None then 1 else 0)) (put_hash j key y t))"
    using l(1) y(1) assms(3,6) by (simp add: hsetCommand_def Let_def hash_store_def)
  then show "hash_at (hsetCommand c s) j key = (hash_at s j key)(f \<mapsto> v)"
    "creply (cl (hsetCommand c s) c) = creply (cl s c) @ [RInt (if hash_at s j key f = None then 1 else 0)]"
    using hash_changed_plain[OF l(4,5)] y(2) l(6) by simp_all
qed

lemma getObject_value:
  assumes "hash_map ob f = Some w"
  shows "\<exists>x. hashTypeGetObject ob (createStringObject f) = Some x \<and> getLongLongFromObject (Some x) = getLongLongFromSds w"
proof (cases ob)
  case (HashTable d)
  then show ?thesis using assms getLongLong_arg[of w] by (simp add: hashTypeGetObject_def hashTypeGetFromHashTable_def)
next
  case (HashZip fs)
  then have m: "map_of fs f = Some w" using assms by simp
  show ?thesis
  proof (cases "string2ll w")
    case None
    have "getLongLongFromObject (Some (createStringObject w)) = getLongLongFromSds w"
      by (simp add: createStringObject_def createEmbeddedStringObject_def createRawStringObject_def)
    then show ?thesis using HashZip m None by (simp add: hashTypeGetObject_def hashTypeGetFromZiplist_def)
  next
    case (Some v)
    then have v: "in_ll v" "w = dec_int v" by (simp_all add: string2ll_iff)
    then have "getLongLongFromObject (Some (createStringObjectFromLongLong v)) = getLongLongFromSds w"
      using getLongLong_dec by (simp add: createStringObjectFromLongLong_def)
    then show ?thesis using HashZip m Some by (simp add: hashTypeGetObject_def hashTypeGetFromZiplist_def)
  qed
qed

lemma hincrby_plain:
  assumes "db_ok s" "okdb s j" "j = cdb (cl s c)" "plain_hash s j key" "notify_keyspace_events s = 0"
    and "argv s c = [cmd, key, f, v]" "getLongLongFromSds v = Some i"
    and "(case hash_at s j key f of None \<Rightarrow> Some 0 | Some w \<Rightarrow> getLongLongFromSds w) = Some n" "in_ll (n + i)"
  shows "hash_at (hincrbyCommand c s) j key = (hash_at s j key)(f \<mapsto> dec_int (n + i))"
    "creply (cl (hincrbyCommand c s) c) = creply (cl s c) @ [RInt (n + i)]"
proof -
  obtain t ob where l: "hashTypeLookupWriteOrCreate c key s = (t, Some ob)" "hash_wf ob" "hash_map ob = hash_at s j key"
    "j < length (dbs t)" "notify_keyspace_events t = 0" "creply (cl t c) = creply (cl s c)"
    using create_plain[OF assms(1-5)] by blast
  have a: "getLongLongFromSdsOrReply c v None s = (s, Some i)" using assms(7) by (simp add: getLongLongFromSdsOrReply_def)
  have n: "(case hashTypeGetObject ob (createStringObject f) of None \<Rightarrow> Some 0
      | Some current \<Rightarrow> getLongLongFromObject (Some current)) = Some n"
  proof (cases "hash_at s j key f")
    case None
    then have "hashTypeGetObject ob (createStringObject f) = None" using l(3)
      by (cases ob) (simp_all add: hashTypeGetObject_def hashTypeGetFromHashTable_def hashTypeGetFromZiplist_def)
    then show ?thesis using None assms(8) by simp
  next
    case (Some w)
    then show ?thesis using getObject_value[of ob f w] l(3) assms(8) by auto
  qed
  have i: "\<not> ((i < 0 \<and> n < 0 \<and> i < LLONG_MIN - n) \<or> (i > 0 \<and> n > 0 \<and> i > LLONG_MAX - n))" "s64 (n + i) = n + i"
    using assms(9) by (auto simp: s64_id)
  obtain y z where y: "hashTypeSet (hash_max_ziplist_entries t) ob (hashTypeTryObjectEncoding ob (createStringObject f))
      (createStringObjectFromLongLong (n + i)) = Some (y, z)" "hash_map y = (hash_at s j key)(f \<mapsto> dec_int (n + i))"
    using hashTypeSet_ok[OF l(2), of "hash_max_ziplist_entries t" "hashTypeTryObjectEncoding ob (createStringObject f)"
      "createStringObjectFromLongLong (n + i)"] l(3) assms(9) try_encoding_bytes[OF created_good(1), of ob f] by auto
  have "hincrbyCommand c s = hash_changed j key ''hincrby'' (addReply c (RInt (n + i)) (put_hash j key y t))"
    unfolding hincrbyCommand_def Let_def using assms(3,6) by (simp add: a l(1) n i y(1) del: de_Morgan_disj de_Morgan_conj)
  then show "hash_at (hincrbyCommand c s) j key = (hash_at s j key)(f \<mapsto> dec_int (n + i))"
    "creply (cl (hincrbyCommand c s) c) = creply (cl s c) @ [RInt (n + i)]"
    using hash_changed_plain[OF l(4,5)] y(2) l(6) by simp_all
qed

lemma hdel_plain:
  assumes "db_ok s" "okdb s j" "j = cdb (cl s c)" "plain_hash s j key" "notify_keyspace_events s = 0"
    and "argv s c = cmd # key # fs"
  shows "hash_at (hdelCommand c s) j key = hash_at s j key |` (- set fs)"
    "val_of (hdelCommand c s) j key = None \<longleftrightarrow> hash_at s j key |` (- set fs) = Map.empty"
    "creply (cl (hdelCommand c s) c) = creply (cl s c) @ [RInt (int (card (dom (hash_at s j key) \<inter> set fs)))]"
proof -
  have j: "j < length (dbs s)" using assms(2) by (rule okdb_less)
  have e: "expires (the_db s j) key = None" using assms(4) by (simp add: plain_hash_def exp_of_def)
  have l: "lookupKeyWriteOrReply c key (RInt 0) s = (if val_of s j key = None then addReply c (RInt 0) s else s, val_of s j key)"
    using lookup_no_expire(1)[OF e] assms(3) by (simp add: lookupKeyWriteOrReply_def val_of_def)
  have "hash_at (hdelCommand c s) j key = hash_at s j key |` (- set fs) \<and>
    (val_of (hdelCommand c s) j key = None \<longleftrightarrow> hash_at s j key |` (- set fs) = Map.empty) \<and>
    creply (cl (hdelCommand c s) c) = creply (cl s c) @ [RInt (int (card (dom (hash_at s j key) \<inter> set fs)))]"
  proof (cases "val_of s j key")
    case None
    then show ?thesis using assms(3,6) by (simp add: hdelCommand_def Let_def l hash_at_def addReply_def restrict_map_def)
  next
    case (Some v)
    then obtain ob where v: "v = HashObj ob" using assms(4) by (cases v) (auto simp: plain_hash_def)
    have ok: "hash_wf ob" "hash_map ob \<noteq> Map.empty" using db_okD(3)[OF assms(1) j Some] v by simp_all
    have m: "hash_at s j key = hash_map ob" using Some v by (simp add: hash_at_def)
    obtain y n where d: "hdel_loop fs ob 0 = (y, n, hash_map y = Map.empty)" "hash_wf y"
      "n = card (dom (hash_map ob)) - card (dom (hash_map y))" "card (dom (hash_map y)) \<le> card (dom (hash_map ob))"
      "hash_map y = hash_map ob |` (- set fs)" using hdel_loop_ok[OF ok, of fs 0] by auto
    have n: "n = card (dom (hash_map ob) \<inter> set fs)"
    proof -
      have f: "finite (dom (hash_map ob))" using hash_finite[OF ok(1)] .
      have "dom (hash_map y) = dom (hash_map ob) - set fs" unfolding d(5) by auto
      then show ?thesis using card_Int_Diff[OF f, of "set fs"] d(3) by simp
    qed
    define t where "t = put_hash j key y s"
    have t: "j < length (dbs t)" "val_of t j = (val_of s j)(key \<mapsto> HashObj y)" "notify_keyspace_events t = 0"
      "creply (cl t c) = creply (cl s c)" using j assms(5) by (simp_all add: t_def put_val) (simp add: val_of_def)
    define u where "u = (if hash_map y = Map.empty then fst (dbDelete j key t) else t)"
    have u: "val_of u j key = (if hash_map y = Map.empty then None else Some (HashObj y))" "notify_keyspace_events u = 0"
      "creply (cl u c) = creply (cl s c)" using t by (simp_all add: u_def)
    have "hdelCommand c s = addReply c (RInt (int n))
        (if n \<noteq> 0 then (touchWatchedKey j key u)\<lparr>dirty := dirty (touchWatchedKey j key u) + int n\<rparr> else u)"
      using assms(3,5,6) Some v by (simp add: hdelCommand_def Let_def l d(1) u_def t_def signalModifiedKey_def)
    then have r: "val_of (hdelCommand c s) j key = val_of u j key" "creply (cl (hdelCommand c s) c) = creply (cl s c) @ [RInt (int n)]"
      using u(3) by (simp_all add: addReply_def)
    have "hash_at (hdelCommand c s) j key = hash_map y" using r(1) u(1) by (simp add: hash_at_def)
    then show ?thesis using r u(1) unfolding m d(5)[symmetric] n[symmetric] by simp
  qed
  then show "hash_at (hdelCommand c s) j key = hash_at s j key |` (- set fs)"
    "val_of (hdelCommand c s) j key = None \<longleftrightarrow> hash_at s j key |` (- set fs) = Map.empty"
    "creply (cl (hdelCommand c s) c) = creply (cl s c) @ [RInt (int (card (dom (hash_at s j key) \<inter> set fs)))]"
    by blast+
qed


definition hash_server :: "string list \<Rightarrow> server" where
  \<comment> \<open>a hash of two fields, and client 0 with a request\<close>
  "hash_server av = start_server\<lparr>
     dbs := empty_db\<lparr>kv := [''k'' \<mapsto> HashObj (HashZip [(''f'', ''7''), (''g'', ''x'')])]\<rparr> # replicate 15 empty_db,
     cl := (\<lambda>_. no_client\<lparr>cargv := av\<rparr>)\<rparr>"

lemma hash_server_fields:
  "val_of (hash_server av) 0 = [''k'' \<mapsto> HashObj (HashZip [(''f'', ''7''), (''g'', ''x'')])]"
  "exp_of (hash_server av) 0 = Map.empty" "length (dbs (hash_server av)) = 16" "cdb (cl (hash_server av) c) = 0"
  "argv (hash_server av) c = av" "creply (cl (hash_server av) c) = []" "notify_keyspace_events (hash_server av) = 0"
  by (simp_all add: hash_server_def start_server_def val_of_def exp_of_def empty_db_def no_client_def)

lemma hash_server_ok: "db_ok (hash_server av)" "okdb (hash_server av) 0"
proof -
  show "okdb (hash_server av) 0" by (simp add: okdb_def hash_server_fields)
  have "val_of (hash_server av) j = Map.empty \<and> exp_of (hash_server av) j = Map.empty" if "j < 16" "j \<noteq> 0" for j
    using that by (simp add: hash_server_def val_of_def exp_of_def nth_Cons empty_db_def split: nat.split)
  moreover have "\<not> crashed (hash_server av)" "\<not> cluster_enabled (hash_server av)" by (simp_all add: hash_server_def start_server_def)
  ultimately have "dom (exp_of (hash_server av) j) \<subseteq> dom (val_of (hash_server av) j) \<and> (\<forall>v \<in> ran (val_of (hash_server av) j). obj_ok v)"
    if "j < 16" for j
    using that by (cases "j = 0") (auto simp: hash_server_fields ran_def)
  then show "db_ok (hash_server av)" using \<open>\<not> crashed _\<close> \<open>\<not> cluster_enabled _\<close>
    unfolding db_ok_def hash_server_fields(3) by (intro conjI) (blast | simp)+
qed


end
