(* ===== verification/Spec2Isabelle.thy ===== *)
theory Spec2Isabelle
  imports DictProps LoopProps HashProps
begin

text \<open>
  A model of the C program of this repository, the Redis 3.0 server in its Windows port
  (\<open>src/redis-3.0/src\<close>).
\<close>

end
